(* ===== verification/Prelude.thy ===== *)
theory Prelude
  imports Main "HOL-Library.Word"
begin

text \<open>
  Shared vocabulary of the development: the machine types of the C and C++ sources, the
  exceptions they throw as values of a sum type, the bytes of an object, and the lemmas on
  words and lists that the components share.

  \<^item> \<open>u8\<close>, \<open>u16\<close>, \<open>u32\<close>, \<open>u64\<close> are the unsigned types \<^verbatim>\<open>uint8_t\<close> to \<^verbatim>\<open>uint64_t\<close>; \<open>+\<close>, \<open>-\<close>
    and \<open>*\<close> wrap around as in the sources. \<^verbatim>\<open>size_t\<close> is 64 bits wide (the platforms the
    Makefile builds for). Container sizes are \<open>nat\<close>.
  \<^item> \<open>blob\<close> is \<^verbatim>\<open>BinaryArray\<close>, \<^verbatim>\<open>std::string\<close> holding raw bytes, and a POD structure.
  \<^item> \<open>'a result\<close> is the outcome of code that may throw.
\<close>

unbundle bit_operations_syntax

type_synonym u8 = "8 word"
type_synonym u16 = "16 word"
type_synonym u32 = "32 word"
type_synonym u64 = "64 word"
type_synonym blob = "u8 list"

named_theorems codec_simps \<open>equations that unfold readers and writers\<close>
named_theorems unat_simps \<open>values of word expressions as natural numbers\<close>

section \<open>Exceptions as values\<close>

datatype exn =
    ReadFailed                  \<comment> \<open>Failed to read from IInputStream\<close>
  | WriteFailed                 \<comment> \<open>Failed to write to IOutputStream\<close>
  | VarintOverflow              \<comment> \<open>readVarint, value overflow\<close>
  | VarintRepresentation        \<comment> \<open>readVarint, invalid value representation\<close>
  | UnknownVariantTag           \<comment> \<open>Unknown variant tag\<close>
  | WrongTransactionVersion     \<comment> \<open>Wrong transaction version\<close>
  | UnexpectedSignaturesSize    \<comment> \<open>Serialization error: unexpected signatures size\<close>
  | SignaturesNotExpected       \<comment> \<open>Serialization error: signatures are not expected\<close>
  | WrongMajorVersion           \<comment> \<open>Wrong major version\<close>
  | WrongValue                  \<comment> \<open>Deserialization error: wrong value\<close>
  | HexCharacter                \<comment> \<open>fromHex: invalid character\<close>
  | HexStringSize               \<comment> \<open>fromHex: invalid string size\<close>
  | HexBufferSize               \<comment> \<open>fromHex: invalid buffer size\<close>
  | Failed string               \<comment> \<open>any other exception, with its message\<close>
  | Undefined                   \<comment> \<open>no exception: the language gives the code no result\<close>

type_synonym 'a result = "exn + 'a"

definition bindR :: "'a result \<Rightarrow> ('a \<Rightarrow> 'b result) \<Rightarrow> 'b result" where
  "bindR m f = (case m of Inl e \<Rightarrow> Inl e | Inr x \<Rightarrow> f x)"

lemma bindR_Inl [simp]: "bindR (Inl e) f = Inl e"
  by (simp add: bindR_def)

lemma bindR_Inr [simp]: "bindR (Inr x) f = f x"
  by (simp add: bindR_def)

lemma bindR_eq_Inr: "bindR m f = Inr y \<longleftrightarrow> (\<exists>x. m = Inr x \<and> f x = Inr y)"
  by (cases m) auto

lemma bindR_eq_InrE:
  assumes "bindR m f = Inr y"
  obtains x where "m = Inr x" and "f x = Inr y"
  using assms by (auto simp: bindR_eq_Inr)

lemma bindR_cong [fundef_cong]:
  "m = m' \<Longrightarrow> (\<And>x. m' = Inr x \<Longrightarrow> f x = g x) \<Longrightarrow> bindR m f = bindR m' g"
  by (cases m') auto

definition of_opt :: "exn \<Rightarrow> 'a option \<Rightarrow> 'a result" where
  "of_opt e x = (case x of None \<Rightarrow> Inl e | Some y \<Rightarrow> Inr y)"

lemma of_opt_simps [simp]: "of_opt e None = Inl e" "of_opt e (Some y) = Inr y"
  by (simp_all add: of_opt_def)

lemma of_opt_eq_Inr [simp]: "of_opt e x = Inr y \<longleftrightarrow> x = Some y"
  by (cases x) auto

text \<open>A loop over a list whose body may throw.\<close>

fun foldR :: "('a \<Rightarrow> 's \<Rightarrow> 's result) \<Rightarrow> 'a list \<Rightarrow> 's \<Rightarrow> 's result" where
  "foldR f [] s = Inr s"
| "foldR f (x # xs) s = bindR (f x s) (foldR f xs)"

lemma foldR_append: "foldR f (xs @ ys) s = bindR (foldR f xs s) (foldR f ys)"
  by (induction xs arbitrary: s) (auto simp: bindR_def split: sum.splits)

lemma foldR_cong [fundef_cong]:
  "xs = ys \<Longrightarrow> s = t \<Longrightarrow> (\<And>x s. x \<in> set ys \<Longrightarrow> f x s = g x s) \<Longrightarrow> foldR f xs s = foldR g ys t"
  by (induction ys arbitrary: xs s t) (auto intro!: bindR_cong)

section \<open>Words as numbers\<close>

lemma unat_drop_bit [unat_simps]: "unat (drop_bit n w) = unat w div 2 ^ n"
  for w :: "'a::len word"
  unfolding unat_drop_bit_eq by (rule drop_bit_eq_div)

lemma unat_and_mask [unat_simps]: "unat (w AND mask n) = unat w mod 2 ^ n"
  for w :: "'a::len word"
  unfolding take_bit_eq_mask [symmetric] unsigned_take_bit_eq by (rule take_bit_eq_mod)

lemma unat_ucast_eq [unat_simps]: "unat (ucast w :: 'b::len word) = unat w mod 2 ^ LENGTH('b)"
  for w :: "'a::len word"
  by (simp add: unsigned_ucast_eq take_bit_eq_mod)

lemma unat_bound [simp]: "unat w < 2 ^ LENGTH('a)"
  for w :: "'a::len word"
  by (rule unsigned_less)

lemma unat_u8_bound: "unat (b :: u8) < 256"
  using unat_bound [of b] by simp

lemma unat_u32_bound: "unat (b :: u32) < 4294967296"
  using unat_bound [of b] by simp

lemma unat_u64_bound: "unat (b :: u64) < 18446744073709551616"
  using unat_bound [of b] by simp

lemmas unat_bounds = unat_u8_bound unat_u32_bound unat_u64_bound

text \<open>A sum or product that fits is exact.\<close>

lemma unat_add_exact:
  "unat a + unat b < 2 ^ LENGTH('a) \<Longrightarrow> unat (a + b) = unat a + unat b"
  for a b :: "'a::len word"
  by (simp add: unat_word_ariths)

lemma unat_mult_exact:
  "unat a * unat b < 2 ^ LENGTH('a) \<Longrightarrow> unat (a * b) = unat a * unat b"
  for a b :: "'a::len word"
  by (simp add: unat_word_ariths)

lemma unat_push_bit_exact:
  "unat a * 2 ^ n < 2 ^ LENGTH('a) \<Longrightarrow> unat (push_bit n a) = unat a * 2 ^ n"
  for a :: "'a::len word"
  unfolding unsigned_push_bit_eq by (simp add: take_bit_eq_mod push_bit_eq_mult)

text \<open>The comparison that detects a wrapped sum, as the sources write it.\<close>

lemma wrapped_add_iff: "a + b < a \<longleftrightarrow> 2 ^ LENGTH('a) \<le> unat a + unat b"
  for a b :: "'a::len word"
  by (metis no_olen_add_nat not_less unat_plus_simple word_less_nat_alt add.commute)

text \<open>A disjunction of words with no common bit is their sum.\<close>

lemma nat_and_disjoint:
  fixes a b :: nat
  assumes "a < 2 ^ n" and "2 ^ n dvd b"
  shows "a AND b = 0"
proof (rule bit_eqI)
  fix k
  from assms(1) have "take_bit n a = a" by (simp add: take_bit_nat_eq_self)
  then have "bit a k \<Longrightarrow> k < n" by (metis bit_take_bit_iff)
  moreover from assms(2) obtain c where "b = push_bit n c"
    by (metis dvdE mult.commute push_bit_eq_mult)
  then have "bit b k \<Longrightarrow> n \<le> k" by (simp add: bit_push_bit_iff)
  ultimately show "bit (a AND b) k \<longleftrightarrow> bit (0::nat) k"
    by (auto simp: bit_and_iff)
qed

lemma unat_or_disjoint:
  fixes a b :: "'a::len word"
  assumes "unat a < 2 ^ n" and "2 ^ n dvd unat b"
  shows "unat (a OR b) = unat a + unat b"
  using nat_and_disjoint [OF assms] by (simp add: unsigned_or_eq disjunctive_add_eq_or)

section \<open>Bytes of an object\<close>

text \<open>The bytes of a word in memory order on a little endian machine.\<close>

fun le_bytes :: "nat \<Rightarrow> 'a::len word \<Rightarrow> blob" where
  "le_bytes 0 w = []"
| "le_bytes (Suc n) w = ucast w # le_bytes n (drop_bit 8 w)"

fun of_le_bytes :: "blob \<Rightarrow> 'a::len word" where
  "of_le_bytes [] = 0"
| "of_le_bytes (b # bs) = ucast b OR push_bit 8 (of_le_bytes bs)"

lemma length_le_bytes [simp]: "length (le_bytes n w) = n"
  by (induction n arbitrary: w) auto

lemma le_bytes_eq_map: "le_bytes n w = map (\<lambda>k. ucast (drop_bit (8 * k) w)) [0..<n]"
proof (induction n arbitrary: w)
  case 0
  then show ?case by simp
next
  case (Suc n)
  have "[0..<Suc n] = 0 # map Suc [0..<n]" by (simp add: upt_conv_Cons map_Suc_upt del: upt_Suc)
  with Suc show ?case by (simp add: add.commute del: upt_Suc)
qed

lemma of_le_bytes_le_bytes: "of_le_bytes (le_bytes n w) = take_bit (8 * n) w"
proof (induction n arbitrary: w)
  case 0
  then show ?case by simp
next
  case (Suc n)
  then show ?case by (auto simp: bit_eq_iff bit_simps)
qed

lemma bit_of_le_bytes: "bit (of_le_bytes bs :: 'a::len word) k \<Longrightarrow> k < 8 * length bs"
proof (induction bs arbitrary: k)
  case Nil
  then show ?case by simp
next
  case (Cons b bs)
  from Cons.prems have "k < 8 \<or> 8 \<le> k \<and> bit (of_le_bytes bs :: 'a word) (k - 8)"
    by (auto simp: bit_simps dest: bit_imp_le_length)
  with Cons.IH [of "k - 8"] show ?case by auto
qed

lemma le_bytes_of_le_bytes:
  "8 * length bs \<le> LENGTH('a) \<Longrightarrow> le_bytes (length bs) (of_le_bytes bs :: 'a::len word) = bs"
proof (induction bs)
  case Nil
  then show ?case by simp
next
  case (Cons b bs)
  let ?r = "of_le_bytes bs :: 'a word"
  have "ucast (ucast b OR push_bit 8 ?r) = b"
    using Cons.prems by (intro bit_word_eqI) (auto simp: bit_simps)
  moreover have "drop_bit 8 (ucast b OR push_bit 8 ?r) = ?r"
    using Cons.prems by (intro bit_word_eqI) (auto simp: bit_simps dest: bit_of_le_bytes bit_imp_le_length)
  ultimately show ?case using Cons by simp
qed

end
