(* ===== verification/IntUtil.thy ===== *)
theory IntUtil
  imports Prelude "HOL-Library.Monad_Syntax"
begin

text \<open>
  \<^verbatim>\<open>src/Common/int-util.h\<close>: rotations, the 64 by 64 bit multiplication, the long division of a
  128 bit number by a 32 bit one, and the byte swaps. The lemmas show that \<open>mul128\<close> and
  \<open>div128_32\<close> are exact on every input and that the byte swaps reverse the bytes.

  A division by zero is undefined behaviour in C; \<open>div_with_reminder\<close> is \<open>None\<close> there.
\<close>

section \<open>Rotations\<close>

definition rol32 :: "u32 \<Rightarrow> int \<Rightarrow> u32" where
  "rol32 x r = push_bit (nat (r AND 31)) x OR drop_bit (nat ((- r) AND 31)) x"

definition rol64 :: "u64 \<Rightarrow> int \<Rightarrow> u64" where
  "rol64 x r = push_bit (nat (r AND 63)) x OR drop_bit (nat ((- r) AND 63)) x"

section \<open>Double-width arithmetic\<close>

definition hi_dword :: "u64 \<Rightarrow> u64" where
  "hi_dword val = drop_bit 32 val"

definition lo_dword :: "u64 \<Rightarrow> u64" where
  "lo_dword val = val AND 0xFFFFFFFF"

text \<open>The result is the pair of the returned low word and \<^verbatim>\<open>*product_hi\<close>.\<close>

definition mul128 :: "u64 \<Rightarrow> u64 \<Rightarrow> u64 \<times> u64" where
  "mul128 multiplier multiplicand =
    (let a = hi_dword multiplier;
         b = lo_dword multiplier;
         c = hi_dword multiplicand;
         d = lo_dword multiplicand;
         ac = a * c;
         ad = a * d;
         bc = b * c;
         bd = b * d;
         adbc = ad + bc;
         adbc_carry = (if adbc < ad then 1 else 0);
         product_lo = bd + push_bit 32 adbc;
         product_lo_carry = (if product_lo < bd then 1 else 0);
         product_hi = ac + drop_bit 32 adbc + push_bit 32 adbc_carry + product_lo_carry
     in (product_lo, product_hi))"

text \<open>The result is the pair of the returned quotient and the new \<^verbatim>\<open>*remainder\<close>.\<close>

definition div_with_reminder :: "u64 \<Rightarrow> u32 \<Rightarrow> u32 \<Rightarrow> (u64 \<times> u32) option" where
  "div_with_reminder dividend divisor remainder =
    (if divisor = 0 then None
     else let dividend = dividend OR push_bit 32 (ucast remainder)
          in Some (dividend div ucast divisor, ucast (dividend mod ucast divisor)))"

text \<open>The result is the remainder, \<^verbatim>\<open>*quotient_hi\<close> and \<^verbatim>\<open>*quotient_lo\<close>.\<close>

definition div128_32 :: "u64 \<Rightarrow> u64 \<Rightarrow> u32 \<Rightarrow> (u32 \<times> u64 \<times> u64) option" where
  "div128_32 dividend_hi dividend_lo divisor =
    do {
      let remainder = 0;
      (q3, remainder) \<leftarrow> div_with_reminder (hi_dword dividend_hi) divisor remainder;
      let quotient_hi = push_bit 32 q3;
      (q2, remainder) \<leftarrow> div_with_reminder (lo_dword dividend_hi) divisor remainder;
      let quotient_hi = quotient_hi OR q2;
      (q1, remainder) \<leftarrow> div_with_reminder (hi_dword dividend_lo) divisor remainder;
      let quotient_lo = push_bit 32 q1;
      (q0, remainder) \<leftarrow> div_with_reminder (lo_dword dividend_lo) divisor remainder;
      let quotient_lo = quotient_lo OR q0;
      Some (remainder, quotient_hi, quotient_lo)
    }"

lemma unat_hi_dword [unat_simps]: "unat (hi_dword x) = unat x div 2 ^ 32"
  by (simp add: hi_dword_def unat_drop_bit)

lemma unat_lo_dword [unat_simps]: "unat (lo_dword x) = unat x mod 2 ^ 32"
proof -
  have "lo_dword x = x AND mask 32" by (simp add: lo_dword_def mask_eq_exp_minus_1)
  then show ?thesis by (simp only: unat_and_mask)
qed

lemma hi_dword_bound: "unat (hi_dword x) < 2 ^ 32"
  using unat_u64_bound [of x] by (simp add: unat_simps)

lemma lo_dword_bound: "unat (lo_dword x) < 2 ^ 32"
  by (simp add: unat_simps)

lemma dword_split: "unat x = unat (hi_dword x) * 2 ^ 32 + unat (lo_dword x)"
  unfolding unat_hi_dword unat_lo_dword by simp

lemma nat_mult_bound: "(a::nat) < m \<Longrightarrow> b < n \<Longrightarrow> a * b < m * n"
  by (simp add: mult_strict_mono)

text \<open>The product of two 32 bit halves fits.\<close>

lemma unat_half_mult:
  "unat a < 2 ^ 32 \<Longrightarrow> unat b < 2 ^ 32 \<Longrightarrow> unat (a * b :: u64) = unat a * unat b"
  using nat_mult_bound [of "unat a" "2 ^ 32" "unat b" "2 ^ 32"]
  by (intro unat_mult_exact) simp

text \<open>A 64 bit sum together with its carry.\<close>

lemma add_carry:
  fixes a b :: u64
  shows "unat a + unat b = unat (a + b) + (if a + b < a then 1 else 0) * 2 ^ 64"
proof -
  have "unat a + unat b < 2 * 2 ^ 64"
    using unat_bound [of a] unat_bound [of b] by simp
  then show ?thesis
    by (auto simp: wrapped_add_iff unat_word_ariths mod_if)
qed

lemma unat_push_bit_32 [unat_simps]: "unat (push_bit 32 (x :: u64)) = (unat x mod 2 ^ 32) * 2 ^ 32"
proof -
  have "unat (push_bit 32 x) = (unat x * 2 ^ 32) mod (2 ^ 32 * 2 ^ 32)"
    unfolding unsigned_push_bit_eq by (simp add: take_bit_eq_mod push_bit_eq_mult)
  then show ?thesis by (simp only: mult_mod_left)
qed

lemma shift_split: "(n::nat) * 2 ^ 32 = n div 2 ^ 32 * 2 ^ 64 + n mod 2 ^ 32 * 2 ^ 32"
proof -
  have "n * 2 ^ 32 = (n div 2 ^ 32 * 2 ^ 32 + n mod 2 ^ 32) * 2 ^ 32" by simp
  then show ?thesis unfolding add_mult_distrib by simp
qed

lemma mul128_exact:
  assumes "mul128 x y = (lo, hi)"
  shows "unat hi * 2 ^ 64 + unat lo = unat x * unat y"
proof -
  define a b c d where "a = hi_dword x" and "b = lo_dword x" and "c = hi_dword y" and "d = lo_dword y"
  note halves = hi_dword_bound [of x] lo_dword_bound [of x] hi_dword_bound [of y] lo_dword_bound [of y]
  define ad bc bd where "ad = a * d" and "bc = b * c" and "bd = b * d"
  define k :: u64 where "k = (if ad + bc < ad then 1 else 0)"
  define s where "s = push_bit 32 (ad + bc)"
  define l :: u64 where "l = (if bd + s < bd then 1 else 0)"
  have lo: "lo = bd + s" and hi: "hi = a * c + drop_bit 32 (ad + bc) + push_bit 32 k + l"
    using assms unfolding mul128_def Let_def prod.inject a_def b_def c_def d_def ad_def bc_def bd_def
      k_def s_def l_def by (blast+)
  have prods: "unat (a * c) = unat a * unat c" "unat ad = unat a * unat d"
      "unat bc = unat b * unat c" "unat bd = unat b * unat d"
    unfolding ad_def bc_def bd_def a_def b_def c_def d_def using halves by (simp_all add: unat_half_mult)
  define H where "H = unat (a * c) + unat (ad + bc) div 2 ^ 32 + unat k * 2 ^ 32 + unat l"
  have k: "unat ad + unat bc = unat (ad + bc) + unat k * 2 ^ 64"
    using add_carry [of ad bc] by (simp add: k_def split: if_splits)
  have l: "unat bd + unat s = unat lo + unat l * 2 ^ 64"
    using add_carry [of bd s] by (simp add: lo l_def split: if_splits)
  have s: "unat s = (unat (ad + bc) mod 2 ^ 32) * 2 ^ 32" by (simp only: s_def unat_simps)
  have "unat x * unat y = unat (a * c) * 2 ^ 64 + (unat ad + unat bc) * 2 ^ 32 + unat bd"
    unfolding prods unfolding dword_split [of x] dword_split [of y] a_def b_def c_def d_def
    by (simp add: algebra_simps)
  also have "\<dots> = H * 2 ^ 64 + unat lo"
  proof -
    have "(unat ad + unat bc) * 2 ^ 32
        = unat (ad + bc) div 2 ^ 32 * 2 ^ 64 + unat s + unat k * 2 ^ 32 * 2 ^ 64"
      unfolding k s add_mult_distrib shift_split [of "unat (ad + bc)"] by simp
    then show ?thesis using l unfolding H_def by (simp add: algebra_simps)
  qed
  finally have eq: "unat x * unat y = H * 2 ^ 64 + unat lo" .
  have "unat x * unat y < 2 ^ 64 * 2 ^ 64"
    by (rule nat_mult_bound) (use unat_bound [of x] unat_bound [of y] in simp_all)
  with eq have "H * 2 ^ 64 < 2 ^ 64 * 2 ^ 64" by linarith
  then have "H < 2 ^ 64" by simp
  have "hi = of_nat H"
    unfolding hi H_def unat_drop_bit [symmetric] by (simp add: push_bit_eq_mult)
  with \<open>H < 2 ^ 64\<close> have "unat hi = H" by (simp add: unat_of_nat)
  with eq show ?thesis by simp
qed

section \<open>Long division\<close>

lemma div_with_reminder_exact:
  assumes "unat dividend < 2 ^ 32" and "unat r < unat divisor"
  shows "\<exists>q r'. div_with_reminder dividend divisor r = Some (q, r')
    \<and> unat r * 2 ^ 32 + unat dividend = unat q * unat divisor + unat r'
    \<and> unat r' < unat divisor \<and> unat q < 2 ^ 32"
proof -
  define n where "n = unat r * 2 ^ 32 + unat dividend"
  have uc: "unat (ucast w :: u64) = unat w" for w :: u32
    unfolding unat_ucast_eq using unat_bound [of w] by simp
  have pb: "unat (push_bit 32 (ucast r) :: u64) = unat r * 2 ^ 32"
    unfolding unat_push_bit_32 uc using unat_bound [of r] by simp
  have "unat (dividend OR push_bit 32 (ucast r)) = unat dividend + unat r * 2 ^ 32"
    unfolding pb [symmetric] by (rule unat_or_disjoint [where n = 32]) (use assms(1) in \<open>simp_all add: pb\<close>)
  then have d: "unat (dividend OR push_bit 32 (ucast r)) = n" by (simp add: n_def)
  define q where "q = (dividend OR push_bit 32 (ucast r)) div (ucast divisor :: u64)"
  define r' :: u32 where "r' = ucast ((dividend OR push_bit 32 (ucast r)) mod (ucast divisor :: u64))"
  have q: "unat q = n div unat divisor" by (simp add: q_def unat_div_distrib d uc)
  have "n mod unat divisor < unat divisor" using assms(2) by simp
  moreover have "unat r' = (n mod unat divisor) mod 2 ^ 32"
    unfolding r'_def unat_ucast_eq by (simp add: unat_mod_distrib d uc)
  ultimately have r': "unat r' = n mod unat divisor"
    using unat_bound [of divisor] by simp
  have "n < unat divisor * 2 ^ 32"
  proof -
    have "n < (unat r + 1) * 2 ^ 32" using assms(1) by (simp add: n_def)
    also have "\<dots> \<le> unat divisor * 2 ^ 32" using assms(2) by (intro mult_right_mono) simp_all
    finally show ?thesis .
  qed
  then have "unat q < 2 ^ 32" unfolding q by (simp add: div_less_iff_less_mult assms less_mult_imp_div_less mult.commute)
  moreover have "divisor \<noteq> 0" using assms(2) by auto
  then have "div_with_reminder dividend divisor r = Some (q, r')"
    by (simp add: div_with_reminder_def Let_def q_def r'_def)
  moreover have "n = unat q * unat divisor + unat r'" unfolding q r' by simp
  ultimately show ?thesis using r' assms(2) by (auto simp: n_def)
qed

text \<open>The disjunction of a shifted high half and a low half is their sum.\<close>

lemma unat_join_halves:
  assumes "unat h < 2 ^ 32" and "unat l < 2 ^ 32"
  shows "unat (push_bit 32 h OR l :: u64) = unat h * 2 ^ 32 + unat l"
proof -
  have "unat (push_bit 32 h) = unat h * 2 ^ 32" unfolding unat_push_bit_32 using assms(1) by simp
  moreover from this have "unat (l OR push_bit 32 h) = unat l + unat (push_bit 32 h)"
    by (intro unat_or_disjoint [where n = 32]) (use assms(2) in simp_all)
  ultimately show ?thesis by (simp add: or.commute)
qed

lemma div128_32_exact:
  assumes "divisor \<noteq> 0"
  shows "\<exists>r qh ql. div128_32 dh dl divisor = Some (r, qh, ql)
    \<and> unat dh * 2 ^ 64 + unat dl = (unat qh * 2 ^ 64 + unat ql) * unat divisor + unat r
    \<and> unat r < unat divisor"
proof -
  have pos: "unat (0 :: u32) < unat divisor" using assms by (simp add: unat_gt_0)
  obtain q3 r3 where 3: "div_with_reminder (hi_dword dh) divisor 0 = Some (q3, r3)"
      "unat (hi_dword dh) = unat q3 * unat divisor + unat r3" "unat r3 < unat divisor" "unat q3 < 2 ^ 32"
    using div_with_reminder_exact [OF hi_dword_bound [of dh] pos] by auto
  obtain q2 r2 where 2: "div_with_reminder (lo_dword dh) divisor r3 = Some (q2, r2)"
      "unat r3 * 2 ^ 32 + unat (lo_dword dh) = unat q2 * unat divisor + unat r2"
      "unat r2 < unat divisor" "unat q2 < 2 ^ 32"
    using div_with_reminder_exact [OF lo_dword_bound [of dh] 3(3)] by auto
  obtain q1 r1 where 1: "div_with_reminder (hi_dword dl) divisor r2 = Some (q1, r1)"
      "unat r2 * 2 ^ 32 + unat (hi_dword dl) = unat q1 * unat divisor + unat r1"
      "unat r1 < unat divisor" "unat q1 < 2 ^ 32"
    using div_with_reminder_exact [OF hi_dword_bound [of dl] 2(3)] by auto
  obtain q0 r0 where 0: "div_with_reminder (lo_dword dl) divisor r1 = Some (q0, r0)"
      "unat r1 * 2 ^ 32 + unat (lo_dword dl) = unat q0 * unat divisor + unat r0"
      "unat r0 < unat divisor" "unat q0 < 2 ^ 32"
    using div_with_reminder_exact [OF lo_dword_bound [of dl] 1(3)] by auto
  let ?qh = "push_bit 32 q3 OR q2" and ?ql = "push_bit 32 q1 OR q0"
  have run: "div128_32 dh dl divisor = Some (r0, ?qh, ?ql)"
    by (simp add: div128_32_def Let_def 3(1) 2(1) 1(1) 0(1))
  have q: "unat ?qh = unat q3 * 2 ^ 32 + unat q2" "unat ?ql = unat q1 * 2 ^ 32 + unat q0"
    using 3 2 1 0 by (simp_all add: unat_join_halves)
  have "unat dh * 2 ^ 64 + unat dl
      = unat (hi_dword dh) * 2 ^ 96 + unat (lo_dword dh) * 2 ^ 64 + unat (hi_dword dl) * 2 ^ 32 + unat (lo_dword dl)"
    unfolding dword_split [of dh] dword_split [of dl] by (simp add: algebra_simps)
  also have "\<dots> = (unat ?qh * 2 ^ 64 + unat ?ql) * unat divisor + unat r0"
    using 3(2) 2(2) 1(2) 0(2) unfolding q by (simp add: algebra_simps)
  finally show ?thesis using run 0(3) by blast
qed

section \<open>Byte swaps\<close>

definition SWAP32 :: "u32 \<Rightarrow> u32" where
  "SWAP32 x = push_bit 24 (x AND 0x000000ff) OR push_bit 8 (x AND 0x0000ff00)
    OR drop_bit 8 (x AND 0x00ff0000) OR drop_bit 24 (x AND 0xff000000)"

definition SWAP64 :: "u64 \<Rightarrow> u64" where
  "SWAP64 x = push_bit 56 (x AND 0x00000000000000ff) OR push_bit 40 (x AND 0x000000000000ff00)
    OR push_bit 24 (x AND 0x0000000000ff0000) OR push_bit 8 (x AND 0x00000000ff000000)
    OR drop_bit 8 (x AND 0x000000ff00000000) OR drop_bit 24 (x AND 0x0000ff0000000000)
    OR drop_bit 40 (x AND 0x00ff000000000000) OR drop_bit 56 (x AND 0xff00000000000000)"

definition swap32 :: "u32 \<Rightarrow> u32" where
  "swap32 x =
    (let x = push_bit 8 (x AND 0x00ff00ff) OR drop_bit 8 (x AND 0xff00ff00)
     in push_bit 16 x OR drop_bit 16 x)"

definition swap64 :: "u64 \<Rightarrow> u64" where
  "swap64 x =
    (let x = push_bit 8 (x AND 0x00ff00ff00ff00ff) OR drop_bit 8 (x AND 0xff00ff00ff00ff00);
         x = push_bit 16 (x AND 0x0000ffff0000ffff) OR drop_bit 16 (x AND 0xffff0000ffff0000)
     in push_bit 32 x OR drop_bit 32 x)"

text \<open>The array versions swap the first \<open>n\<close> elements in place, or copy them swapped.\<close>

fun mem_inplace_swap32_from :: "nat \<Rightarrow> nat \<Rightarrow> u32 list \<Rightarrow> u32 list" where
  "mem_inplace_swap32_from 0 i mem = mem"
| "mem_inplace_swap32_from (Suc n) i mem = mem_inplace_swap32_from n (Suc i) (mem[i := swap32 (mem ! i)])"

definition mem_inplace_swap32 :: "u32 list \<Rightarrow> nat \<Rightarrow> u32 list" where
  "mem_inplace_swap32 mem n = mem_inplace_swap32_from n 0 mem"

fun mem_inplace_swap64_from :: "nat \<Rightarrow> nat \<Rightarrow> u64 list \<Rightarrow> u64 list" where
  "mem_inplace_swap64_from 0 i mem = mem"
| "mem_inplace_swap64_from (Suc n) i mem = mem_inplace_swap64_from n (Suc i) (mem[i := swap64 (mem ! i)])"

definition mem_inplace_swap64 :: "u64 list \<Rightarrow> nat \<Rightarrow> u64 list" where
  "mem_inplace_swap64 mem n = mem_inplace_swap64_from n 0 mem"

lemma byte_masks64:
  "(0xff :: u64) = mask 8" "(0xff00 :: u64) = push_bit 8 (mask 8)" "(0xff0000 :: u64) = push_bit 16 (mask 8)"
  "(0xff000000 :: u64) = push_bit 24 (mask 8)" "(0xff00000000 :: u64) = push_bit 32 (mask 8)"
  "(0xff0000000000 :: u64) = push_bit 40 (mask 8)" "(0xff000000000000 :: u64) = push_bit 48 (mask 8)"
  "(0xff00000000000000 :: u64) = push_bit 56 (mask 8)"
  "(0x00ff00ff00ff00ff :: u64) = mask 8 OR push_bit 16 (mask 8) OR push_bit 32 (mask 8) OR push_bit 48 (mask 8)"
  "(0xff00ff00ff00ff00 :: u64) = push_bit 8 (mask 8) OR push_bit 24 (mask 8) OR push_bit 40 (mask 8) OR push_bit 56 (mask 8)"
  "(0x0000ffff0000ffff :: u64) = mask 16 OR push_bit 32 (mask 16)"
  "(0xffff0000ffff0000 :: u64) = push_bit 16 (mask 16) OR push_bit 48 (mask 16)"
  by (simp_all add: mask_eq_exp_minus_1)

lemma byte_masks32:
  "(0xff :: u32) = mask 8" "(0xff00 :: u32) = push_bit 8 (mask 8)" "(0xff0000 :: u32) = push_bit 16 (mask 8)"
  "(0xff000000 :: u32) = push_bit 24 (mask 8)"
  "(0x00ff00ff :: u32) = mask 8 OR push_bit 16 (mask 8)"
  "(0xff00ff00 :: u32) = push_bit 8 (mask 8) OR push_bit 24 (mask 8)"
  by (simp_all add: mask_eq_exp_minus_1)

lemma less_8_cases: "(k::nat) < 8 \<Longrightarrow> k = 0 \<or> k = 1 \<or> k = 2 \<or> k = 3 \<or> k = 4 \<or> k = 5 \<or> k = 6 \<or> k = 7"
  by arith

lemma less_4_cases: "(k::nat) < 4 \<Longrightarrow> k = 0 \<or> k = 1 \<or> k = 2 \<or> k = 3"
  by arith

text \<open>Byte \<open>k\<close> of the swapped word is byte \<open>7 - k\<close> of the word.\<close>

lemma bit_SWAP64: "k < 8 \<Longrightarrow> n < 8 \<Longrightarrow> bit (SWAP64 x) (8 * k + n) = bit x (8 * (7 - k) + n)"
  unfolding SWAP64_def byte_masks64
  by (drule less_8_cases, elim disjE) (simp_all add: bit_simps)

lemma bit_swap64: "k < 8 \<Longrightarrow> n < 8 \<Longrightarrow> bit (swap64 x) (8 * k + n) = bit x (8 * (7 - k) + n)"
  unfolding swap64_def byte_masks64 Let_def
  by (drule less_8_cases, elim disjE) (simp_all add: bit_simps)

lemma bit_SWAP32: "k < 4 \<Longrightarrow> n < 8 \<Longrightarrow> bit (SWAP32 x) (8 * k + n) = bit x (8 * (3 - k) + n)"
  unfolding SWAP32_def byte_masks32
  by (drule less_4_cases, elim disjE) (simp_all add: bit_simps)

lemma bit_swap32: "k < 4 \<Longrightarrow> n < 8 \<Longrightarrow> bit (swap32 x) (8 * k + n) = bit x (8 * (3 - k) + n)"
  unfolding swap32_def byte_masks32 Let_def
  by (drule less_4_cases, elim disjE) (simp_all add: bit_simps)

lemma bytewise_eqI:
  fixes x y :: "'a::len word"
  assumes "LENGTH('a) = 8 * m" and "\<And>k n. k < m \<Longrightarrow> n < 8 \<Longrightarrow> bit x (8 * k + n) = bit y (8 * k + n)"
  shows "x = y"
proof (rule bit_word_eqI)
  fix i assume "i < LENGTH('a)"
  then have "i div 8 < m" using assms(1) by (simp add: div_less_iff_less_mult mult.commute)
  then show "bit x i = bit y i" using assms(2) [of "i div 8" "i mod 8"] by simp
qed

lemma swap64_eq_SWAP64: "swap64 x = SWAP64 x"
  by (rule bytewise_eqI [where m = 8]) (simp_all add: bit_SWAP64 bit_swap64)

lemma swap32_eq_SWAP32: "swap32 x = SWAP32 x"
  by (rule bytewise_eqI [where m = 4]) (simp_all add: bit_SWAP32 bit_swap32)

text \<open>The swap is its own inverse, and reverses the bytes in memory.\<close>

lemma swap64_involutive: "swap64 (swap64 x) = x"
  by (rule bytewise_eqI [where m = 8]) (simp_all add: bit_swap64)

lemma swap32_involutive: "swap32 (swap32 x) = x"
  by (rule bytewise_eqI [where m = 4]) (simp_all add: bit_swap32)

lemma le_bytes_SWAP64: "le_bytes 8 (SWAP64 x) = rev (le_bytes 8 x)"
proof (rule nth_equalityI)
  show "length (le_bytes 8 (SWAP64 x)) = length (rev (le_bytes 8 x))" by simp
  fix k assume "k < length (le_bytes 8 (SWAP64 x))"
  then have k: "k < 8" by simp
  have "ucast (drop_bit (8 * k) (SWAP64 x)) = (ucast (drop_bit (8 * (7 - k)) x) :: u8)"
    by (rule bit_word_eqI) (use k in \<open>auto simp: bit_simps bit_SWAP64\<close>)
  moreover have "[0..<8] ! (7 - k) = 7 - k" by (subst nth_upt) simp_all
  ultimately show "le_bytes 8 (SWAP64 x) ! k = rev (le_bytes 8 x) ! k"
    using k unfolding le_bytes_eq_map by (simp add: rev_nth del: upt_rec_numeral)
qed

lemma mem_inplace_swap64_from_eq:
  "i + n \<le> length mem \<Longrightarrow>
   mem_inplace_swap64_from n i mem = take i mem @ map swap64 (take n (drop i mem)) @ drop (i + n) mem"
proof (induction n arbitrary: i mem)
  case 0
  then show ?case by simp
next
  case (Suc n)
  then have "drop i mem = mem ! i # drop (Suc i) mem" by (simp add: Cons_nth_drop_Suc)
  with Suc show ?case by (simp add: take_Suc_conv_app_nth)
qed

end
