(* ===== verification/Varint.thy ===== *)
theory Varint
  imports IntUtil
begin

text \<open>
  \<^verbatim>\<open>src/Common/Varint.h\<close>: variable-length integers, seven bits a byte, least significant first.
  \<open>varint_bytes\<close> is the format as a function of the number; \<open>write_varint\<close> produces it, and
  \<open>read_varint\<close> reads it back. The word lemmas on one step of a reader are shared with the
  stream readers of \<^verbatim>\<open>StreamTools.cpp\<close>.
\<close>

section \<open>The format\<close>

fun varint_bytes :: "nat \<Rightarrow> blob" where
  "varint_bytes n =
    (if n < 128 then [of_nat n] else of_nat (n mod 128 + 128) # varint_bytes (n div 128))"

declare varint_bytes.simps [simp del]

lemma varint_bytes_small: "n < 128 \<Longrightarrow> varint_bytes n = [of_nat n]"
  by (simp add: varint_bytes.simps)

lemma varint_bytes_large:
  "128 \<le> n \<Longrightarrow> varint_bytes n = of_nat (n mod 128 + 128) # varint_bytes (n div 128)"
  by (simp add: varint_bytes.simps [of n])

lemma varint_bytes_nonempty [simp]: "varint_bytes n \<noteq> []"
  by (simp add: varint_bytes.simps)

lemma unat_of_nat_u8: "n < 256 \<Longrightarrow> unat (of_nat n :: u8) = n"
  by (simp add: unat_of_nat)

section \<open>One step of a reader\<close>

lemma continuation_bit: "piece AND 0x80 = 0 \<longleftrightarrow> unat piece < 128"
  for piece :: u8
proof -
  have "(0x80 :: u8) = push_bit 7 1" by simp
  then have "piece AND 0x80 = 0 \<longleftrightarrow> \<not> bit piece 7"
    by (metis and_exp_eq_0_iff_not_bit push_bit_of_1)
  also have "\<dots> \<longleftrightarrow> even (unat piece div 2 ^ 7)"
    using bit_iff_odd [of "unat piece" 7] by (simp add: bit_unsigned_iff)
  also have "\<dots> \<longleftrightarrow> unat piece < 128"
  proof -
    have "unat piece div 128 < 2" using unat_u8_bound [of piece] by simp
    then have "unat piece div 128 = 0 \<or> unat piece div 128 = 1" by linarith
    then show ?thesis by auto
  qed
  finally show ?thesis .
qed

lemma unat_low7: "unat (piece AND 0x7f :: u8) = unat piece mod 128"
proof -
  have "(0x7f :: u8) = mask 7" by (simp add: mask_eq_exp_minus_1)
  then show ?thesis by (simp only: unat_and_mask) simp
qed

lemma varint_step:
  fixes temp :: "'a::len word" and piece :: u8
  assumes temp: "unat temp < 2 ^ shift"
    and fits: "(unat piece mod 128) * 2 ^ shift < 2 ^ LENGTH('a)"
  shows "unat (temp OR push_bit shift (ucast (piece AND 0x7f))) = unat temp + (unat piece mod 128) * 2 ^ shift"
proof -
  let ?p = "ucast (piece AND 0x7f) :: 'a word"
  have "unat piece mod 128 < 2 ^ LENGTH('a)"
    using fits by (metis le_less_trans mult.right_neutral mult_le_mono2 one_le_numeral one_le_power)
  then have p: "unat ?p = unat piece mod 128"
    unfolding unat_ucast_eq unat_low7 by simp
  then have "unat (push_bit shift ?p) = (unat piece mod 128) * 2 ^ shift"
    using fits by (simp add: unat_push_bit_exact)
  then show ?thesis using unat_or_disjoint [OF temp, of "push_bit shift ?p"] by simp
qed

text \<open>A byte with the continuation bit, in front of a nonzero rest.\<close>

lemma varint_bytes_cons:
  fixes p :: u8
  assumes "128 \<le> unat p" and "n \<noteq> 0"
  shows "varint_bytes (unat p mod 128 + 128 * n) = p # varint_bytes n"
proof -
  let ?n = "unat p mod 128 + 128 * n"
  have "?n mod 128 = unat p mod 128" by simp
  also have "\<dots> = unat p - 128" using assms(1) unat_u8_bound [of p] by (simp add: le_mod_geq)
  finally have "?n mod 128 + 128 = unat p" using assms(1) by linarith
  then have "of_nat (?n mod 128 + 128) = p" by simp
  moreover have "?n div 128 = n" by simp
  moreover have "128 \<le> ?n" using assms(2) by simp
  ultimately show ?thesis by (simp only: varint_bytes_large)
qed

section \<open>Varint.h\<close>

function write_varint :: "blob \<Rightarrow> 'a::len word \<Rightarrow> blob" where
  "write_varint dest i =
    (if 0x80 \<le> unat i
     then write_varint (dest @ [(ucast i AND 0x7f) OR 0x80]) (drop_bit 7 i)
     else dest @ [ucast i])"
  by pat_completeness auto
termination
  by (relation "measure (\<lambda>(_, i). unat i)") (auto simp: unat_simps)

declare write_varint.simps [simp del]

definition get_varint_data :: "'a::len word \<Rightarrow> blob" where
  "get_varint_data v = write_varint [] v"

fun read_varint_from :: "nat \<Rightarrow> nat \<Rightarrow> int \<Rightarrow> 'a::len word \<Rightarrow> blob \<Rightarrow> int \<times> 'a word" where
  "read_varint_from bits shift read i [] = (read, i)"
| "read_varint_from bits shift read i (byte # rest) =
    (let read = read + 1
     in if bits \<le> shift + 7 \<and> 2 ^ (bits - shift) \<le> unat byte then (-1, i)
        else if byte = 0 \<and> shift \<noteq> 0 then (-2, i)
        else let i = i OR push_bit shift (ucast (byte AND 0x7f))
             in if byte AND 0x80 = 0 then (read, i)
                else read_varint_from bits (shift + 7) read i rest)"

text \<open>The two-iterator overload instantiates \<^verbatim>\<open>bits\<close> with the width of the target type.\<close>

definition read_varint :: "blob \<Rightarrow> int \<times> 'a::len word" where
  "read_varint data = read_varint_from LENGTH('a) 0 0 0 data"

lemma varint_piece: "(ucast i AND 0x7f) OR 0x80 = (of_nat (unat i mod 128 + 128) :: u8)"
  for i :: "'a::len word"
proof -
  have "unat ((ucast i AND 0x7f) OR 0x80 :: u8) = unat (ucast i AND 0x7f :: u8) + unat (0x80 :: u8)"
    by (rule unat_or_disjoint [where n = 7]) (simp_all add: unat_low7)
  also have "unat (ucast i AND 0x7f :: u8) = unat i mod 128"
    unfolding unat_low7 unat_ucast_eq by (simp add: mod_mod_cancel)
  finally have "unat ((ucast i AND 0x7f) OR 0x80 :: u8) = unat i mod 128 + 128" by simp
  then show ?thesis by (metis of_nat_unat ucast_id)
qed

lemma write_varint_bytes: "write_varint dest i = dest @ varint_bytes (unat i)"
proof (induction dest i rule: write_varint.induct)
  case (1 dest i)
  show ?case
  proof (cases "0x80 \<le> unat i")
    case True
    with "1.IH" show ?thesis
      by (simp add: write_varint.simps [of dest i] varint_bytes_large varint_piece unat_simps)
  next
    case False
    then show ?thesis
      by (simp add: write_varint.simps [of dest i] varint_bytes_small)
  qed
qed


section \<open>What the readers compute\<close>

lemma fits_small:
  assumes "n * 2 ^ shift < (2::nat) ^ L" and "shift \<noteq> 0 \<Longrightarrow> n \<noteq> 0" and "0 < L"
  shows "shift < L \<and> n < 2 ^ (L - shift)"
proof -
  have "shift < L"
  proof (rule ccontr)
    assume "\<not> shift < L"
    then have "(2::nat) ^ L \<le> 2 ^ shift" by simp
    moreover have "1 \<le> n" using assms(2,3) \<open>\<not> shift < L\<close> by (cases n) auto
    then have "1 * (2::nat) ^ shift \<le> n * 2 ^ shift" by (rule mult_le_mono1)
    ultimately show False using assms(1) by linarith
  qed
  then have "(2::nat) ^ L = 2 ^ (L - shift) * 2 ^ shift" by (simp flip: power_add)
  with assms(1) \<open>shift < L\<close> show ?thesis by simp
qed

lemma fits_large:
  assumes "n * 2 ^ shift < (2::nat) ^ L" and "128 \<le> n"
  shows "shift + 7 < L"
proof -
  have "2 ^ (shift + 7) \<le> n * (2::nat) ^ shift" using assms(2) by (simp add: power_add)
  with assms(1) have "(2::nat) ^ (shift + 7) < 2 ^ L" by linarith
  then show ?thesis by simp
qed

text \<open>The value accumulated before the step and the bits of the piece stay below the next shift.\<close>

lemma varint_step_bound: "a < 2 ^ shift \<Longrightarrow> a + (p mod 128) * 2 ^ shift < (2::nat) ^ (shift + 7)"
proof -
  assume "a < 2 ^ shift"
  moreover have "p mod 128 * 2 ^ shift \<le> 127 * (2::nat) ^ shift"
    by (rule mult_right_mono) (use pos_mod_bound [of 128 "int p"] in simp_all)
  ultimately have "a + p mod 128 * 2 ^ shift < 128 * 2 ^ shift" by linarith
  then show ?thesis by (simp add: power_add)
qed

lemma varint_value_step: "n mod 128 * 2 ^ shift + n div 128 * 2 ^ (shift + 7) = n * (2::nat) ^ shift"
proof -
  have "n * 2 ^ shift = (n mod 128 + n div 128 * 128) * 2 ^ shift" by simp
  also have "\<dots> = n mod 128 * 2 ^ shift + n div 128 * 2 ^ (shift + 7)"
    unfolding add_mult_distrib power_add by simp
  finally show ?thesis by simp
qed

lemma read_varint_from_bytes:
  fixes i :: "'a::len word"
  assumes "unat i < 2 ^ shift" and "unat i + n * 2 ^ shift < 2 ^ LENGTH('a)" and "shift \<noteq> 0 \<Longrightarrow> n \<noteq> 0"
  shows "read_varint_from LENGTH('a) shift r i (varint_bytes n @ rest)
    = (r + int (length (varint_bytes n)), of_nat (unat i + n * 2 ^ shift))"
  using assms
proof (induction n arbitrary: shift r i rule: varint_bytes.induct)
  case (1 n)
  have fit: "n * 2 ^ shift < 2 ^ LENGTH('a)" using "1.prems"(2) by linarith
  show ?case
  proof (cases "n < 128")
    case True
    let ?p = "of_nat n :: u8"
    have p: "unat ?p = n" using True by (simp add: unat_of_nat_u8)
    have "\<not> 2 ^ (LENGTH('a) - shift) \<le> n"
      using fits_small [OF fit "1.prems"(3)] by simp
    moreover have "\<not> (?p = 0 \<and> shift \<noteq> 0)" using p "1.prems"(3) by (metis unat_0)
    moreover have "unat (i OR push_bit shift (ucast (?p AND 0x7f))) = unat i + n * 2 ^ shift"
      using varint_step [OF "1.prems"(1), of ?p] p True fit by simp
    then have "i OR push_bit shift (ucast (?p AND 0x7f)) = of_nat (unat i + n * 2 ^ shift)"
      by (metis of_nat_unat ucast_id)
    ultimately show ?thesis
      using True p by (auto simp: varint_bytes_small continuation_bit Let_def)
  next
    case False
    define q :: u8 where "q = of_nat (n mod 128 + 128)"
    let ?i = "i OR push_bit shift (ucast (q AND 0x7f))"
    have p: "unat q = n mod 128 + 128"
      unfolding q_def by (rule unat_of_nat_u8) (use mod_less_divisor [of 128 n] in linarith)
    have bytes: "varint_bytes n = q # varint_bytes (n div 128)"
      unfolding q_def by (rule varint_bytes_large) (use False in simp)
    have shift: "shift + 7 < LENGTH('a)" using fits_large fit False by simp
    have low: "unat q mod 128 = n mod 128" using p by simp
    have "n mod 128 * 2 ^ shift \<le> n * 2 ^ shift" by simp
    with fit have "unat q mod 128 * 2 ^ shift < 2 ^ LENGTH('a)" unfolding low by linarith
    then have i: "unat ?i = unat i + n mod 128 * 2 ^ shift"
      using varint_step [OF "1.prems"(1), of q] unfolding low by blast
    have bound: "unat ?i < 2 ^ (shift + 7)" unfolding i by (rule varint_step_bound) (rule "1.prems"(1))
    have total: "unat ?i + n div 128 * 2 ^ (shift + 7) = unat i + n * 2 ^ shift"
      unfolding i using varint_value_step [of n shift] by linarith
    have fits: "unat ?i + n div 128 * 2 ^ (shift + 7) < 2 ^ LENGTH('a)"
      unfolding total by (rule "1.prems"(2))
    have "n div 128 \<noteq> 0" using False by simp
    note "1.IH" [OF False bound fits this, of "r + 1", unfolded total]
    moreover have "q \<noteq> 0" using p by (metis add_is_0 unat_0 zero_neq_numeral)
    ultimately show ?thesis
      using p shift by (simp add: bytes continuation_bit Let_def)
  qed
qed

lemma read_varint_write: "read_varint (get_varint_data v @ rest) = (int (length (get_varint_data v)), v)"
  for v :: "'a::len word"
  using read_varint_from_bytes [of "0 :: 'a word" 0 "unat v" 0 rest]
  by (simp add: read_varint_def get_varint_data_def write_varint_bytes)

lemma guard_fits:
  assumes "\<not> (L \<le> shift + 7 \<and> 2 ^ (L - shift) \<le> p)" and "p < 128"
  shows "p * 2 ^ shift < (2::nat) ^ L"
proof (cases "L \<le> shift + 7")
  case True
  with assms(1) have p: "p < 2 ^ (L - shift)" by simp
  show ?thesis
  proof (cases "shift \<le> L")
    case True
    then have "(2::nat) ^ L = 2 ^ (L - shift) * 2 ^ shift" by (simp flip: power_add)
    with p show ?thesis by simp
  next
    case False
    with p show ?thesis by simp
  qed
next
  case False
  have "p * 2 ^ shift < 2 ^ (shift + 7)" using assms(2) by (simp add: power_add)
  also have "\<dots> \<le> 2 ^ L" by (rule power_increasing) (use False in simp_all)
  finally show ?thesis .
qed

lemma guard_continues:
  assumes "\<not> (L \<le> shift + 7 \<and> 2 ^ (L - shift) \<le> p)" and "128 \<le> (p::nat)"
  shows "shift + 7 < L"
proof (rule ccontr)
  assume "\<not> shift + 7 < L"
  then have "(2::nat) ^ (L - shift) \<le> 2 ^ 7" by (intro power_increasing) simp_all
  with assms \<open>\<not> shift + 7 < L\<close> show False by simp
qed

text \<open>
  What a positive return means: the bytes read are the encoding of the value, or the input
  ended inside a varint. The second case is the comment \<^verbatim>\<open>End of input\<close> of the source: the
  count read so far is returned, as on success.
\<close>

lemma read_varint_from_sound:
  fixes i :: "'a::len word"
  assumes "unat i < 2 ^ shift" and "read_varint_from LENGTH('a) shift r i data = (r', v)" and "0 \<le> r" and "0 \<le> r'"
  shows "(\<exists>n rest. data = varint_bytes n @ rest \<and> r' = r + int (length (varint_bytes n))
            \<and> unat v = unat i + n * 2 ^ shift \<and> (shift \<noteq> 0 \<longrightarrow> n \<noteq> 0))
    \<or> r' = r + int (length data) \<and> (\<forall>b \<in> set data. 128 \<le> unat b)"
  using assms
proof (induction data arbitrary: shift r i)
  case Nil
  then show ?case by simp
next
  case (Cons p data)
  let ?i = "i OR push_bit shift (ucast (p AND 0x7f))"
  from Cons.prems have guard: "\<not> (LENGTH('a) \<le> shift + 7 \<and> 2 ^ (LENGTH('a) - shift) \<le> unat p)"
      and nz: "\<not> (p = 0 \<and> shift \<noteq> 0)"
      and run: "(if unat p < 128 then (r + 1, ?i)
                 else read_varint_from LENGTH('a) (shift + 7) (r + 1) ?i data) = (r', v)"
    by (auto simp: Let_def continuation_bit split: if_splits)
  show ?case
  proof (cases "unat p < 128")
    case True
    have "unat p * 2 ^ shift < 2 ^ LENGTH('a)" using guard_fits [OF guard True] .
    then have "unat ?i = unat i + unat p * 2 ^ shift"
      using varint_step [OF Cons.prems(1), of p] True by simp
    with True run nz show ?thesis
      by (intro disjI1 exI [of _ "unat p"] exI [of _ data]) (auto simp: varint_bytes_small unat_gt_0)
  next
    case False
    then have shift: "shift + 7 < LENGTH('a)" using guard_continues [OF guard] by simp
    have "unat p mod 128 * 2 ^ shift < 2 ^ (shift + 7)"
      using varint_step_bound [of 0 shift "unat p"] by simp
    also have "\<dots> \<le> 2 ^ LENGTH('a)" by (rule power_increasing) (use shift in simp_all)
    finally have i: "unat ?i = unat i + unat p mod 128 * 2 ^ shift"
      using varint_step [OF Cons.prems(1), of p] by blast
    have bound: "unat ?i < 2 ^ (shift + 7)" unfolding i by (rule varint_step_bound) (rule Cons.prems(1))
    have rec: "read_varint_from LENGTH('a) (shift + 7) (r + 1) ?i data = (r', v)" using run False by simp
    from Cons.IH [OF bound rec] Cons.prems(3,4) consider
        (full) n rest where "data = varint_bytes n @ rest" "r' = r + 1 + int (length (varint_bytes n))"
          "unat v = unat ?i + n * 2 ^ (shift + 7)" "n \<noteq> 0"
      | (cut) "r' = r + 1 + int (length data)" "\<forall>b \<in> set data. 128 \<le> unat b"
      by auto
    then show ?thesis
    proof cases
      case full
      let ?n = "unat p mod 128 + 128 * n"
      have "varint_bytes ?n = p # varint_bytes n"
        by (rule varint_bytes_cons) (use False full(4) in simp_all)
      moreover have "unat v = unat i + ?n * 2 ^ shift"
        unfolding full(3) i by (simp add: power_add algebra_simps)
      ultimately show ?thesis using full by (intro disjI1 exI [of _ ?n] exI [of _ rest]) simp
    next
      case cut
      then show ?thesis using False by (intro disjI2) auto
    qed
  qed
qed

end
