(* ===== verification/Streams.thy ===== *)
theory Streams
  imports Varint
begin

text \<open>
  The streams of \<^verbatim>\<open>src/Common\<close>: \<^verbatim>\<open>MemoryInputStream\<close>, \<^verbatim>\<open>VectorOutputStream\<close>, and the
  functions of \<^verbatim>\<open>StreamTools\<close> that read and write fixed-size values and varints.

  \<^item> The interface \<^verbatim>\<open>IInputStream\<close> is the locale \<open>input_stream\<close>: a stream hands out a prefix of
    what remains, and something whenever something remains. The loop \<open>read\<close> of
    \<^verbatim>\<open>StreamTools.cpp\<close> is shown once in the locale to return exactly the bytes asked for or
    to throw; the memory stream is an interpretation.
  \<^item> The varint reader and writer are shown to be inverse to each other in both directions: a
    written value is read back, and what is read is the only encoding of the value.
\<close>

section \<open>Input streams\<close>

text \<open>\<^verbatim>\<open>read(IInputStream& in, void* data, size_t size)\<close>; \<open>readSome\<close> is the virtual method.\<close>

function read :: "('s \<Rightarrow> nat \<Rightarrow> blob \<times> 's) \<Rightarrow> 's \<Rightarrow> nat \<Rightarrow> (blob \<times> 's) result" where
  "read readSome s sz =
    (if sz = 0 then Inr ([], s)
     else let (data, s') = readSome s sz
          in if length data = 0 then Inl ReadFailed
             else bindR (read readSome s' (sz - length data)) (\<lambda>(rest, s''). Inr (data @ rest, s'')))"
  by pat_completeness auto
termination
  by (relation "measure (\<lambda>(_, _, sz). sz)") auto

declare read.simps [simp del]

text \<open>What the loop relies on: a stream never hands out more than it is asked for.\<close>

locale input_stream =
  fixes readSome :: "'s \<Rightarrow> nat \<Rightarrow> blob \<times> 's"
    and invar :: "'s \<Rightarrow> bool"
    and remaining :: "'s \<Rightarrow> blob"
  assumes some_prefix: "invar s \<Longrightarrow> readSome s n = (data, s') \<Longrightarrow>
      length data \<le> n \<and> remaining s = data @ remaining s' \<and> invar s'"
    and some_progress: "invar s \<Longrightarrow> 0 < n \<Longrightarrow> readSome s n = ([], s') \<Longrightarrow> remaining s = []"
begin

lemma read_total:
  assumes "invar s"
  shows "if n \<le> length (remaining s)
    then \<exists>s'. read readSome s n = Inr (take n (remaining s), s') \<and> remaining s' = drop n (remaining s) \<and> invar s'
    else read readSome s n = Inl ReadFailed"
  using assms
proof (induction n arbitrary: s rule: less_induct)
  case (less n)
  show ?case
  proof (cases "n = 0")
    case True
    with less.prems show ?thesis by (simp add: read.simps)
  next
    case False
    obtain d t where some: "readSome s n = (d, t)" by fastforce
    then have d: "length d \<le> n" "remaining s = d @ remaining t" "invar t"
      using some_prefix less.prems by blast+
    show ?thesis
    proof (cases "d = []")
      case True
      then have "remaining s = []" using some_progress less.prems some False by blast
      with True False some show ?thesis by (simp add: read.simps)
    next
      case nonempty: False
      then have "n - length d < n" using False by simp
      from less.IH [OF this d(3)] show ?thesis
        using nonempty False some d(1,2) by (auto simp: read.simps [of _ s] split: if_splits)
    qed
  qed
qed

end

section \<open>MemoryInputStream\<close>

record memory_input_stream =
  buffer :: blob
  bufferSize :: nat
  position :: nat

definition MemoryInputStream :: "blob \<Rightarrow> memory_input_stream" where
  "MemoryInputStream data = \<lparr>buffer = data, bufferSize = length data, position = 0\<rparr>"

definition getPosition :: "memory_input_stream \<Rightarrow> nat" where
  "getPosition s = position s"

definition endOfStream :: "memory_input_stream \<Rightarrow> bool" where
  "endOfStream s \<longleftrightarrow> position s = bufferSize s"

definition readSome :: "memory_input_stream \<Rightarrow> nat \<Rightarrow> blob \<times> memory_input_stream" where
  "readSome s sz =
    (let readSize = min sz (bufferSize s - position s)
     in if readSize > 0
        then (take readSize (drop (position s) (buffer s)), s\<lparr>position := position s + readSize\<rparr>)
        else ([], s))"

definition mis_ok :: "memory_input_stream \<Rightarrow> bool" where
  "mis_ok s \<longleftrightarrow> bufferSize s = length (buffer s) \<and> position s \<le> bufferSize s"

definition unread :: "memory_input_stream \<Rightarrow> blob" where
  "unread s = drop (position s) (buffer s)"

interpretation mis: input_stream readSome mis_ok unread
proof unfold_locales
  fix s s' :: memory_input_stream and n data
  assume "mis_ok s" and r: "readSome s n = (data, s')"
  then have ok: "bufferSize s = length (buffer s)" "position s \<le> length (buffer s)"
    by (auto simp: mis_ok_def)
  show "length data \<le> n \<and> unread s = data @ unread s' \<and> mis_ok s'"
  proof (cases "min n (bufferSize s - position s) = 0")
    case True
    with r ok show ?thesis by (auto simp: readSome_def mis_ok_def Let_def split: if_splits)
  next
    case False
    define k where "k = min n (length (buffer s) - position s)"
    have "data = take k (unread s)" "s' = s\<lparr>position := position s + k\<rparr>"
      using r ok False by (auto simp: readSome_def unread_def k_def Let_def split: if_splits)
    moreover from this have "unread s' = drop k (unread s)" by (simp add: unread_def add.commute)
    moreover have "k \<le> n" "position s + k \<le> length (buffer s)" using ok by (auto simp: k_def)
    ultimately show ?thesis using ok by (simp add: mis_ok_def)
  qed
next
  fix s s' :: memory_input_stream and n
  assume "mis_ok s" and "0 < n" and "readSome s n = ([], s')"
  then show "unread s = []"
    by (auto simp: readSome_def mis_ok_def unread_def Let_def split: if_splits)
qed

text \<open>
  \<open>at_bytes s bs\<close>: the next bytes of the stream are \<open>bs\<close>. Together with \<open>advance\<close> it is how the
  laws of the readers are stated.
\<close>

definition advance :: "memory_input_stream \<Rightarrow> nat \<Rightarrow> memory_input_stream" where
  "advance s n = s\<lparr>position := position s + n\<rparr>"

definition at_bytes :: "memory_input_stream \<Rightarrow> blob \<Rightarrow> bool" where
  "at_bytes s bs \<longleftrightarrow> mis_ok s \<and> take (length bs) (unread s) = bs"

lemma advance_0 [simp]: "advance s 0 = s"
  by (simp add: advance_def)

lemma advance_advance [simp]: "advance (advance s m) n = advance s (m + n)"
  by (simp add: advance_def add.assoc)

lemma at_bytes_Nil [simp]: "at_bytes s [] \<longleftrightarrow> mis_ok s"
  by (simp add: at_bytes_def)

lemma unread_advance [simp]: "unread (advance s n) = drop n (unread s)"
  by (simp add: unread_def advance_def add.commute)

lemma at_bytes_length: "at_bytes s bs \<Longrightarrow> length bs \<le> length (unread s)"
  by (metis at_bytes_def length_take min.cobounded1 min.commute)

lemma at_bytes_mis_ok [intro]: "at_bytes s bs \<Longrightarrow> mis_ok (advance s (length bs))"
  using at_bytes_length [of s bs]
  by (auto simp: at_bytes_def mis_ok_def advance_def unread_def)

lemma at_bytes_append:
  "at_bytes s (a @ b) \<longleftrightarrow> at_bytes s a \<and> at_bytes (advance s (length a)) b"
proof
  assume h: "at_bytes s (a @ b)"
  then have "take (length a) (unread s) = a"
    by (metis append_eq_conv_conj at_bytes_def length_append take_take min.absorb1 le_add1)
  moreover have "take (length b) (drop (length a) (unread s)) = b"
    using h by (metis append_eq_conv_conj at_bytes_def length_append drop_take add_diff_cancel_left')
  moreover have "mis_ok s" using h by (simp add: at_bytes_def)
  ultimately show "at_bytes s a \<and> at_bytes (advance s (length a)) b"
    by (auto simp: at_bytes_def)
next
  assume "at_bytes s a \<and> at_bytes (advance s (length a)) b"
  then show "at_bytes s (a @ b)" by (auto simp: at_bytes_def take_add)
qed

lemma at_bytes_Cons: "at_bytes s (b # bs) \<longleftrightarrow> at_bytes s [b] \<and> at_bytes (advance s 1) bs"
  using at_bytes_append [of s "[b]" bs] by simp

lemma readSome_advance:
  "mis_ok s \<Longrightarrow> readSome s n = (data, s') \<Longrightarrow> s' = advance s (length data)"
  by (auto simp: readSome_def mis_ok_def advance_def Let_def split: if_splits)

lemma read_advance:
  "mis_ok s \<Longrightarrow> read readSome s n = Inr (data, s') \<Longrightarrow> s' = advance s (length data)"
proof (induction n arbitrary: s data rule: less_induct)
  case (less n)
  show ?case
  proof (cases "n = 0")
    case True
    with less.prems show ?thesis by (simp add: read.simps)
  next
    case False
    obtain d t where some: "readSome s n = (d, t)" by fastforce
    from less.prems False some obtain rest where d: "d \<noteq> []" "data = d @ rest"
        "read readSome t (n - length d) = Inr (rest, s')"
      by (auto simp: read.simps [of _ s] bindR_eq_Inr split: if_splits)
    have "n - length d < n" "mis_ok t" using False d mis.some_prefix [OF less.prems(1) some] by simp_all
    with less.IH d have "s' = advance t (length rest)" by blast
    with readSome_advance [OF less.prems(1) some] d show ?thesis by simp
  qed
qed

lemma read_at:
  assumes "at_bytes s bs" and "length bs = n"
  shows "read readSome s n = Inr (bs, advance s n)"
proof -
  have "mis_ok s" using assms(1) by (simp add: at_bytes_def)
  moreover have "n \<le> length (unread s)" using at_bytes_length assms by auto
  ultimately obtain s' where r: "read readSome s n = Inr (take n (unread s), s')"
    using mis.read_total [of s n] by auto
  moreover have "take n (unread s) = bs" using assms by (auto simp: at_bytes_def)
  ultimately have "read readSome s n = Inr (bs, s')" by simp
  with read_advance [OF \<open>mis_ok s\<close> this] assms(2) show ?thesis by simp
qed

lemma read_sound:
  assumes "mis_ok s" and "read readSome s n = Inr (bs, s')"
  shows "length bs = n \<and> at_bytes s bs \<and> s' = advance s n"
proof -
  have "n \<le> length (unread s)" "bs = take n (unread s)"
    using mis.read_total [OF assms(1), of n] assms(2) by (auto split: if_splits)
  then have "length bs = n" "at_bytes s bs" using assms(1) by (auto simp: at_bytes_def)
  then show ?thesis using read_advance [OF assms] by simp
qed

section \<open>Output streams\<close>

text \<open>\<^verbatim>\<open>VectorOutputStream\<close> appends to the vector it refers to; it takes everything it is given.\<close>

definition writeSome :: "blob \<Rightarrow> blob \<Rightarrow> nat \<times> blob" where
  "writeSome out data = (length data, out @ data)"

text \<open>\<^verbatim>\<open>write(IOutputStream& out, const void* data, size_t size)\<close>\<close>

function stream_write :: "('s \<Rightarrow> blob \<Rightarrow> nat \<times> 's) \<Rightarrow> 's \<Rightarrow> blob \<Rightarrow> 's result" where
  "stream_write wrSome out data =
    (if length data = 0 then Inr out
     else let (writtenSize, out') = wrSome out data
          in if writtenSize = 0 then Inl WriteFailed
             else stream_write wrSome out' (drop writtenSize data))"
  by pat_completeness auto
termination
  by (relation "measure (\<lambda>(_, _, data). length data)") auto

declare stream_write.simps [simp del]

lemma write_vector [simp]: "stream_write writeSome out data = Inr (out @ data)"
  by (simp add: stream_write.simps [of _ out] stream_write.simps [of _ "out @ data"] writeSome_def)

section \<open>Values and varints\<close>

text \<open>
  \<^verbatim>\<open>read(IInputStream&, T&)\<close> and \<^verbatim>\<open>write(IOutputStream&, T)\<close> copy the bytes of an integer of
  the type; the comment \<^verbatim>\<open>TODO\<close> of the sources says that the machine is little endian.
\<close>

definition read_value :: "memory_input_stream \<Rightarrow> ('a::len word \<times> memory_input_stream) result" where
  "read_value s = bindR (read readSome s (LENGTH('a) div 8)) (\<lambda>(data, s'). Inr (of_le_bytes data, s'))"

definition write_value :: "blob \<Rightarrow> 'a::len word \<Rightarrow> blob result" where
  "write_value out value = stream_write writeSome out (le_bytes (LENGTH('a) div 8) value)"

definition left :: "memory_input_stream \<Rightarrow> nat" where
  "left s = bufferSize s - position s"

lemma readSome_left: "readSome s n = (data, s') \<Longrightarrow> left s' \<le> left s \<and> (data \<noteq> [] \<longrightarrow> left s' < left s)"
  by (auto simp: readSome_def left_def Let_def split: if_splits)

lemma read_left: "read readSome s n = Inr (data, s') \<Longrightarrow> left s' \<le> left s \<and> (0 < n \<longrightarrow> left s' < left s)"
proof (induction n arbitrary: s data rule: less_induct)
  case (less n)
  show ?case
  proof (cases "n = 0")
    case True
    with less.prems show ?thesis by (simp add: read.simps)
  next
    case False
    obtain d t where some: "readSome s n = (d, t)" by fastforce
    from less.prems False some obtain rest where d: "d \<noteq> []" "read readSome t (n - length d) = Inr (rest, s')"
      by (auto simp: read.simps [of _ s] bindR_eq_Inr split: if_splits)
    have "n - length d < n" using False d(1) by simp
    with less.IH d(2) have "left s' \<le> left t" by blast
    then show ?thesis using readSome_left [OF some] d(1) by auto
  qed
qed

lemma read_value_left:
  assumes "read_value s = Inr (v :: 'a::len word, s')" and "8 \<le> LENGTH('a)"
  shows "left s' < left s"
proof -
  have "0 < LENGTH('a) div 8" using assms(2) by (simp add: div_greater_zero_iff)
  then show ?thesis using assms(1) by (auto simp: read_value_def bindR_eq_Inr dest: read_left)
qed

text \<open>
  The four overloads of \<^verbatim>\<open>readVarint\<close> differ in the type of \<^verbatim>\<open>temp\<close> only. The shifted piece is
  computed at 64 bits and truncated to that type, which is the shift at the type itself.
\<close>

function readVarint_from :: "'a::len word \<Rightarrow> nat \<Rightarrow> memory_input_stream \<Rightarrow> ('a word \<times> memory_input_stream) result" where
  "readVarint_from temp shift s =
    bindR (read_value s) (\<lambda>(piece :: u8, s').
      if LENGTH('a) - 7 \<le> shift \<and> 2 ^ (LENGTH('a) - shift) \<le> unat piece then Inl VarintOverflow
      else let temp = temp OR push_bit shift (ucast (piece AND 0x7f))
           in if piece AND 0x80 = 0
              then if piece = 0 \<and> shift \<noteq> 0 then Inl VarintRepresentation else Inr (temp, s')
              else readVarint_from temp (shift + 7) s')"
  by pat_completeness auto
termination
  by (relation "measure (\<lambda>(_, _, s). left s)") (auto dest: read_value_left)

declare readVarint_from.simps [simp del]

definition readVarint :: "memory_input_stream \<Rightarrow> ('a::len word \<times> memory_input_stream) result" where
  "readVarint s = readVarint_from 0 0 s"

function writeVarint :: "blob \<Rightarrow> 'a::len word \<Rightarrow> blob result" where
  "writeVarint out value =
    (if 0x80 \<le> unat value
     then bindR (write_value out (ucast (value OR 0x80) :: u8)) (\<lambda>out. writeVarint out (drop_bit 7 value))
     else write_value out (ucast value :: u8))"
  by pat_completeness auto
termination
  by (relation "measure (\<lambda>(_, value). unat value)") (auto simp: unat_simps)

declare writeVarint.simps [simp del]

lemma write_value_eq: "write_value out v = Inr (out @ le_bytes (LENGTH('a) div 8) v)" for v :: "'a::len word"
  by (simp add: write_value_def)

lemma le_bytes_u8 [simp]: "le_bytes 1 (b :: u8) = [b]" "le_bytes (Suc 0) b = [b]"
  by simp_all

lemma read_value_at:
  assumes "at_bytes s (le_bytes (LENGTH('a) div 8) v)" and "8 * (LENGTH('a) div 8) = LENGTH('a)"
  shows "read_value s = Inr (v :: 'a::len word, advance s (LENGTH('a) div 8))"
proof -
  have "read readSome s (LENGTH('a) div 8) = Inr (le_bytes (LENGTH('a) div 8) v, advance s (LENGTH('a) div 8))"
    by (rule read_at [OF assms(1)]) simp
  then show ?thesis by (simp add: read_value_def of_le_bytes_le_bytes assms(2))
qed

lemma read_value_sound:
  assumes "mis_ok s" and "read_value s = Inr (v :: 'a::len word, s')" and "8 * (LENGTH('a) div 8) \<le> LENGTH('a)"
  shows "at_bytes s (le_bytes (LENGTH('a) div 8) v) \<and> s' = advance s (LENGTH('a) div 8)"
proof -
  obtain data where r: "read readSome s (LENGTH('a) div 8) = Inr (data, s')" and v: "v = of_le_bytes data"
    using assms(2) by (auto simp: read_value_def bindR_eq_Inr)
  from read_sound [OF assms(1) r] have d: "length data = LENGTH('a) div 8" "at_bytes s data"
      "s' = advance s (LENGTH('a) div 8)" by auto
  then have "le_bytes (LENGTH('a) div 8) v = data"
    using le_bytes_of_le_bytes [of data, where 'a = 'a] assms(3) v by simp
  with d show ?thesis by simp
qed

lemma read_u8_at: "at_bytes s [b] \<Longrightarrow> read_value s = Inr (b :: u8, advance s 1)"
  using read_value_at [of s b] by simp

lemma read_u8_sound: "mis_ok s \<Longrightarrow> read_value s = Inr (b :: u8, s') \<Longrightarrow> at_bytes s [b] \<and> s' = advance s 1"
  using read_value_sound [of s b s'] by simp

lemma writeVarint_bytes: "8 \<le> LENGTH('a) \<Longrightarrow> writeVarint out v = Inr (out @ varint_bytes (unat v))"
  for v :: "'a::len word"
proof (induction out v rule: writeVarint.induct)
  case (1 out v)
  show ?case
  proof (cases "0x80 \<le> unat v")
    case True
    have "ucast (v OR 0x80) = ((ucast v AND 0x7f) OR 0x80 :: u8)"
    proof (rule bit_word_eqI)
      fix n assume "n < LENGTH(8)"
      moreover have "bit (0x80 :: 'a word) n = (n = 7)" "bit (0x80 :: u8) n = (n = 7)" "bit (0x7f :: u8) n = (n < 7)"
        using "1.prems" \<open>n < LENGTH(8)\<close> bit_push_bit_iff [of 7 "1 :: 'a word" n]
          bit_push_bit_iff [of 7 "1 :: u8" n] bit_mask_iff [of 7 n, where 'a = u8]
        by (auto simp: mask_eq_exp_minus_1 bit_simps)
      ultimately show "bit (ucast (v OR 0x80) :: u8) n = bit ((ucast v AND 0x7f) OR 0x80 :: u8) n"
        using "1.prems" by (auto simp: bit_simps)
    qed
    then have "ucast (v OR 0x80) = (of_nat (unat v mod 128 + 128) :: u8)" by (simp only: varint_piece)
    with True 1 show ?thesis
      by (simp add: writeVarint.simps [of out v] varint_bytes_large unat_simps write_value_eq)
  next
    case False
    then show ?thesis
      by (simp add: writeVarint.simps [of out v] varint_bytes_small write_value_eq)
  qed
qed

lemma guard_eq: "L - 7 \<le> shift \<longleftrightarrow> L \<le> shift + (7::nat)"
  by auto

lemma readVarint_from_at:
  fixes temp :: "'a::len word"
  assumes "unat temp < 2 ^ shift" and "unat temp + n * 2 ^ shift < 2 ^ LENGTH('a)" and "shift \<noteq> 0 \<Longrightarrow> n \<noteq> 0"
    and "at_bytes s (varint_bytes n)"
  shows "readVarint_from temp shift s
    = Inr (of_nat (unat temp + n * 2 ^ shift), advance s (length (varint_bytes n)))"
  using assms
proof (induction n arbitrary: shift temp s rule: varint_bytes.induct)
  case (1 n)
  have fit: "n * 2 ^ shift < 2 ^ LENGTH('a)" using "1.prems"(2) by linarith
  show ?case
  proof (cases "n < 128")
    case True
    define q :: u8 where "q = of_nat n"
    have q: "unat q = n" using True by (simp add: q_def unat_of_nat_u8)
    have bytes: "varint_bytes n = [q]" using True by (simp add: q_def varint_bytes_small)
    have rd: "read_value s = Inr (q, advance s 1)" using "1.prems"(4) bytes by (simp add: read_u8_at)
    have "\<not> 2 ^ (LENGTH('a) - shift) \<le> n" using fits_small [OF fit "1.prems"(3)] by simp
    moreover have "\<not> (q = 0 \<and> shift \<noteq> 0)" using q "1.prems"(3) by (metis unat_0)
    moreover have "unat (temp OR push_bit shift (ucast (q AND 0x7f))) = unat temp + n * 2 ^ shift"
      using varint_step [OF "1.prems"(1), of q] q True fit by simp
    then have "temp OR push_bit shift (ucast (q AND 0x7f)) = of_nat (unat temp + n * 2 ^ shift)"
      by (metis of_nat_unat ucast_id)
    ultimately show ?thesis
      using True q rd by (auto simp: readVarint_from.simps [of temp] bytes continuation_bit Let_def)
  next
    case False
    define q :: u8 where "q = of_nat (n mod 128 + 128)"
    let ?t = "temp OR push_bit shift (ucast (q AND 0x7f))"
    have q: "unat q = n mod 128 + 128"
      unfolding q_def by (rule unat_of_nat_u8) (use mod_less_divisor [of 128 n] in linarith)
    have bytes: "varint_bytes n = q # varint_bytes (n div 128)"
      unfolding q_def by (rule varint_bytes_large) (use False in simp)
    have first: "at_bytes s [q]" and rest: "at_bytes (advance s 1) (varint_bytes (n div 128))"
      using "1.prems"(4) unfolding bytes at_bytes_Cons [of s q "varint_bytes (n div 128)"] by blast+
    note rd = read_u8_at [OF first]
    have shift: "shift + 7 < LENGTH('a)" using fits_large fit False by simp
    have low: "unat q mod 128 = n mod 128" using q by simp
    have "n mod 128 * 2 ^ shift \<le> n * 2 ^ shift" by simp
    with fit have "unat q mod 128 * 2 ^ shift < 2 ^ LENGTH('a)" unfolding low by linarith
    then have t: "unat ?t = unat temp + n mod 128 * 2 ^ shift"
      using varint_step [OF "1.prems"(1), of q] unfolding low by blast
    have bound: "unat ?t < 2 ^ (shift + 7)" unfolding t by (rule varint_step_bound) (rule "1.prems"(1))
    have total: "unat ?t + n div 128 * 2 ^ (shift + 7) = unat temp + n * 2 ^ shift"
      unfolding t using varint_value_step [of n shift] by linarith
    have fits: "unat ?t + n div 128 * 2 ^ (shift + 7) < 2 ^ LENGTH('a)"
      unfolding total by (rule "1.prems"(2))
    have "n div 128 \<noteq> 0" using False by simp
    note "1.IH" [OF False bound fits this rest, unfolded total]
    then show ?thesis
      using q rd shift by (simp add: readVarint_from.simps [of temp] bytes continuation_bit Let_def)
  qed
qed

lemma readVarint_from_sound:
  fixes temp :: "'a::len word"
  assumes "unat temp < 2 ^ shift" and "mis_ok s" and "readVarint_from temp shift s = Inr (v, s')"
  shows "\<exists>n. unat v = unat temp + n * 2 ^ shift \<and> at_bytes s (varint_bytes n)
    \<and> s' = advance s (length (varint_bytes n)) \<and> (shift \<noteq> 0 \<longrightarrow> n \<noteq> 0)"
  using assms
proof (induction temp shift s rule: readVarint_from.induct)
  case (1 temp shift s)
  from "1.prems"(3) obtain p s1 where rd: "read_value s = Inr (p :: u8, s1)"
    by (auto simp: readVarint_from.simps [of temp] bindR_eq_Inr)
  then have p: "at_bytes s [p]" "s1 = advance s 1" using read_u8_sound "1.prems"(2) by blast+
  let ?t = "temp OR push_bit shift (ucast (p AND 0x7f))"
  from "1.prems"(3) rd have guard: "\<not> (LENGTH('a) \<le> shift + 7 \<and> 2 ^ (LENGTH('a) - shift) \<le> unat p)"
      and run: "(if unat p < 128 then if p = 0 \<and> shift \<noteq> 0 then Inl VarintRepresentation else Inr (?t, s1)
                 else readVarint_from ?t (shift + 7) s1) = Inr (v, s')"
    by (auto simp: readVarint_from.simps [of temp] Let_def continuation_bit guard_eq split: if_splits)
  show ?case
  proof (cases "unat p < 128")
    case True
    have "unat ?t = unat temp + unat p * 2 ^ shift"
      using varint_step [OF "1.prems"(1), of p] guard_fits [OF guard True] True by simp
    with True run p show ?thesis
      by (intro exI [of _ "unat p"]) (auto simp: varint_bytes_small unat_gt_0 split: if_splits)
  next
    case False
    then have shift: "shift + 7 < LENGTH('a)" using guard_continues [OF guard] by simp
    have "unat p mod 128 * 2 ^ shift < 2 ^ (shift + 7)"
      using varint_step_bound [of 0 shift "unat p"] by simp
    also have "\<dots> \<le> 2 ^ LENGTH('a)" by (rule power_increasing) (use shift in simp_all)
    finally have t: "unat ?t = unat temp + unat p mod 128 * 2 ^ shift"
      using varint_step [OF "1.prems"(1), of p] by blast
    have bound: "unat ?t < 2 ^ (shift + 7)" unfolding t by (rule varint_step_bound) (rule "1.prems"(1))
    have ok: "mis_ok s1" using at_bytes_mis_ok [OF p(1)] p(2) by simp
    have rec: "readVarint_from ?t (shift + 7) s1 = Inr (v, s')" using run False by simp
    have g: "\<not> (LENGTH('a) - 7 \<le> shift \<and> 2 ^ (LENGTH('a) - shift) \<le> unat p)"
      using guard by (simp add: guard_eq)
    have c: "p AND 0x80 \<noteq> 0" using False by (simp add: continuation_bit)
    obtain n where n: "unat v = unat ?t + n * 2 ^ (shift + 7)" "at_bytes s1 (varint_bytes n)"
        "s' = advance s1 (length (varint_bytes n))" "n \<noteq> 0"
      using "1.IH" [OF rd refl g refl c bound ok rec] by auto
    have "varint_bytes (unat p mod 128 + 128 * n) = p # varint_bytes n"
      by (rule varint_bytes_cons) (use False n(4) in simp_all)
    moreover have "unat v = unat temp + (unat p mod 128 + 128 * n) * 2 ^ shift"
      unfolding n(1) t by (simp add: power_add algebra_simps)
    ultimately show ?thesis
      using n p by (intro exI [of _ "unat p mod 128 + 128 * n"]) (simp add: at_bytes_Cons [of s p "varint_bytes n"])
  qed
qed

end
