(* ===== verification/Serializer.thy ===== *)
theory Serializer
  imports Streams
begin

text \<open>
  \<^verbatim>\<open>src/Serialization\<close>: the binary serializers, the container serialization of
  \<^verbatim>\<open>SerializationOverloads.h\<close>, and \<^verbatim>\<open>toBinaryArray\<close> / \<^verbatim>\<open>fromBinaryArray\<close> of \<^verbatim>\<open>OrbisTools.h\<close>.

  A C++ \<^verbatim>\<open>serialize(T&, ISerializer&)\<close> function runs in both directions. Its model is a pair: \<open>ser\<close> for
  an output serializer (the bytes are appended to \<open>out\<close>) and \<open>des\<close> for an input serializer. The
  locale \<open>codec\<close> is the contract of such a pair with respect to a byte format \<open>fmt\<close>: what is
  written is the format, the format is read back, and whatever is read is the format of
  the value read, so no second encoding of a value is accepted. The consequences for binary
  arrays and for containers are proved in the locale, once for every type.
\<close>

section \<open>BinaryOutputStreamSerializer\<close>

definition out_beginArray :: "blob \<Rightarrow> nat \<Rightarrow> blob result" where
  "out_beginArray out sz = writeVarint out (of_nat sz :: u64)"

text \<open>All integer overloads go to \<^verbatim>\<open>writeVarint(IOutputStream&, uint64_t)\<close>.\<close>

definition out_uint :: "blob \<Rightarrow> 'a::len word \<Rightarrow> blob result" where
  "out_uint out value = writeVarint out (ucast value :: u64)"

definition out_bool :: "blob \<Rightarrow> bool \<Rightarrow> blob result" where
  "out_bool out value = stream_write writeSome out [if value then 1 else 0]"

definition out_string :: "blob \<Rightarrow> blob \<Rightarrow> blob result" where
  "out_string out value =
    bindR (writeVarint out (of_nat (length value) :: u64)) (\<lambda>out. stream_write writeSome out value)"

definition out_binary :: "blob \<Rightarrow> blob \<Rightarrow> blob result" where
  "out_binary out value = stream_write writeSome out value"

section \<open>BinaryInputStreamSerializer\<close>

definition in_beginArray :: "memory_input_stream \<Rightarrow> (nat \<times> memory_input_stream) result" where
  "in_beginArray s = bindR (readVarint s) (\<lambda>(sz :: u64, s). Inr (unat sz, s))"

definition in_uint :: "memory_input_stream \<Rightarrow> ('a::len word \<times> memory_input_stream) result" where
  "in_uint s = readVarint s"

definition in_bool :: "memory_input_stream \<Rightarrow> (bool \<times> memory_input_stream) result" where
  "in_bool s = bindR (read_value s) (\<lambda>(b :: u8, s). Inr (b \<noteq> 0, s))"

definition in_string :: "memory_input_stream \<Rightarrow> (blob \<times> memory_input_stream) result" where
  "in_string s =
    bindR (readVarint s) (\<lambda>(sz :: u64, s).
      if 0 < sz then read readSome s (unat sz) else Inr ([], s))"

definition in_binary :: "nat \<Rightarrow> memory_input_stream \<Rightarrow> (blob \<times> memory_input_stream) result" where
  "in_binary n s = read readSome s n"

section \<open>SerializationOverloads.h\<close>

text \<open>\<^verbatim>\<open>serializeContainer\<close>, output and input; the elements are serialized by the argument.\<close>

fun out_items :: "(blob \<Rightarrow> 'a \<Rightarrow> blob result) \<Rightarrow> blob \<Rightarrow> 'a list \<Rightarrow> blob result" where
  "out_items ser out [] = Inr out"
| "out_items ser out (x # xs) = bindR (ser out x) (\<lambda>out. out_items ser out xs)"

fun in_items :: "(memory_input_stream \<Rightarrow> ('a \<times> memory_input_stream) result) \<Rightarrow> nat
    \<Rightarrow> memory_input_stream \<Rightarrow> ('a list \<times> memory_input_stream) result" where
  "in_items des 0 s = Inr ([], s)"
| "in_items des (Suc n) s =
    bindR (des s) (\<lambda>(x, s). bindR (in_items des n s) (\<lambda>(xs, s). Inr (x # xs, s)))"

definition out_container :: "(blob \<Rightarrow> 'a \<Rightarrow> blob result) \<Rightarrow> blob \<Rightarrow> 'a list \<Rightarrow> blob result" where
  "out_container ser out xs = bindR (out_beginArray out (length xs)) (\<lambda>out. out_items ser out xs)"

definition in_container :: "(memory_input_stream \<Rightarrow> ('a \<times> memory_input_stream) result)
    \<Rightarrow> memory_input_stream \<Rightarrow> ('a list \<times> memory_input_stream) result" where
  "in_container des s = bindR (in_beginArray s) (\<lambda>(n, s). in_items des n s)"

text \<open>\<^verbatim>\<open>serializeAsBinary\<close> on a vector of bytes is the string with its length.\<close>

definition out_as_binary :: "blob \<Rightarrow> blob \<Rightarrow> blob result" where
  "out_as_binary out value = out_string out value"

definition in_as_binary :: "memory_input_stream \<Rightarrow> (blob \<times> memory_input_stream) result" where
  "in_as_binary s = in_string s"

section \<open>OrbisTools.h\<close>

text \<open>The catch of \<^verbatim>\<open>std::exception\<close> makes every failure \<^verbatim>\<open>false\<close>, here \<open>None\<close>.\<close>

definition toBinaryArray :: "(blob \<Rightarrow> 'a \<Rightarrow> blob result) \<Rightarrow> 'a \<Rightarrow> blob option" where
  "toBinaryArray ser object = (case ser [] object of Inl _ \<Rightarrow> None | Inr binaryArray \<Rightarrow> Some binaryArray)"

definition fromBinaryArray :: "(memory_input_stream \<Rightarrow> ('a \<times> memory_input_stream) result) \<Rightarrow> blob \<Rightarrow> 'a option" where
  "fromBinaryArray des binaryArray =
    (case des (MemoryInputStream binaryArray) of
       Inl _ \<Rightarrow> None
     | Inr (object, stream) \<Rightarrow> if endOfStream stream then Some object else None)"

text \<open>\<^verbatim>\<open>getObjectBinarySize\<close> gives the largest \<^verbatim>\<open>size_t\<close> when the object cannot be serialized.\<close>

definition getObjectBinarySize :: "(blob \<Rightarrow> 'a \<Rightarrow> blob result) \<Rightarrow> 'a \<Rightarrow> nat" where
  "getObjectBinarySize ser object =
    (case toBinaryArray ser object of None \<Rightarrow> 2 ^ 64 - 1 | Some ba \<Rightarrow> length ba)"

section \<open>The contract of a serializable type\<close>

locale codec =
  fixes ser :: "blob \<Rightarrow> 'a \<Rightarrow> blob result"
    and des :: "memory_input_stream \<Rightarrow> ('a \<times> memory_input_stream) result"
    and fmt :: "'a \<Rightarrow> blob"
    and ok :: "'a \<Rightarrow> bool"
  assumes ser_fmt: "ok x \<Longrightarrow> ser out x = Inr (out @ fmt x)"
    and des_fmt: "ok x \<Longrightarrow> at_bytes s (fmt x) \<Longrightarrow> des s = Inr (x, advance s (length (fmt x)))"
    and des_sound: "mis_ok s \<Longrightarrow> des s = Inr (x, s') \<Longrightarrow>
        ok x \<and> at_bytes s (fmt x) \<and> s' = advance s (length (fmt x))"
begin

lemma des_soundE:
  assumes "mis_ok s" and "des s = Inr (x, s')"
  obtains "ok x" and "at_bytes s (fmt x)" and "s' = advance s (length (fmt x))" and "mis_ok s'"
  using des_sound [OF assms] at_bytes_mis_ok [of s "fmt x"] by simp

text \<open>The laws in the form in which the fields of a structure are written and read one after another.\<close>

lemma des_at: "at_bytes s (fmt x) \<Longrightarrow> ok x \<Longrightarrow> des s = Inr (x, advance s (length (fmt x)))"
  by (rule des_fmt)

lemma bind_sound:
  assumes "bindR (des s) f = Inr y" and "mis_ok s"
  obtains x where "ok x" and "at_bytes s (fmt x)" and "mis_ok (advance s (length (fmt x)))"
    and "f (x, advance s (length (fmt x))) = Inr y"
proof -
  obtain x t where d: "des s = Inr (x, t)" and f: "f (x, t) = Inr y"
    using assms(1) by (auto simp: bindR_eq_Inr)
  show ?thesis by (rule des_soundE [OF assms(2) d]) (rule that, use f in auto)
qed

text \<open>Binary arrays: what is stored is loaded, and only what would be stored is loaded.\<close>

lemma at_memory: "at_bytes (MemoryInputStream bs) bs"
  by (simp add: at_bytes_def mis_ok_def MemoryInputStream_def unread_def)

lemma toBinaryArray_fmt: "ok x \<Longrightarrow> toBinaryArray ser x = Some (fmt x)"
  by (simp add: toBinaryArray_def ser_fmt)

lemma from_to:
  assumes "ok x"
  shows "fromBinaryArray des (fmt x) = Some x"
proof -
  have "endOfStream (advance (MemoryInputStream (fmt x)) (length (fmt x)))"
    by (simp add: endOfStream_def advance_def MemoryInputStream_def)
  then show ?thesis by (simp add: fromBinaryArray_def des_fmt [OF assms at_memory])
qed

lemma from_sound:
  assumes "fromBinaryArray des bs = Some x"
  shows "ok x \<and> bs = fmt x"
proof -
  obtain y s where d: "des (MemoryInputStream bs) = Inr (y, s)"
    using assms by (cases "des (MemoryInputStream bs)") (auto simp: fromBinaryArray_def)
  with assms have e: "endOfStream s" and y: "y = x" by (simp_all add: fromBinaryArray_def split: if_splits)
  have "mis_ok (MemoryInputStream bs)" by (simp add: mis_ok_def MemoryInputStream_def)
  from des_sound [OF this d] have x: "ok x" "at_bytes (MemoryInputStream bs) (fmt x)"
      "s = advance (MemoryInputStream bs) (length (fmt x))" unfolding y by blast+
  have "length (fmt x) = length bs"
    using e unfolding x(3) by (simp add: endOfStream_def advance_def MemoryInputStream_def)
  moreover have "take (length (fmt x)) bs = fmt x"
    using x(2) by (simp add: at_bytes_def unread_def MemoryInputStream_def)
  ultimately have "bs = fmt x" by simp
  with x(1) show ?thesis by simp
qed

lemma to_from: "fromBinaryArray des bs = Some x \<Longrightarrow> toBinaryArray ser x = Some bs"
  by (drule from_sound) (simp add: toBinaryArray_fmt)

text \<open>The format determines the value and where it ends.\<close>

lemma fmt_prefix_free:
  assumes "ok x" and "ok y" and "fmt x @ a = fmt y @ b"
  shows "x = y \<and> a = b"
proof -
  let ?s = "MemoryInputStream (fmt x @ a)"
  have atx: "at_bytes ?s (fmt x)"
    using at_memory [of "fmt x @ a"] by (simp only: at_bytes_append)
  have aty: "at_bytes ?s (fmt y)"
    using at_memory [of "fmt y @ b"] unfolding assms(3) by (simp only: at_bytes_append)
  have "x = y" using des_fmt [OF assms(1) atx] des_fmt [OF assms(2) aty] by simp
  with assms(3) show ?thesis by simp
qed

text \<open>A container of values that satisfy the contract satisfies it.\<close>

lemma out_items_fmt: "list_all ok xs \<Longrightarrow> out_items ser out xs = Inr (out @ concat (map fmt xs))"
  by (induction xs arbitrary: out) (auto simp: ser_fmt)

lemma in_items_fmt:
  "list_all ok xs \<Longrightarrow> at_bytes s (concat (map fmt xs)) \<Longrightarrow>
   in_items des (length xs) s = Inr (xs, advance s (length (concat (map fmt xs))))"
proof (induction xs arbitrary: s)
  case Nil
  then show ?case by simp
next
  case (Cons x xs)
  then have x: "ok x" "at_bytes s (fmt x)" and xs: "at_bytes (advance s (length (fmt x))) (concat (map fmt xs))"
    by (simp_all add: at_bytes_append)
  have "list_all ok xs" using Cons.prems by simp
  from Cons.IH [OF this xs] show ?case by (simp add: des_fmt [OF x])
qed

lemma in_items_sound:
  "mis_ok s \<Longrightarrow> in_items des n s = Inr (xs, s') \<Longrightarrow>
   length xs = n \<and> list_all ok xs \<and> at_bytes s (concat (map fmt xs)) \<and> s' = advance s (length (concat (map fmt xs)))"
proof (induction n arbitrary: s xs)
  case 0
  then show ?case by simp
next
  case (Suc n)
  from Suc.prems(2) obtain y s1 ys where y: "des s = Inr (y, s1)"
    and ys: "in_items des n s1 = Inr (ys, s')" "xs = y # ys"
    by (auto simp: bindR_eq_Inr)
  have sound: "ok y \<and> at_bytes s (fmt y) \<and> s1 = advance s (length (fmt y))"
    by (rule des_sound [OF Suc.prems(1) y])
  then have "mis_ok s1" using at_bytes_mis_ok [of s "fmt y"] by simp
  with sound show ?case using Suc.IH [OF \<open>mis_ok s1\<close> ys(1)] ys(2) by (simp add: at_bytes_append)
qed


end

section \<open>The serializable types\<close>

text \<open>Integers: a varint, in a \<^verbatim>\<open>uint64_t\<close> on the way out, at the width of the type on the way in.\<close>

definition uint_fmt :: "'a::len word \<Rightarrow> blob" where
  "uint_fmt v = varint_bytes (unat v)"

lemma readVarint_at:
  "at_bytes s (varint_bytes (unat v)) \<Longrightarrow> readVarint s = Inr (v, advance s (length (varint_bytes (unat v))))"
  for v :: "'a::len word"
  using readVarint_from_at [of "0 :: 'a word" 0 "unat v" s] by (simp add: readVarint_def)

lemma readVarint_sound:
  "mis_ok s \<Longrightarrow> readVarint s = Inr (v, s') \<Longrightarrow>
   at_bytes s (varint_bytes (unat v)) \<and> s' = advance s (length (varint_bytes (unat v)))"
  for v :: "'a::len word"
  using readVarint_from_sound [of "0 :: 'a word" 0 s v s'] by (auto simp: readVarint_def)

lemma uint_codec:
  assumes "LENGTH('a) \<le> 64"
  shows "codec (out_uint :: blob \<Rightarrow> 'a::len word \<Rightarrow> blob result) in_uint uint_fmt (\<lambda>_. True)"
proof
  fix out and x :: "'a word"
  have "unat x < 2 ^ 64"
    using unat_bound [of x] power_increasing [OF assms, of "2 :: nat"] by linarith
  then have "unat (ucast x :: u64) = unat x" by (simp add: unat_ucast_eq)
  then show "out_uint out x = Inr (out @ uint_fmt x)"
    by (simp add: out_uint_def uint_fmt_def writeVarint_bytes)
next
  fix s and x :: "'a word"
  assume "at_bytes s (uint_fmt x)"
  then show "in_uint s = Inr (x, advance s (length (uint_fmt x)))"
    unfolding in_uint_def uint_fmt_def by (rule readVarint_at)
next
  fix s s' and x :: "'a word"
  assume "mis_ok s" and "in_uint s = Inr (x, s')"
  then show "True \<and> at_bytes s (uint_fmt x) \<and> s' = advance s (length (uint_fmt x))"
    unfolding in_uint_def uint_fmt_def using readVarint_sound by blast
qed

interpretation c8: codec "out_uint :: blob \<Rightarrow> u8 \<Rightarrow> blob result" in_uint uint_fmt "\<lambda>_. True"
  by (rule uint_codec) simp

interpretation c32: codec "out_uint :: blob \<Rightarrow> u32 \<Rightarrow> blob result" in_uint uint_fmt "\<lambda>_. True"
  by (rule uint_codec) simp

interpretation c64: codec "out_uint :: blob \<Rightarrow> u64 \<Rightarrow> blob result" in_uint uint_fmt "\<lambda>_. True"
  by (rule uint_codec) simp

text \<open>Sizes of arrays and strings.\<close>

lemma beginArray_out: "n < 2 ^ 64 \<Longrightarrow> out_beginArray out n = Inr (out @ varint_bytes n)"
  by (simp add: out_beginArray_def writeVarint_bytes unat_of_nat)

lemma beginArray_at:
  assumes "n < 2 ^ 64" and "at_bytes s (varint_bytes n)"
  shows "in_beginArray s = Inr (n, advance s (length (varint_bytes n)))"
  using readVarint_at [of s "of_nat n :: u64"] assms by (simp add: in_beginArray_def unat_of_nat)

lemma beginArray_sound:
  assumes "mis_ok s" and "in_beginArray s = Inr (n, s')"
  shows "n < 2 ^ 64 \<and> at_bytes s (varint_bytes n) \<and> s' = advance s (length (varint_bytes n))"
proof -
  obtain v :: u64 where v: "readVarint s = Inr (v, s')" "n = unat v"
    using assms(2) by (auto simp: in_beginArray_def bindR_eq_Inr)
  then show ?thesis using readVarint_sound [OF assms(1) v(1)] unat_bound [of v] by simp
qed

text \<open>A block of bytes of a fixed size, as \<^verbatim>\<open>serializePod\<close> writes it.\<close>

lemma pod_codec: "codec out_binary (in_binary n) (\<lambda>bs. bs) (\<lambda>bs. length bs = n)"
proof
  fix s bs
  assume "length bs = n" and "at_bytes s bs"
  then show "in_binary n s = Inr (bs, advance s (length bs))"
    by (simp add: in_binary_def read_at)
next
  fix s s' bs
  assume "mis_ok s" and "in_binary n s = Inr (bs, s')"
  then show "length bs = n \<and> at_bytes s bs \<and> s' = advance s (length bs)"
    using read_sound by (auto simp: in_binary_def)
qed (simp add: out_binary_def)

interpretation pod1: codec out_binary "in_binary 1" "\<lambda>bs. bs" "\<lambda>bs. length bs = 1"
  by (rule pod_codec)

interpretation pod4: codec out_binary "in_binary 4" "\<lambda>bs. bs" "\<lambda>bs. length bs = 4"
  by (rule pod_codec)

text \<open>A string of bytes with its length.\<close>

definition string_fmt :: "blob \<Rightarrow> blob" where
  "string_fmt bs = varint_bytes (length bs) @ bs"

lemma in_string_eq:
  "in_string s = bindR (in_beginArray s) (\<lambda>(n, s). if 0 < n then read readSome s n else Inr ([], s))"
proof (cases "readVarint s :: (u64 \<times> memory_input_stream) result")
  case (Inr p)
  obtain v t where "p = (v, t)" by fastforce
  with Inr show ?thesis by (simp add: in_string_def in_beginArray_def unat_gt_0 word_neq_0_conv [symmetric])
qed (simp add: in_string_def in_beginArray_def)

interpretation str: codec out_as_binary in_as_binary string_fmt "\<lambda>bs. length bs < 2 ^ 64"
proof
  fix out x :: blob
  assume "length x < 2 ^ 64"
  then show "out_as_binary out x = Inr (out @ string_fmt x)"
    using beginArray_out [of "length x" out]
    by (simp add: out_as_binary_def out_string_def string_fmt_def out_beginArray_def)
next
  fix s x
  assume len: "length x < 2 ^ 64" and "at_bytes s (string_fmt x)"
  then have a: "at_bytes s (varint_bytes (length x))"
      and b: "at_bytes (advance s (length (varint_bytes (length x)))) x"
    by (simp_all add: string_fmt_def at_bytes_append)
  show "in_as_binary s = Inr (x, advance s (length (string_fmt x)))"
    unfolding in_as_binary_def in_string_eq beginArray_at [OF len a]
    using read_at [OF b refl] by (simp add: string_fmt_def)
next
  fix s s' x
  assume ok: "mis_ok s" and "in_as_binary s = Inr (x, s')"
  then obtain n t where n: "in_beginArray s = Inr (n, t)"
      and x: "(if 0 < n then read readSome t n else Inr ([], t)) = Inr (x, s')"
    by (auto simp: in_as_binary_def in_string_eq bindR_eq_Inr)
  note h = beginArray_sound [OF ok n]
  then have "mis_ok t" using at_bytes_mis_ok [of s "varint_bytes n"] by simp
  then have "length x = n \<and> at_bytes t x \<and> s' = advance t n"
    using x read_sound [of t n x s'] by (auto split: if_splits)
  with h show "length x < 2 ^ 64 \<and> at_bytes s (string_fmt x) \<and> s' = advance s (length (string_fmt x))"
    by (auto simp: string_fmt_def at_bytes_append)
qed

text \<open>Containers.\<close>

definition list_fmt :: "('a \<Rightarrow> blob) \<Rightarrow> 'a list \<Rightarrow> blob" where
  "list_fmt fmt xs = varint_bytes (length xs) @ concat (map fmt xs)"

definition list_ok :: "('a \<Rightarrow> bool) \<Rightarrow> 'a list \<Rightarrow> bool" where
  "list_ok ok xs \<longleftrightarrow> length xs < 2 ^ 64 \<and> list_all ok xs"

context codec
begin

lemma container_codec: "codec (out_container ser) (in_container des) (list_fmt fmt) (list_ok ok)"
proof
  fix out xs
  assume "list_ok ok xs"
  then show "out_container ser out xs = Inr (out @ list_fmt fmt xs)"
    by (simp add: out_container_def list_fmt_def list_ok_def beginArray_out out_items_fmt)
next
  fix s xs
  assume "list_ok ok xs" and "at_bytes s (list_fmt fmt xs)"
  then show "in_container des s = Inr (xs, advance s (length (list_fmt fmt xs)))"
    using in_items_fmt [of xs "advance s (length (varint_bytes (length xs)))"] beginArray_at [of "length xs" s]
    by (simp add: in_container_def list_fmt_def list_ok_def at_bytes_append)
next
  fix s s' xs
  assume ok: "mis_ok s" and "in_container des s = Inr (xs, s')"
  then obtain n t where n: "in_beginArray s = Inr (n, t)" and xs: "in_items des n t = Inr (xs, s')"
    by (auto simp: in_container_def bindR_eq_Inr)
  note h = beginArray_sound [OF ok n]
  then have "mis_ok t" using at_bytes_mis_ok [of s "varint_bytes n"] by simp
  from in_items_sound [OF this xs] h
  show "list_ok ok xs \<and> at_bytes s (list_fmt fmt xs) \<and> s' = advance s (length (list_fmt fmt xs))"
    by (auto simp: list_ok_def list_fmt_def at_bytes_append)
qed

end

end
