(* ===== verification/OrbisConfig.thy ===== *)
theory OrbisConfig
  imports Prelude
begin

text \<open>
  The constants of \<^verbatim>\<open>src/OrbisConfig.h\<close> that the modelled components use. Two constants have no
  value in the repository (\<^verbatim>\<open>ORBIS_PUBLIC_ADDRESS_BASE58_PREFIX\<close> and \<^verbatim>\<open>MINIMUM_FEE\<close>); where they
  matter they are arguments of the definitions, as fields of the currency.
\<close>

definition ORBIS_MAX_BLOCK_NUMBER :: u64 where
  "ORBIS_MAX_BLOCK_NUMBER = 500000000"

definition ORBIS_MAX_BLOCK_BLOB_SIZE :: nat where
  "ORBIS_MAX_BLOCK_BLOB_SIZE = 500000000"

definition ORBIS_MAX_TX_SIZE :: nat where
  "ORBIS_MAX_TX_SIZE = 1000000000"

definition ORBIS_MINED_MONEY_UNLOCK_WINDOW :: nat where
  "ORBIS_MINED_MONEY_UNLOCK_WINDOW = 60"

definition ORBIS_BLOCK_FUTURE_TIME_LIMIT :: u64 where
  "ORBIS_BLOCK_FUTURE_TIME_LIMIT = 60 * 60 * 2"

definition BLOCKCHAIN_TIMESTAMP_CHECK_WINDOW :: nat where
  "BLOCKCHAIN_TIMESTAMP_CHECK_WINDOW = 60"

definition MONEY_SUPPLY :: u64 where
  "MONEY_SUPPLY = 11110000000000000000"

definition EMISSION_SPEED_FACTOR :: nat where
  "EMISSION_SPEED_FACTOR = 21"

definition ORBIS_REWARD_BLOCKS_WINDOW :: nat where
  "ORBIS_REWARD_BLOCKS_WINDOW = 100"

definition ORBIS_BLOCK_GRANTED_FULL_REWARD_ZONE :: nat where
  "ORBIS_BLOCK_GRANTED_FULL_REWARD_ZONE = 10000"

definition ORBIS_COINBASE_BLOB_RESERVED_SIZE :: nat where
  "ORBIS_COINBASE_BLOB_RESERVED_SIZE = 600"

definition ORBIS_DISPLAY_DECIMAL_POINT :: nat where
  "ORBIS_DISPLAY_DECIMAL_POINT = 8"

definition DIFFICULTY_TARGET :: u64 where
  "DIFFICULTY_TARGET = 111"

definition EXPECTED_NUMBER_OF_BLOCKS_PER_DAY :: nat where
  "EXPECTED_NUMBER_OF_BLOCKS_PER_DAY = 24 * 60 * 60 div unat DIFFICULTY_TARGET"

definition DIFFICULTY_WINDOW :: nat where
  "DIFFICULTY_WINDOW = EXPECTED_NUMBER_OF_BLOCKS_PER_DAY"

definition DIFFICULTY_CUT :: nat where
  "DIFFICULTY_CUT = 60"

definition DIFFICULTY_LAG :: nat where
  "DIFFICULTY_LAG = 15"

definition MAX_BLOCK_SIZE_INITIAL :: nat where
  "MAX_BLOCK_SIZE_INITIAL = 20 * 1024"

definition MAX_BLOCK_SIZE_GROWTH_SPEED_NUMERATOR :: u64 where
  "MAX_BLOCK_SIZE_GROWTH_SPEED_NUMERATOR = 100 * 1024"

definition MAX_BLOCK_SIZE_GROWTH_SPEED_DENOMINATOR :: u64 where
  "MAX_BLOCK_SIZE_GROWTH_SPEED_DENOMINATOR = 365 * 24 * 60 * 60 div DIFFICULTY_TARGET"

definition ORBIS_LOCKED_TX_ALLOWED_DELTA_BLOCKS :: u64 where
  "ORBIS_LOCKED_TX_ALLOWED_DELTA_BLOCKS = 1"

definition ORBIS_LOCKED_TX_ALLOWED_DELTA_SECONDS :: u64 where
  "ORBIS_LOCKED_TX_ALLOWED_DELTA_SECONDS = DIFFICULTY_TARGET * ORBIS_LOCKED_TX_ALLOWED_DELTA_BLOCKS"

definition ORBIS_MEMPOOL_TX_LIVETIME :: u64 where
  "ORBIS_MEMPOOL_TX_LIVETIME = 60 * 60 * 24"

definition ORBIS_MEMPOOL_TX_FROM_ALT_BLOCK_LIVETIME :: u64 where
  "ORBIS_MEMPOOL_TX_FROM_ALT_BLOCK_LIVETIME = 60 * 60 * 24 * 7"

definition ORBIS_NUMBER_OF_PERIODS_TO_FORGET_TX_DELETED_FROM_POOL :: u64 where
  "ORBIS_NUMBER_OF_PERIODS_TO_FORGET_TX_DELETED_FROM_POOL = 7"

definition FUSION_TX_MAX_SIZE :: nat where
  "FUSION_TX_MAX_SIZE = ORBIS_BLOCK_GRANTED_FULL_REWARD_ZONE * 30 div 100"

definition FUSION_TX_MIN_INPUT_COUNT :: nat where
  "FUSION_TX_MIN_INPUT_COUNT = 12"

definition FUSION_TX_MIN_IN_OUT_COUNT_RATIO :: nat where
  "FUSION_TX_MIN_IN_OUT_COUNT_RATIO = 4"

definition ORBIS_BLOCKS_FILENAME :: string where
  "ORBIS_BLOCKS_FILENAME = ''blocks.dat''"

definition ORBIS_BLOCKINDEXES_FILENAME :: string where
  "ORBIS_BLOCKINDEXES_FILENAME = ''blockindexes.dat''"

definition ORBIS_BLOCKSCACHE_FILENAME :: string where
  "ORBIS_BLOCKSCACHE_FILENAME = ''blockscache.dat''"

definition ORBIS_POOLDATA_FILENAME :: string where
  "ORBIS_POOLDATA_FILENAME = ''poolstate.bin''"

definition ORBIS_BLOCKCHAIN_INDICES_FILENAME :: string where
  "ORBIS_BLOCKCHAIN_INDICES_FILENAME = ''blockchainindices.dat''"

definition GENESIS_COINBASE_TX_HEX :: string where
  "GENESIS_COINBASE_TX_HEX = ''''"

definition CURRENT_TRANSACTION_VERSION :: u8 where
  "CURRENT_TRANSACTION_VERSION = 1"

definition BLOCK_MAJOR_VERSION_1 :: u8 where
  "BLOCK_MAJOR_VERSION_1 = 1"

definition BLOCK_MINOR_VERSION_0 :: u8 where
  "BLOCK_MINOR_VERSION_0 = 0"

text \<open>The two static assertions of the header.\<close>

lemma emission_speed_factor_valid: "EMISSION_SPEED_FACTOR \<le> LENGTH(64)"
  by (simp add: EMISSION_SPEED_FACTOR_def)

lemma difficulty_window_value: "DIFFICULTY_WINDOW = 778"
  by (simp add: DIFFICULTY_WINDOW_def EXPECTED_NUMBER_OF_BLOCKS_PER_DAY_def DIFFICULTY_TARGET_def)

lemma difficulty_window_valid: "2 * DIFFICULTY_CUT \<le> DIFFICULTY_WINDOW - 2"
  by (simp add: difficulty_window_value DIFFICULTY_CUT_def)

end
