(* ===== verification/OrbisTypes.thy ===== *)
theory OrbisTypes
  imports OrbisConfig
begin

text \<open>
  The data of \<^verbatim>\<open>include/Orbis.h\<close> and \<^verbatim>\<open>include/OrbisTypes.h\<close>: keys, hashes, transactions and blocks.
  A structure is a record; where two structures have a field of the same name the field carries a
  prefix here. A \<^verbatim>\<open>boost::variant\<close> is a datatype, derivation of structures is record extension.
  Hashes, keys and signatures are plain bytes; that they have the size of the C++ arrays is part of
  the well-formedness of a value (\<open>ok_\<dots>\<close> in the serialization theory).
\<close>

type_synonym Hash = blob
type_synonym PublicKey = blob
type_synonym SecretKey = blob
type_synonym KeyDerivation = blob
type_synonym KeyImage = blob
type_synonym Signature = blob
type_synonym BinaryArray = blob

record BaseInput =
  blockIndex :: u32

record KeyInput =
  ki_amount :: u64
  outputIndexes :: "u32 list"
  keyImage :: KeyImage

record MultisignatureInput =
  mi_amount :: u64
  signatureCount :: u8
  outputIndex :: u32

record KeyOutput =
  ko_key :: PublicKey

record MultisignatureOutput =
  mo_keys :: "PublicKey list"
  requiredSignatureCount :: u8

datatype TransactionInput = VBaseInput BaseInput | VKeyInput KeyInput | VMultisignatureInput MultisignatureInput

datatype TransactionOutputTarget = VKeyOutput KeyOutput | VMultisignatureOutput MultisignatureOutput

record TransactionOutput =
  to_amount :: u64
  to_target :: TransactionOutputTarget

record TransactionPrefix =
  version :: u8
  unlockTime :: u64
  inputs :: "TransactionInput list"
  outputs :: "TransactionOutput list"
  extra :: BinaryArray

record Transaction = TransactionPrefix +
  signatures :: "Signature list list"

record BlockHeader =
  majorVersion :: u8
  minorVersion :: u8
  nonce :: u32
  timestamp :: u64
  previousBlockHash :: Hash

record Block = BlockHeader +
  baseTransaction :: Transaction
  transactionHashes :: "Hash list"

record AccountPublicAddress =
  spendPublicKey :: PublicKey
  viewPublicKey :: PublicKey

record AccountKeys =
  ak_address :: AccountPublicAddress
  spendSecretKey :: SecretKey
  viewSecretKey :: SecretKey

record KeyPair =
  kp_publicKey :: PublicKey
  kp_secretKey :: SecretKey

end
