(* ===== verification/OrbisSerialization.thy ===== *)
theory OrbisSerialization
  imports Serializer OrbisTypes
begin

text \<open>
  \<^verbatim>\<open>src/OrbisCore/OrbisSerialization.cpp\<close>: the binary format of transactions and blocks. Every
  \<^verbatim>\<open>serialize\<close> function is a pair \<open>out_T\<close> / \<open>in_T\<close>, with the format \<open>fmt_T\<close> and the values \<open>ok_T\<close>
  that have one; each pair satisfies the contract \<open>codec\<close>.
\<close>

section \<open>Serialization functions\<close>

definition getSignaturesCount :: "TransactionInput \<Rightarrow> nat" where
  "getSignaturesCount inp =
    (case inp of
       VBaseInput txin \<Rightarrow> 0
     | VKeyInput txin \<Rightarrow> length (outputIndexes txin)
     | VMultisignatureInput txin \<Rightarrow> unat (signatureCount txin))"

text \<open>\<^verbatim>\<open>BinaryVariantTagGetter\<close>\<close>

fun input_tag :: "TransactionInput \<Rightarrow> u8" where
  "input_tag (VBaseInput _) = 0xff"
| "input_tag (VKeyInput _) = 0x2"
| "input_tag (VMultisignatureInput _) = 0x3"

fun target_tag :: "TransactionOutputTarget \<Rightarrow> u8" where
  "target_tag (VKeyOutput _) = 0x2"
| "target_tag (VMultisignatureOutput _) = 0x3"

text \<open>\<^verbatim>\<open>serializePod\<close> of keys and hashes.\<close>

definition out_pod :: "blob \<Rightarrow> blob \<Rightarrow> blob result" where
  "out_pod out v = out_binary out v"

definition in_pod :: "nat \<Rightarrow> memory_input_stream \<Rightarrow> (blob \<times> memory_input_stream) result" where
  "in_pod n s = in_binary n s"

definition out_serializeVarintVector :: "blob \<Rightarrow> u32 list \<Rightarrow> blob result" where
  "out_serializeVarintVector out vector =
    bindR (out_beginArray out (length vector)) (\<lambda>out. out_items out_uint out vector)"

definition in_serializeVarintVector :: "memory_input_stream \<Rightarrow> (u32 list \<times> memory_input_stream) result" where
  "in_serializeVarintVector s = bindR (in_beginArray s) (\<lambda>(sz, s). in_items in_uint sz s)"

definition out_BaseInput :: "blob \<Rightarrow> BaseInput \<Rightarrow> blob result" where
  "out_BaseInput out gen = out_uint out (blockIndex gen)"

definition in_BaseInput :: "memory_input_stream \<Rightarrow> (BaseInput \<times> memory_input_stream) result" where
  "in_BaseInput s = bindR (in_uint s) (\<lambda>(h, s). Inr (\<lparr>blockIndex = h\<rparr>, s))"

definition out_KeyInput :: "blob \<Rightarrow> KeyInput \<Rightarrow> blob result" where
  "out_KeyInput out k =
    bindR (out_uint out (ki_amount k)) (\<lambda>out.
    bindR (out_serializeVarintVector out (outputIndexes k)) (\<lambda>out.
    out_pod out (keyImage k)))"

definition in_KeyInput :: "memory_input_stream \<Rightarrow> (KeyInput \<times> memory_input_stream) result" where
  "in_KeyInput s =
    bindR (in_uint s) (\<lambda>(a, s).
    bindR (in_serializeVarintVector s) (\<lambda>(os, s).
    bindR (in_pod 32 s) (\<lambda>(k, s).
    Inr (\<lparr>ki_amount = a, outputIndexes = os, keyImage = k\<rparr>, s))))"

definition out_MultisignatureInput :: "blob \<Rightarrow> MultisignatureInput \<Rightarrow> blob result" where
  "out_MultisignatureInput out m =
    bindR (out_uint out (mi_amount m)) (\<lambda>out.
    bindR (out_uint out (signatureCount m)) (\<lambda>out.
    out_uint out (outputIndex m)))"

definition in_MultisignatureInput :: "memory_input_stream \<Rightarrow> (MultisignatureInput \<times> memory_input_stream) result" where
  "in_MultisignatureInput s =
    bindR (in_uint s) (\<lambda>(a, s).
    bindR (in_uint s) (\<lambda>(c, s).
    bindR (in_uint s) (\<lambda>(i, s).
    Inr (\<lparr>mi_amount = a, signatureCount = c, outputIndex = i\<rparr>, s))))"

text \<open>\<^verbatim>\<open>serialize(TransactionInput&, ISerializer&)\<close> with \<^verbatim>\<open>VariantSerializer\<close> and \<^verbatim>\<open>getVariantValue\<close>\<close>

definition out_TransactionInput :: "blob \<Rightarrow> TransactionInput \<Rightarrow> blob result" where
  "out_TransactionInput out inp =
    bindR (out_binary out [input_tag inp]) (\<lambda>out.
      case inp of
        VBaseInput v \<Rightarrow> out_BaseInput out v
      | VKeyInput v \<Rightarrow> out_KeyInput out v
      | VMultisignatureInput v \<Rightarrow> out_MultisignatureInput out v)"

definition getVariantValue_input :: "u8 \<Rightarrow> memory_input_stream \<Rightarrow> (TransactionInput \<times> memory_input_stream) result" where
  "getVariantValue_input tag s =
    (if tag = 0xff then bindR (in_BaseInput s) (\<lambda>(v, s). Inr (VBaseInput v, s))
     else if tag = 0x2 then bindR (in_KeyInput s) (\<lambda>(v, s). Inr (VKeyInput v, s))
     else if tag = 0x3 then bindR (in_MultisignatureInput s) (\<lambda>(v, s). Inr (VMultisignatureInput v, s))
     else Inl UnknownVariantTag)"

definition in_TransactionInput :: "memory_input_stream \<Rightarrow> (TransactionInput \<times> memory_input_stream) result" where
  "in_TransactionInput s = bindR (in_binary 1 s) (\<lambda>(t, s). getVariantValue_input (hd t) s)"

definition out_KeyOutput :: "blob \<Rightarrow> KeyOutput \<Rightarrow> blob result" where
  "out_KeyOutput out k = out_pod out (ko_key k)"

definition in_KeyOutput :: "memory_input_stream \<Rightarrow> (KeyOutput \<times> memory_input_stream) result" where
  "in_KeyOutput s = bindR (in_pod 32 s) (\<lambda>(k, s). Inr (\<lparr>ko_key = k\<rparr>, s))"

definition out_MultisignatureOutput :: "blob \<Rightarrow> MultisignatureOutput \<Rightarrow> blob result" where
  "out_MultisignatureOutput out m =
    bindR (out_container out_pod out (mo_keys m)) (\<lambda>out.
    out_uint out (requiredSignatureCount m))"

definition in_MultisignatureOutput :: "memory_input_stream \<Rightarrow> (MultisignatureOutput \<times> memory_input_stream) result" where
  "in_MultisignatureOutput s =
    bindR (in_container (in_pod 32) s) (\<lambda>(ks, s).
    bindR (in_uint s) (\<lambda>(c, s).
    Inr (\<lparr>mo_keys = ks, requiredSignatureCount = c\<rparr>, s)))"

definition out_TransactionOutputTarget :: "blob \<Rightarrow> TransactionOutputTarget \<Rightarrow> blob result" where
  "out_TransactionOutputTarget out outp =
    bindR (out_binary out [target_tag outp]) (\<lambda>out.
      case outp of
        VKeyOutput v \<Rightarrow> out_KeyOutput out v
      | VMultisignatureOutput v \<Rightarrow> out_MultisignatureOutput out v)"

definition getVariantValue_target :: "u8 \<Rightarrow> memory_input_stream \<Rightarrow> (TransactionOutputTarget \<times> memory_input_stream) result" where
  "getVariantValue_target tag s =
    (if tag = 0x2 then bindR (in_KeyOutput s) (\<lambda>(v, s). Inr (VKeyOutput v, s))
     else if tag = 0x3 then bindR (in_MultisignatureOutput s) (\<lambda>(v, s). Inr (VMultisignatureOutput v, s))
     else Inl UnknownVariantTag)"

definition in_TransactionOutputTarget :: "memory_input_stream \<Rightarrow> (TransactionOutputTarget \<times> memory_input_stream) result" where
  "in_TransactionOutputTarget s = bindR (in_binary 1 s) (\<lambda>(t, s). getVariantValue_target (hd t) s)"

definition out_TransactionOutput :: "blob \<Rightarrow> TransactionOutput \<Rightarrow> blob result" where
  "out_TransactionOutput out outp =
    bindR (out_uint out (to_amount outp)) (\<lambda>out. out_TransactionOutputTarget out (to_target outp))"

definition in_TransactionOutput :: "memory_input_stream \<Rightarrow> (TransactionOutput \<times> memory_input_stream) result" where
  "in_TransactionOutput s =
    bindR (in_uint s) (\<lambda>(a, s).
    bindR (in_TransactionOutputTarget s) (\<lambda>(t, s).
    Inr (\<lparr>to_amount = a, to_target = t\<rparr>, s)))"

text \<open>\<^verbatim>\<open>serialize(TransactionPrefix&, ISerializer&)\<close>: the version is checked after it is written or read.\<close>

definition out_TransactionPrefix :: "blob \<Rightarrow> TransactionPrefix \<Rightarrow> blob result" where
  "out_TransactionPrefix out txP =
    bindR (out_uint out (version txP)) (\<lambda>out.
    if CURRENT_TRANSACTION_VERSION < version txP then Inl WrongTransactionVersion else
    bindR (out_uint out (unlockTime txP)) (\<lambda>out.
    bindR (out_container out_TransactionInput out (inputs txP)) (\<lambda>out.
    bindR (out_container out_TransactionOutput out (outputs txP)) (\<lambda>out.
    out_as_binary out (extra txP)))))"

definition in_TransactionPrefix :: "memory_input_stream \<Rightarrow> (TransactionPrefix \<times> memory_input_stream) result" where
  "in_TransactionPrefix s =
    bindR (in_uint s) (\<lambda>(v, s).
    if CURRENT_TRANSACTION_VERSION < v then Inl WrongTransactionVersion else
    bindR (in_uint s) (\<lambda>(u, s).
    bindR (in_container in_TransactionInput s) (\<lambda>(is, s).
    bindR (in_container in_TransactionOutput s) (\<lambda>(os, s).
    bindR (in_as_binary s) (\<lambda>(e, s).
    Inr (\<lparr>version = v, unlockTime = u, inputs = is, outputs = os, extra = e\<rparr>, s))))))"

text \<open>
  The signature loop of \<^verbatim>\<open>serialize(Transaction&, ISerializer&)\<close>. On output it runs over inputs and
  signatures together (their numbers agree, or there are no signatures at all); on input the
  signatures have been resized to the number of inputs, so \<^verbatim>\<open>signaturesNotExpected\<close> means that the
  loop does not run.
\<close>

fun out_signatures :: "bool \<Rightarrow> TransactionInput list \<Rightarrow> Signature list list \<Rightarrow> blob \<Rightarrow> blob result" where
  "out_signatures signaturesNotExpected [] sigs out = Inr out"
| "out_signatures signaturesNotExpected (i # is) sigs out =
    (let signatureSize = getSignaturesCount i in
     if signaturesNotExpected
     then if signatureSize = 0 then out_signatures signaturesNotExpected is sigs out else Inl SignaturesNotExpected
     else if signatureSize \<noteq> length (hd sigs) then Inl UnexpectedSignaturesSize
     else bindR (out_items out_pod out (hd sigs)) (\<lambda>out. out_signatures signaturesNotExpected is (tl sigs) out))"

fun in_signatures :: "TransactionInput list \<Rightarrow> memory_input_stream \<Rightarrow> (Signature list list \<times> memory_input_stream) result" where
  "in_signatures [] s = Inr ([], s)"
| "in_signatures (i # is) s =
    bindR (in_items (in_pod 64) (getSignaturesCount i) s) (\<lambda>(sig, s).
    bindR (in_signatures is s) (\<lambda>(sigs, s). Inr (sig # sigs, s)))"

definition out_Transaction :: "blob \<Rightarrow> Transaction \<Rightarrow> blob result" where
  "out_Transaction out tx =
    bindR (out_TransactionPrefix out (TransactionPrefix.truncate tx)) (\<lambda>out.
      let signaturesNotExpected = (signatures tx = []) in
      if \<not> signaturesNotExpected \<and> length (inputs tx) \<noteq> length (signatures tx) then Inl UnexpectedSignaturesSize
      else out_signatures signaturesNotExpected (inputs tx) (signatures tx) out)"

definition in_Transaction :: "memory_input_stream \<Rightarrow> (Transaction \<times> memory_input_stream) result" where
  "in_Transaction s =
    bindR (in_TransactionPrefix s) (\<lambda>(p, s).
    bindR (in_signatures (inputs p) s) (\<lambda>(sigs, s).
    Inr (TransactionPrefix.extend p (Transaction.fields sigs), s)))"

text \<open>\<^verbatim>\<open>serializeBlockHeader\<close>; the nonce is stored as four bytes, not as a varint.\<close>

definition out_BlockHeader :: "blob \<Rightarrow> BlockHeader \<Rightarrow> blob result" where
  "out_BlockHeader out header =
    bindR (out_uint out (majorVersion header)) (\<lambda>out.
    if BLOCK_MAJOR_VERSION_1 < majorVersion header then Inl WrongMajorVersion else
    bindR (out_uint out (minorVersion header)) (\<lambda>out.
    bindR (out_uint out (timestamp header)) (\<lambda>out.
    bindR (out_pod out (previousBlockHash header)) (\<lambda>out.
    out_binary out (le_bytes 4 (nonce header))))))"

definition in_BlockHeader :: "memory_input_stream \<Rightarrow> (BlockHeader \<times> memory_input_stream) result" where
  "in_BlockHeader s =
    bindR (in_uint s) (\<lambda>(ma, s).
    if BLOCK_MAJOR_VERSION_1 < ma then Inl WrongMajorVersion else
    bindR (in_uint s) (\<lambda>(mi, s).
    bindR (in_uint s) (\<lambda>(t, s).
    bindR (in_pod 32 s) (\<lambda>(h, s).
    bindR (in_binary 4 s) (\<lambda>(n, s).
    Inr (\<lparr>majorVersion = ma, minorVersion = mi, nonce = of_le_bytes n, timestamp = t, previousBlockHash = h\<rparr>, s))))))"

definition out_Block :: "blob \<Rightarrow> Block \<Rightarrow> blob result" where
  "out_Block out block =
    bindR (out_BlockHeader out (BlockHeader.truncate block)) (\<lambda>out.
    bindR (out_Transaction out (baseTransaction block)) (\<lambda>out.
    out_container out_pod out (transactionHashes block)))"

definition in_Block :: "memory_input_stream \<Rightarrow> (Block \<times> memory_input_stream) result" where
  "in_Block s =
    bindR (in_BlockHeader s) (\<lambda>(h, s).
    bindR (in_Transaction s) (\<lambda>(b, s).
    bindR (in_container (in_pod 32) s) (\<lambda>(ths, s).
    Inr (BlockHeader.extend h (Block.fields b ths), s))))"

definition out_AccountPublicAddress :: "blob \<Rightarrow> AccountPublicAddress \<Rightarrow> blob result" where
  "out_AccountPublicAddress out address =
    bindR (out_pod out (spendPublicKey address)) (\<lambda>out. out_pod out (viewPublicKey address))"

definition in_AccountPublicAddress :: "memory_input_stream \<Rightarrow> (AccountPublicAddress \<times> memory_input_stream) result" where
  "in_AccountPublicAddress s =
    bindR (in_pod 32 s) (\<lambda>(sp, s).
    bindR (in_pod 32 s) (\<lambda>(vp, s).
    Inr (\<lparr>spendPublicKey = sp, viewPublicKey = vp\<rparr>, s)))"

definition out_AccountKeys :: "blob \<Rightarrow> AccountKeys \<Rightarrow> blob result" where
  "out_AccountKeys out keys =
    bindR (out_AccountPublicAddress out (ak_address keys)) (\<lambda>out.
    bindR (out_pod out (spendSecretKey keys)) (\<lambda>out.
    out_pod out (viewSecretKey keys)))"

definition in_AccountKeys :: "memory_input_stream \<Rightarrow> (AccountKeys \<times> memory_input_stream) result" where
  "in_AccountKeys s =
    bindR (in_AccountPublicAddress s) (\<lambda>(a, s).
    bindR (in_pod 32 s) (\<lambda>(ss, s).
    bindR (in_pod 32 s) (\<lambda>(vs, s).
    Inr (\<lparr>ak_address = a, spendSecretKey = ss, viewSecretKey = vs\<rparr>, s))))"

definition out_KeyPair :: "blob \<Rightarrow> KeyPair \<Rightarrow> blob result" where
  "out_KeyPair out kp = bindR (out_pod out (kp_secretKey kp)) (\<lambda>out. out_pod out (kp_publicKey kp))"

definition in_KeyPair :: "memory_input_stream \<Rightarrow> (KeyPair \<times> memory_input_stream) result" where
  "in_KeyPair s =
    bindR (in_pod 32 s) (\<lambda>(sk, s).
    bindR (in_pod 32 s) (\<lambda>(pk, s).
    Inr (\<lparr>kp_publicKey = pk, kp_secretKey = sk\<rparr>, s)))"

section \<open>Keys, hashes, signatures and offsets\<close>

lemma out_pod_codec: "codec out_pod (in_pod n) (\<lambda>bs. bs) (\<lambda>bs. length bs = n)"
proof -
  have "out_pod = out_binary" and "in_pod n = in_binary n" by (simp_all add: fun_eq_iff out_pod_def in_pod_def)
  then show ?thesis by (simp only: pod_codec)
qed

interpretation hash32: codec out_pod "in_pod 32" "\<lambda>bs. bs" "\<lambda>bs. length bs = 32"
  by (rule out_pod_codec)

interpretation sig64: codec out_pod "in_pod 64" "\<lambda>bs. bs" "\<lambda>bs. length bs = 64"
  by (rule out_pod_codec)

interpretation hashes: codec "out_container out_pod" "in_container (in_pod 32)"
    "list_fmt (\<lambda>bs. bs)" "list_ok (\<lambda>bs. length bs = 32)"
  by (rule hash32.container_codec)

interpretation offsets: codec out_serializeVarintVector in_serializeVarintVector
    "list_fmt uint_fmt" "list_ok (\<lambda>_. True)"
proof -
  have *: "out_serializeVarintVector = out_container out_uint" "in_serializeVarintVector = in_container in_uint"
    by (simp_all add: fun_eq_iff out_serializeVarintVector_def in_serializeVarintVector_def out_container_def in_container_def)
  show "codec out_serializeVarintVector in_serializeVarintVector (list_fmt uint_fmt) (list_ok (\<lambda>_. True))"
    unfolding * by (rule c32.container_codec)
qed

lemmas leaf_out = c8.ser_fmt c32.ser_fmt c64.ser_fmt hash32.ser_fmt hashes.ser_fmt offsets.ser_fmt str.ser_fmt
lemmas leaf_at = c8.des_at c32.des_at c64.des_at hash32.des_at hashes.des_at offsets.des_at str.des_at
lemmas leaf_sound = c8.bind_sound c32.bind_sound c64.bind_sound hash32.bind_sound hashes.bind_sound
  offsets.bind_sound str.bind_sound

section \<open>Inputs\<close>

definition fmt_BaseInput :: "BaseInput \<Rightarrow> blob" where
  "fmt_BaseInput gen = uint_fmt (blockIndex gen)"

definition fmt_KeyInput :: "KeyInput \<Rightarrow> blob" where
  "fmt_KeyInput k = uint_fmt (ki_amount k) @ list_fmt uint_fmt (outputIndexes k) @ keyImage k"

definition ok_KeyInput :: "KeyInput \<Rightarrow> bool" where
  "ok_KeyInput k \<longleftrightarrow> list_ok (\<lambda>_. True) (outputIndexes k) \<and> length (keyImage k) = 32"

definition fmt_MultisignatureInput :: "MultisignatureInput \<Rightarrow> blob" where
  "fmt_MultisignatureInput m = uint_fmt (mi_amount m) @ uint_fmt (signatureCount m) @ uint_fmt (outputIndex m)"

interpretation base_in: codec out_BaseInput in_BaseInput fmt_BaseInput "\<lambda>_. True"
proof
  fix s s' x assume "mis_ok s" "in_BaseInput s = Inr (x, s')"
  then show "True \<and> at_bytes s (fmt_BaseInput x) \<and> s' = advance s (length (fmt_BaseInput x))"
    unfolding in_BaseInput_def fmt_BaseInput_def by (auto elim!: leaf_sound)
qed (auto simp: out_BaseInput_def in_BaseInput_def fmt_BaseInput_def leaf_out leaf_at)

interpretation key_in: codec out_KeyInput in_KeyInput fmt_KeyInput ok_KeyInput
proof
  fix s s' x assume "mis_ok s" "in_KeyInput s = Inr (x, s')"
  then show "ok_KeyInput x \<and> at_bytes s (fmt_KeyInput x) \<and> s' = advance s (length (fmt_KeyInput x))"
    unfolding in_KeyInput_def fmt_KeyInput_def ok_KeyInput_def
    by (auto elim!: leaf_sound simp: at_bytes_append add.assoc)
qed (auto simp: out_KeyInput_def in_KeyInput_def fmt_KeyInput_def ok_KeyInput_def at_bytes_append leaf_out leaf_at add.assoc)

interpretation multi_in: codec out_MultisignatureInput in_MultisignatureInput fmt_MultisignatureInput "\<lambda>_. True"
proof
  fix s s' x assume "mis_ok s" "in_MultisignatureInput s = Inr (x, s')"
  then show "True \<and> at_bytes s (fmt_MultisignatureInput x) \<and> s' = advance s (length (fmt_MultisignatureInput x))"
    unfolding in_MultisignatureInput_def fmt_MultisignatureInput_def
    by (auto elim!: leaf_sound simp: at_bytes_append add.assoc)
qed (auto simp: out_MultisignatureInput_def in_MultisignatureInput_def fmt_MultisignatureInput_def at_bytes_append leaf_out leaf_at add.assoc)

text \<open>The tag byte of a variant.\<close>

lemma tag_bind_sound:
  assumes "bindR (in_binary 1 s) (\<lambda>(t, s). f (hd t) s) = Inr y" and "mis_ok s"
  obtains tag where "at_bytes s [tag]" and "mis_ok (advance s 1)" and "f tag (advance s 1) = Inr y"
proof (rule pod1.bind_sound [OF assms])
  fix t
  assume t: "length t = 1" "at_bytes s t" "mis_ok (advance s (length t))"
    "(case (t, advance s (length t)) of (t, s) \<Rightarrow> f (hd t) s) = Inr y"
  then obtain b where "t = [b]" by (auto simp: length_Suc_conv)
  with t that [of b] show ?thesis by simp
qed

lemma tag_at: "at_bytes s [tag] \<Longrightarrow> in_binary (Suc 0) s = Inr ([tag], advance s 1)"
  using pod1.des_fmt [of "[tag]" s] by simp

fun fmt_TransactionInput :: "TransactionInput \<Rightarrow> blob" where
  "fmt_TransactionInput (VBaseInput v) = [0xff] @ fmt_BaseInput v"
| "fmt_TransactionInput (VKeyInput v) = [0x2] @ fmt_KeyInput v"
| "fmt_TransactionInput (VMultisignatureInput v) = [0x3] @ fmt_MultisignatureInput v"

fun ok_TransactionInput :: "TransactionInput \<Rightarrow> bool" where
  "ok_TransactionInput (VKeyInput v) = ok_KeyInput v"
| "ok_TransactionInput _ = True"

lemmas input_tag_split = at_bytes_Cons [of _ _ "fmt_BaseInput v" for v]
  at_bytes_Cons [of _ _ "fmt_KeyInput v" for v] at_bytes_Cons [of _ _ "fmt_MultisignatureInput v" for v]

interpretation tx_in: codec out_TransactionInput in_TransactionInput fmt_TransactionInput ok_TransactionInput
proof
  fix out x assume "ok_TransactionInput x"
  then show "out_TransactionInput out x = Inr (out @ fmt_TransactionInput x)"
    by (cases x) (simp_all add: out_TransactionInput_def out_binary_def base_in.ser_fmt key_in.ser_fmt multi_in.ser_fmt)
next
  fix s x assume "ok_TransactionInput x" "at_bytes s (fmt_TransactionInput x)"
  then show "in_TransactionInput s = Inr (x, advance s (length (fmt_TransactionInput x)))"
    by (cases x) (auto simp: in_TransactionInput_def getVariantValue_input_def tag_at
        input_tag_split base_in.des_at key_in.des_at multi_in.des_at)
next
  fix s s' x assume "mis_ok s" "in_TransactionInput s = Inr (x, s')"
  then show "ok_TransactionInput x \<and> at_bytes s (fmt_TransactionInput x) \<and> s' = advance s (length (fmt_TransactionInput x))"
    unfolding in_TransactionInput_def getVariantValue_input_def
    by (elim tag_bind_sound) (auto split: if_splits elim!: base_in.bind_sound key_in.bind_sound multi_in.bind_sound
        simp: input_tag_split)
qed

section \<open>Outputs\<close>

definition fmt_MultisignatureOutput :: "MultisignatureOutput \<Rightarrow> blob" where
  "fmt_MultisignatureOutput m = list_fmt (\<lambda>bs. bs) (mo_keys m) @ uint_fmt (requiredSignatureCount m)"

definition ok_MultisignatureOutput :: "MultisignatureOutput \<Rightarrow> bool" where
  "ok_MultisignatureOutput m \<longleftrightarrow> list_ok (\<lambda>bs. length bs = 32) (mo_keys m)"

interpretation key_out: codec out_KeyOutput in_KeyOutput ko_key "\<lambda>k. length (ko_key k) = 32"
proof
  fix s s' x assume "mis_ok s" "in_KeyOutput s = Inr (x, s')"
  then show "length (ko_key x) = 32 \<and> at_bytes s (ko_key x) \<and> s' = advance s (length (ko_key x))"
    unfolding in_KeyOutput_def by (auto elim!: leaf_sound)
qed (auto simp: out_KeyOutput_def in_KeyOutput_def leaf_out leaf_at)

interpretation multi_out: codec out_MultisignatureOutput in_MultisignatureOutput fmt_MultisignatureOutput ok_MultisignatureOutput
proof
  fix s s' x assume "mis_ok s" "in_MultisignatureOutput s = Inr (x, s')"
  then show "ok_MultisignatureOutput x \<and> at_bytes s (fmt_MultisignatureOutput x) \<and> s' = advance s (length (fmt_MultisignatureOutput x))"
    unfolding in_MultisignatureOutput_def fmt_MultisignatureOutput_def ok_MultisignatureOutput_def
    by (auto elim!: leaf_sound simp: at_bytes_append)
qed (auto simp: out_MultisignatureOutput_def in_MultisignatureOutput_def fmt_MultisignatureOutput_def
    ok_MultisignatureOutput_def at_bytes_append leaf_out leaf_at)

fun fmt_TransactionOutputTarget :: "TransactionOutputTarget \<Rightarrow> blob" where
  "fmt_TransactionOutputTarget (VKeyOutput v) = [0x2] @ ko_key v"
| "fmt_TransactionOutputTarget (VMultisignatureOutput v) = [0x3] @ fmt_MultisignatureOutput v"

fun ok_TransactionOutputTarget :: "TransactionOutputTarget \<Rightarrow> bool" where
  "ok_TransactionOutputTarget (VKeyOutput v) \<longleftrightarrow> length (ko_key v) = 32"
| "ok_TransactionOutputTarget (VMultisignatureOutput v) \<longleftrightarrow> ok_MultisignatureOutput v"

lemmas target_tag_split = at_bytes_Cons [of _ _ "ko_key v" for v] at_bytes_Cons [of _ _ "fmt_MultisignatureOutput v" for v]

interpretation tx_target: codec out_TransactionOutputTarget in_TransactionOutputTarget
    fmt_TransactionOutputTarget ok_TransactionOutputTarget
proof
  fix out x assume "ok_TransactionOutputTarget x"
  then show "out_TransactionOutputTarget out x = Inr (out @ fmt_TransactionOutputTarget x)"
    by (cases x) (simp_all add: out_TransactionOutputTarget_def out_binary_def key_out.ser_fmt multi_out.ser_fmt)
next
  fix s x assume "ok_TransactionOutputTarget x" "at_bytes s (fmt_TransactionOutputTarget x)"
  then show "in_TransactionOutputTarget s = Inr (x, advance s (length (fmt_TransactionOutputTarget x)))"
    by (cases x) (auto simp: in_TransactionOutputTarget_def getVariantValue_target_def tag_at
        target_tag_split key_out.des_at multi_out.des_at)
next
  fix s s' x assume "mis_ok s" "in_TransactionOutputTarget s = Inr (x, s')"
  then show "ok_TransactionOutputTarget x \<and> at_bytes s (fmt_TransactionOutputTarget x)
      \<and> s' = advance s (length (fmt_TransactionOutputTarget x))"
    unfolding in_TransactionOutputTarget_def getVariantValue_target_def
    by (elim tag_bind_sound) (auto split: if_splits elim!: key_out.bind_sound multi_out.bind_sound
        simp: target_tag_split)
qed

definition fmt_TransactionOutput :: "TransactionOutput \<Rightarrow> blob" where
  "fmt_TransactionOutput v = uint_fmt (to_amount v) @ fmt_TransactionOutputTarget (to_target v)"

definition ok_TransactionOutput :: "TransactionOutput \<Rightarrow> bool" where
  "ok_TransactionOutput v \<longleftrightarrow> ok_TransactionOutputTarget (to_target v)"

interpretation tx_out: codec out_TransactionOutput in_TransactionOutput fmt_TransactionOutput ok_TransactionOutput
proof
  fix s s' x assume "mis_ok s" "in_TransactionOutput s = Inr (x, s')"
  then show "ok_TransactionOutput x \<and> at_bytes s (fmt_TransactionOutput x) \<and> s' = advance s (length (fmt_TransactionOutput x))"
    unfolding in_TransactionOutput_def fmt_TransactionOutput_def ok_TransactionOutput_def
    by (auto elim!: leaf_sound tx_target.bind_sound simp: at_bytes_append)
qed (auto simp: out_TransactionOutput_def in_TransactionOutput_def fmt_TransactionOutput_def
    ok_TransactionOutput_def at_bytes_append leaf_out leaf_at tx_target.ser_fmt tx_target.des_at)

section \<open>Transactions\<close>

definition fmt_TransactionPrefix :: "TransactionPrefix \<Rightarrow> blob" where
  "fmt_TransactionPrefix p = uint_fmt (version p) @ uint_fmt (unlockTime p)
    @ list_fmt fmt_TransactionInput (inputs p) @ list_fmt fmt_TransactionOutput (outputs p) @ string_fmt (extra p)"

definition ok_TransactionPrefix :: "TransactionPrefix \<Rightarrow> bool" where
  "ok_TransactionPrefix p \<longleftrightarrow> version p \<le> CURRENT_TRANSACTION_VERSION
    \<and> list_ok ok_TransactionInput (inputs p) \<and> list_ok ok_TransactionOutput (outputs p) \<and> length (extra p) < 2 ^ 64"

interpretation tx_ins: codec "out_container out_TransactionInput" "in_container in_TransactionInput"
    "list_fmt fmt_TransactionInput" "list_ok ok_TransactionInput"
  by (rule tx_in.container_codec)

interpretation tx_outs: codec "out_container out_TransactionOutput" "in_container in_TransactionOutput"
    "list_fmt fmt_TransactionOutput" "list_ok ok_TransactionOutput"
  by (rule tx_out.container_codec)

interpretation tx_prefix: codec out_TransactionPrefix in_TransactionPrefix fmt_TransactionPrefix ok_TransactionPrefix
proof
  fix s s' x assume "mis_ok s" "in_TransactionPrefix s = Inr (x, s')"
  then show "ok_TransactionPrefix x \<and> at_bytes s (fmt_TransactionPrefix x) \<and> s' = advance s (length (fmt_TransactionPrefix x))"
    unfolding in_TransactionPrefix_def fmt_TransactionPrefix_def ok_TransactionPrefix_def
    by (auto elim!: leaf_sound tx_ins.bind_sound tx_outs.bind_sound simp: at_bytes_append add.assoc split: if_splits)
qed (auto simp: out_TransactionPrefix_def in_TransactionPrefix_def fmt_TransactionPrefix_def ok_TransactionPrefix_def
    at_bytes_append leaf_out leaf_at tx_ins.ser_fmt tx_outs.ser_fmt tx_ins.des_at tx_outs.des_at add.assoc)

text \<open>The signatures have no sizes of their own: the inputs say how many there are.\<close>

definition ok_signatures :: "TransactionInput list \<Rightarrow> Signature list list \<Rightarrow> bool" where
  "ok_signatures is sigs \<longleftrightarrow>
    list_all2 (\<lambda>i sig. length sig = getSignaturesCount i \<and> list_all (\<lambda>bs. length bs = 64) sig) is sigs"

lemma ok_signatures_simps [simp]:
  "ok_signatures [] sigs \<longleftrightarrow> sigs = []"
  "ok_signatures (i # is) (sig # sigs) \<longleftrightarrow>
     length sig = getSignaturesCount i \<and> list_all (\<lambda>bs. length bs = 64) sig \<and> ok_signatures is sigs"
  by (simp_all add: ok_signatures_def)

lemma ok_signatures_induct [consumes 1, case_names Nil Cons]:
  assumes "ok_signatures is sigs" and "P [] []"
    and "\<And>i is sig sigs. length sig = getSignaturesCount i \<Longrightarrow> list_all (\<lambda>bs. length bs = 64) sig \<Longrightarrow>
      ok_signatures is sigs \<Longrightarrow> P is sigs \<Longrightarrow> P (i # is) (sig # sigs)"
  shows "P is sigs"
  using assms(1) unfolding ok_signatures_def
  by (induction rule: list_all2_induct) (auto intro: assms(2,3) simp: ok_signatures_def)

lemma out_signatures_fmt:
  "ok_signatures is sigs \<Longrightarrow> out_signatures False is sigs out = Inr (out @ concat (map concat sigs))"
  by (induction arbitrary: out rule: ok_signatures_induct) (simp_all add: sig64.out_items_fmt)

lemma in_signatures_at:
  "ok_signatures is sigs \<Longrightarrow> at_bytes s (concat (map concat sigs)) \<Longrightarrow>
   in_signatures is s = Inr (sigs, advance s (length (concat (map concat sigs))))"
proof (induction arbitrary: s rule: ok_signatures_induct)
  case (Cons i "is" sig sigs)
  then have "at_bytes s (concat sig)" and at: "at_bytes (advance s (length (concat sig))) (concat (map concat sigs))"
    by (simp_all add: at_bytes_append)
  then have "in_items (in_pod 64) (getSignaturesCount i) s = Inr (sig, advance s (length (concat sig)))"
    using sig64.in_items_fmt [of sig s] Cons.hyps by simp
  with Cons.IH [OF at] show ?case by simp
qed simp

lemma in_signatures_sound:
  "mis_ok s \<Longrightarrow> in_signatures is s = Inr (sigs, s') \<Longrightarrow> ok_signatures is sigs
   \<and> at_bytes s (concat (map concat sigs)) \<and> s' = advance s (length (concat (map concat sigs)))"
proof (induction "is" arbitrary: s sigs)
  case Nil
  then show ?case by simp
next
  case (Cons i "is")
  from Cons.prems(2) obtain sig t ss where sig: "in_items (in_pod 64) (getSignaturesCount i) s = Inr (sig, t)"
    and ss: "in_signatures is t = Inr (ss, s')" "sigs = sig # ss"
    by (auto simp: bindR_eq_Inr)
  note h = sig64.in_items_sound [OF Cons.prems(1) sig]
  then have "mis_ok t" using at_bytes_mis_ok [of s "concat sig"] by simp
  from Cons.IH [OF this ss(1)] h ss(2) show ?case by (simp add: at_bytes_append)
qed

definition fmt_Transaction :: "Transaction \<Rightarrow> blob" where
  "fmt_Transaction tx = fmt_TransactionPrefix (TransactionPrefix.truncate tx) @ concat (map concat (signatures tx))"

definition ok_Transaction :: "Transaction \<Rightarrow> bool" where
  "ok_Transaction tx \<longleftrightarrow> ok_TransactionPrefix (TransactionPrefix.truncate tx) \<and> ok_signatures (inputs tx) (signatures tx)"

lemma prefix_truncate [simp]: "inputs (TransactionPrefix.truncate tx) = inputs tx"
  "outputs (TransactionPrefix.truncate tx) = outputs tx" "version (TransactionPrefix.truncate tx) = version tx"
  "unlockTime (TransactionPrefix.truncate tx) = unlockTime tx" "extra (TransactionPrefix.truncate tx) = extra tx"
  by (simp_all add: TransactionPrefix.defs)

lemma transaction_split [simp]:
  "TransactionPrefix.truncate (TransactionPrefix.extend p (Transaction.fields sigs)) = p"
  "signatures (TransactionPrefix.extend p (Transaction.fields sigs)) = sigs"
  "inputs (TransactionPrefix.extend p (Transaction.fields sigs)) = inputs p"
  by (simp_all add: TransactionPrefix.defs Transaction.defs)

lemma transaction_join [simp]:
  "TransactionPrefix.extend (TransactionPrefix.truncate tx) (Transaction.fields (signatures tx)) = tx"
  by (simp add: TransactionPrefix.defs Transaction.defs)

interpretation tx: codec out_Transaction in_Transaction fmt_Transaction ok_Transaction
proof
  fix out x assume ok: "ok_Transaction x"
  then have len: "length (inputs x) = length (signatures x)"
    by (auto simp: ok_Transaction_def ok_signatures_def dest: list_all2_lengthD)
  show "out_Transaction out x = Inr (out @ fmt_Transaction x)"
  proof (cases "signatures x = []")
    case True
    then show ?thesis using ok len
      by (simp add: out_Transaction_def ok_Transaction_def fmt_Transaction_def tx_prefix.ser_fmt)
  next
    case False
    then show ?thesis using ok len
      by (simp add: out_Transaction_def ok_Transaction_def fmt_Transaction_def tx_prefix.ser_fmt out_signatures_fmt)
  qed
next
  fix s x assume "ok_Transaction x" "at_bytes s (fmt_Transaction x)"
  then show "in_Transaction s = Inr (x, advance s (length (fmt_Transaction x)))"
    by (auto simp: in_Transaction_def ok_Transaction_def fmt_Transaction_def at_bytes_append tx_prefix.des_at in_signatures_at)
next
  fix s s' x assume "mis_ok s" "in_Transaction s = Inr (x, s')"
  then show "ok_Transaction x \<and> at_bytes s (fmt_Transaction x) \<and> s' = advance s (length (fmt_Transaction x))"
    unfolding in_Transaction_def fmt_Transaction_def ok_Transaction_def
    by (elim tx_prefix.bind_sound) (auto simp: bindR_eq_Inr at_bytes_append dest!: in_signatures_sound)
qed

text \<open>
  A transaction without signatures is written like one with an empty list of signatures for every
  input, and only if no input needs a signature; every other mismatch is an error.
\<close>

lemma out_signatures_none:
  "out_signatures True is sigs out
    = (if \<forall>i \<in> set is. getSignaturesCount i = 0 then Inr out else Inl SignaturesNotExpected)"
  by (induction "is") auto

lemma out_signatures_some:
  "length is = length sigs \<Longrightarrow> out_signatures False is sigs out
    = (if list_all2 (\<lambda>i sig. getSignaturesCount i = length sig) is sigs
       then Inr (out @ concat (map concat sigs)) else Inl UnexpectedSignaturesSize)"
proof (induction "is" sigs arbitrary: out rule: list_induct2)
  case (Cons i "is" sig sigs)
  have "out_items out_pod out sig = Inr (out @ concat sig)" for out
    by (induction sig arbitrary: out) (simp_all add: out_pod_def out_binary_def)
  with Cons show ?case by simp
qed simp

lemma out_Transaction_cases:
  assumes "ok_TransactionPrefix (TransactionPrefix.truncate tx)"
  shows "out_Transaction out tx =
    (if signatures tx = []
     then if \<forall>i \<in> set (inputs tx). getSignaturesCount i = 0
          then Inr (out @ fmt_TransactionPrefix (TransactionPrefix.truncate tx)) else Inl SignaturesNotExpected
     else if list_all2 (\<lambda>i sig. getSignaturesCount i = length sig) (inputs tx) (signatures tx)
          then Inr (out @ fmt_Transaction tx) else Inl UnexpectedSignaturesSize)"
  using assms by (auto simp: out_Transaction_def fmt_Transaction_def tx_prefix.ser_fmt out_signatures_none
      out_signatures_some dest: list_all2_lengthD)

section \<open>Blocks\<close>

definition fmt_BlockHeader :: "BlockHeader \<Rightarrow> blob" where
  "fmt_BlockHeader h = uint_fmt (majorVersion h) @ uint_fmt (minorVersion h) @ uint_fmt (timestamp h)
    @ previousBlockHash h @ le_bytes 4 (nonce h)"

definition ok_BlockHeader :: "BlockHeader \<Rightarrow> bool" where
  "ok_BlockHeader h \<longleftrightarrow> majorVersion h \<le> BLOCK_MAJOR_VERSION_1 \<and> length (previousBlockHash h) = 32"

lemma nonce_bytes [simp]: "of_le_bytes (le_bytes 4 (n :: u32)) = n"
  by (simp add: of_le_bytes_le_bytes take_bit_word_eq_self)

lemma bytes_nonce: "length bs = 4 \<Longrightarrow> le_bytes 4 (of_le_bytes bs :: u32) = bs"
  using le_bytes_of_le_bytes [of bs, where 'a = 32] by simp

interpretation header: codec out_BlockHeader in_BlockHeader fmt_BlockHeader ok_BlockHeader
proof
  fix s s' x assume "mis_ok s" "in_BlockHeader s = Inr (x, s')"
  then show "ok_BlockHeader x \<and> at_bytes s (fmt_BlockHeader x) \<and> s' = advance s (length (fmt_BlockHeader x))"
    unfolding in_BlockHeader_def fmt_BlockHeader_def ok_BlockHeader_def
    by (auto elim!: leaf_sound pod4.bind_sound simp: at_bytes_append add.assoc bytes_nonce split: if_splits)
qed (auto simp: out_BlockHeader_def in_BlockHeader_def fmt_BlockHeader_def ok_BlockHeader_def
    at_bytes_append leaf_out leaf_at pod4.ser_fmt pod4.des_at add.assoc)

definition fmt_Block :: "Block \<Rightarrow> blob" where
  "fmt_Block b = fmt_BlockHeader (BlockHeader.truncate b) @ fmt_Transaction (baseTransaction b)
    @ list_fmt (\<lambda>bs. bs) (transactionHashes b)"

definition ok_Block :: "Block \<Rightarrow> bool" where
  "ok_Block b \<longleftrightarrow> ok_BlockHeader (BlockHeader.truncate b) \<and> ok_Transaction (baseTransaction b)
    \<and> list_ok (\<lambda>bs. length bs = 32) (transactionHashes b)"

lemma block_split [simp]:
  "BlockHeader.truncate (BlockHeader.extend h (Block.fields t hs)) = h"
  "baseTransaction (BlockHeader.extend h (Block.fields t hs)) = t"
  "transactionHashes (BlockHeader.extend h (Block.fields t hs)) = hs"
  by (simp_all add: BlockHeader.defs Block.defs)

lemma block_join [simp]:
  "BlockHeader.extend (BlockHeader.truncate b) (Block.fields (baseTransaction b) (transactionHashes b)) = b"
  by (simp add: BlockHeader.defs Block.defs)

interpretation block: codec out_Block in_Block fmt_Block ok_Block
proof
  fix s s' x assume "mis_ok s" "in_Block s = Inr (x, s')"
  then show "ok_Block x \<and> at_bytes s (fmt_Block x) \<and> s' = advance s (length (fmt_Block x))"
    unfolding in_Block_def fmt_Block_def ok_Block_def
    by (auto elim!: header.bind_sound tx.bind_sound hashes.bind_sound simp: at_bytes_append add.assoc)
qed (auto simp: out_Block_def in_Block_def fmt_Block_def ok_Block_def at_bytes_append header.ser_fmt tx.ser_fmt
    hashes.ser_fmt header.des_at tx.des_at hashes.des_at add.assoc)

section \<open>Accounts\<close>

definition fmt_AccountPublicAddress :: "AccountPublicAddress \<Rightarrow> blob" where
  "fmt_AccountPublicAddress a = spendPublicKey a @ viewPublicKey a"

definition ok_AccountPublicAddress :: "AccountPublicAddress \<Rightarrow> bool" where
  "ok_AccountPublicAddress a \<longleftrightarrow> length (spendPublicKey a) = 32 \<and> length (viewPublicKey a) = 32"

interpretation address: codec out_AccountPublicAddress in_AccountPublicAddress fmt_AccountPublicAddress ok_AccountPublicAddress
proof
  fix s s' x assume "mis_ok s" "in_AccountPublicAddress s = Inr (x, s')"
  then show "ok_AccountPublicAddress x \<and> at_bytes s (fmt_AccountPublicAddress x)
      \<and> s' = advance s (length (fmt_AccountPublicAddress x))"
    unfolding in_AccountPublicAddress_def fmt_AccountPublicAddress_def ok_AccountPublicAddress_def
    by (auto elim!: leaf_sound simp: at_bytes_append)
qed (auto simp: out_AccountPublicAddress_def in_AccountPublicAddress_def fmt_AccountPublicAddress_def
    ok_AccountPublicAddress_def at_bytes_append leaf_out leaf_at)

definition fmt_AccountKeys :: "AccountKeys \<Rightarrow> blob" where
  "fmt_AccountKeys k = fmt_AccountPublicAddress (ak_address k) @ spendSecretKey k @ viewSecretKey k"

definition ok_AccountKeys :: "AccountKeys \<Rightarrow> bool" where
  "ok_AccountKeys k \<longleftrightarrow> ok_AccountPublicAddress (ak_address k) \<and> length (spendSecretKey k) = 32
    \<and> length (viewSecretKey k) = 32"

interpretation account: codec out_AccountKeys in_AccountKeys fmt_AccountKeys ok_AccountKeys
proof
  fix s s' x assume "mis_ok s" "in_AccountKeys s = Inr (x, s')"
  then show "ok_AccountKeys x \<and> at_bytes s (fmt_AccountKeys x) \<and> s' = advance s (length (fmt_AccountKeys x))"
    unfolding in_AccountKeys_def fmt_AccountKeys_def ok_AccountKeys_def
    by (auto elim!: leaf_sound address.bind_sound simp: at_bytes_append add.assoc)
qed (auto simp: out_AccountKeys_def in_AccountKeys_def fmt_AccountKeys_def ok_AccountKeys_def at_bytes_append
    leaf_out leaf_at address.ser_fmt address.des_at add.assoc)

interpretation keypair: codec out_KeyPair in_KeyPair "\<lambda>k. kp_secretKey k @ kp_publicKey k"
    "\<lambda>k. length (kp_secretKey k) = 32 \<and> length (kp_publicKey k) = 32"
proof
  fix s s' x assume "mis_ok s" "in_KeyPair s = Inr (x, s')"
  then show "(length (kp_secretKey x) = 32 \<and> length (kp_publicKey x) = 32) \<and> at_bytes s (kp_secretKey x @ kp_publicKey x)
      \<and> s' = advance s (length (kp_secretKey x @ kp_publicKey x))"
    unfolding in_KeyPair_def by (auto elim!: leaf_sound simp: at_bytes_append)
qed (auto simp: out_KeyPair_def in_KeyPair_def at_bytes_append leaf_out leaf_at)

end
