(* ===== verification/StringTools.thy ===== *)
theory StringTools
  imports Prelude
begin

text \<open>
  \<^verbatim>\<open>src/Common/StringTools.cpp\<close> and \<^verbatim>\<open>StringTools.h\<close>: hexadecimal text, the two \<^verbatim>\<open>extract\<close> functions, the
  Base64 decoder and time intervals. A \<^verbatim>\<open>std::string\<close> is the list of its bytes.

  The functions that throw and the functions that return \<^verbatim>\<open>false\<close> are separate in the source and here; they
  are shown to agree, and to invert \<^verbatim>\<open>toHex\<close>.
\<close>

section \<open>Hexadecimal text\<close>

definition characterValues :: "u8 list" where
  "characterValues = [
    0xff, 0xff, 0xff, 0xff, 0xff, 0xff, 0xff, 0xff, 0xff, 0xff, 0xff, 0xff, 0xff, 0xff, 0xff, 0xff,
    0xff, 0xff, 0xff, 0xff, 0xff, 0xff, 0xff, 0xff, 0xff, 0xff, 0xff, 0xff, 0xff, 0xff, 0xff, 0xff,
    0xff, 0xff, 0xff, 0xff, 0xff, 0xff, 0xff, 0xff, 0xff, 0xff, 0xff, 0xff, 0xff, 0xff, 0xff, 0xff,
    0x00, 0x01, 0x02, 0x03, 0x04, 0x05, 0x06, 0x07, 0x08, 0x09, 0xff, 0xff, 0xff, 0xff, 0xff, 0xff,
    0xff, 0x0a, 0x0b, 0x0c, 0x0d, 0x0e, 0x0f, 0xff, 0xff, 0xff, 0xff, 0xff, 0xff, 0xff, 0xff, 0xff,
    0xff, 0xff, 0xff, 0xff, 0xff, 0xff, 0xff, 0xff, 0xff, 0xff, 0xff, 0xff, 0xff, 0xff, 0xff, 0xff,
    0xff, 0x0a, 0x0b, 0x0c, 0x0d, 0x0e, 0x0f, 0xff, 0xff, 0xff, 0xff, 0xff, 0xff, 0xff, 0xff, 0xff,
    0xff, 0xff, 0xff, 0xff, 0xff, 0xff, 0xff, 0xff, 0xff, 0xff, 0xff, 0xff, 0xff, 0xff, 0xff, 0xff,
    0xff, 0xff, 0xff, 0xff, 0xff, 0xff, 0xff, 0xff, 0xff, 0xff, 0xff, 0xff, 0xff, 0xff, 0xff, 0xff,
    0xff, 0xff, 0xff, 0xff, 0xff, 0xff, 0xff, 0xff, 0xff, 0xff, 0xff, 0xff, 0xff, 0xff, 0xff, 0xff,
    0xff, 0xff, 0xff, 0xff, 0xff, 0xff, 0xff, 0xff, 0xff, 0xff, 0xff, 0xff, 0xff, 0xff, 0xff, 0xff,
    0xff, 0xff, 0xff, 0xff, 0xff, 0xff, 0xff, 0xff, 0xff, 0xff, 0xff, 0xff, 0xff, 0xff, 0xff, 0xff,
    0xff, 0xff, 0xff, 0xff, 0xff, 0xff, 0xff, 0xff, 0xff, 0xff, 0xff, 0xff, 0xff, 0xff, 0xff, 0xff,
    0xff, 0xff, 0xff, 0xff, 0xff, 0xff, 0xff, 0xff, 0xff, 0xff, 0xff, 0xff, 0xff, 0xff, 0xff, 0xff,
    0xff, 0xff, 0xff, 0xff, 0xff, 0xff, 0xff, 0xff, 0xff, 0xff, 0xff, 0xff, 0xff, 0xff, 0xff, 0xff,
    0xff, 0xff, 0xff, 0xff, 0xff, 0xff, 0xff, 0xff, 0xff, 0xff, 0xff, 0xff, 0xff, 0xff, 0xff, 0xff]"

definition asString :: "blob \<Rightarrow> blob" where
  "asString data = data"

definition asBinaryArray :: "blob \<Rightarrow> blob" where
  "asBinaryArray data = data"

text \<open>\<^verbatim>\<open>uint8_t fromHex(char)\<close> and \<^verbatim>\<open>bool fromHex(char, uint8_t&)\<close>\<close>

definition fromHex_char_throw :: "u8 \<Rightarrow> u8 result" where
  "fromHex_char_throw character =
    (let val = characterValues ! unat character in if 0x0f < val then Inl HexCharacter else Inr val)"

definition fromHex_char :: "u8 \<Rightarrow> u8 option" where
  "fromHex_char character =
    (if 0x0f < characterValues ! unat character then None else Some (characterValues ! unat character))"

text \<open>The loops over pairs of characters: the first throws, the second stops at the first bad character.\<close>

fun hex_pairs_throw :: "blob \<Rightarrow> blob result" where
  "hex_pairs_throw (a # b # text) =
    bindR (fromHex_char_throw a) (\<lambda>v1.
    bindR (fromHex_char_throw b) (\<lambda>v2.
    bindR (hex_pairs_throw text) (\<lambda>data. Inr ((push_bit 4 v1 OR v2) # data))))"
| "hex_pairs_throw text = Inr []"

fun hex_pairs :: "blob \<Rightarrow> blob \<Rightarrow> bool \<times> blob" where
  "hex_pairs (a # b # text) data =
    (case fromHex_char a of
       None \<Rightarrow> (False, data)
     | Some value1 \<Rightarrow>
         (case fromHex_char b of
            None \<Rightarrow> (False, data)
          | Some value2 \<Rightarrow> hex_pairs text (data @ [push_bit 4 value1 OR value2])))"
| "hex_pairs text data = (True, data)"

text \<open>\<^verbatim>\<open>size_t fromHex(const std::string&, void*, size_t)\<close>: the bytes stored at \<^verbatim>\<open>data\<close>\<close>

definition fromHex_buffer_throw :: "blob \<Rightarrow> nat \<Rightarrow> blob result" where
  "fromHex_buffer_throw text bufferSize =
    (if length text mod 2 \<noteq> 0 then Inl HexStringSize
     else if bufferSize < length text div 2 then Inl HexBufferSize
     else hex_pairs_throw text)"

text \<open>\<^verbatim>\<open>bool fromHex(const std::string&, void*, size_t, size_t&)\<close>: the bytes stored and their number\<close>

definition fromHex_buffer :: "blob \<Rightarrow> nat \<Rightarrow> (blob \<times> nat) option" where
  "fromHex_buffer text bufferSize =
    (if length text mod 2 \<noteq> 0 then None
     else if bufferSize < length text div 2 then None
     else case hex_pairs text [] of (ok, data) \<Rightarrow> if ok then Some (data, length text div 2) else None)"

definition fromHex_throw :: "blob \<Rightarrow> blob result" where
  "fromHex_throw text = (if length text mod 2 \<noteq> 0 then Inl HexStringSize else hex_pairs_throw text)"

text \<open>\<^verbatim>\<open>bool fromHex(const std::string&, std::vector<uint8_t>&)\<close> appends to its argument, also when it fails.\<close>

definition fromHex :: "blob \<Rightarrow> blob \<Rightarrow> bool \<times> blob" where
  "fromHex text data = (if length text mod 2 \<noteq> 0 then (False, data) else hex_pairs text data)"

definition podFromHex :: "nat \<Rightarrow> blob \<Rightarrow> blob option" where
  "podFromHex sz text =
    (case fromHex_buffer text sz of None \<Rightarrow> None | Some (data, outSize) \<Rightarrow> if outSize = sz then Some data else None)"

definition hex_digits :: blob where
  "hex_digits = map of_char ''0123456789abcdef''"

definition toHex_append :: "blob \<Rightarrow> blob \<Rightarrow> blob" where
  "toHex_append data text =
    fold (\<lambda>b text. text @ [hex_digits ! unat (drop_bit 4 b)] @ [hex_digits ! unat (b AND 15)]) data text"

definition toHex :: "blob \<Rightarrow> blob" where
  "toHex data = toHex_append data []"

definition podToHex :: "blob \<Rightarrow> blob" where
  "podToHex s = toHex s"

section \<open>Delimited text\<close>

text \<open>\<^verbatim>\<open>std::string::find(char, size_t)\<close>\<close>

definition find_from :: "blob \<Rightarrow> u8 \<Rightarrow> nat \<Rightarrow> nat option" where
  "find_from text c pos = List.find (\<lambda>i. text ! i = c) [pos..<length text]"

text \<open>\<^verbatim>\<open>extract(std::string&, char)\<close> gives the part before the delimiter and leaves the rest in its argument.\<close>

definition extract_first :: "blob \<Rightarrow> u8 \<Rightarrow> blob \<times> blob" where
  "extract_first text delimiter =
    (case find_from text delimiter 0 of
       Some delimiterPosition \<Rightarrow> (take delimiterPosition text, drop (delimiterPosition + 1) text)
     | None \<Rightarrow> (text, []))"

text \<open>\<^verbatim>\<open>extract(const std::string&, char, size_t&)\<close> gives the text and the new offset.\<close>

definition extract_offset :: "blob \<Rightarrow> u8 \<Rightarrow> nat \<Rightarrow> blob \<times> nat" where
  "extract_offset text delimiter offset =
    (case find_from text delimiter offset of
       Some delimiterPosition \<Rightarrow>
         let offset = delimiterPosition + 1 in (take delimiterPosition (drop offset text), offset)
     | None \<Rightarrow> let offset = length text in (drop offset text, offset))"

section \<open>Base64\<close>

definition base64chars :: blob where
  "base64chars = map of_char ''ABCDEFGHIJKLMNOPQRSTUVWXYZabcdefghijklmnopqrstuvwxyz0123456789+/''"

text \<open>\<^verbatim>\<open>isalnum\<close> in the C locale\<close>

definition is_base64 :: "u8 \<Rightarrow> bool" where
  "is_base64 c =
    (let n = unat c
     in 48 \<le> n \<and> n \<le> 57 \<or> 65 \<le> n \<and> n \<le> 90 \<or> 97 \<le> n \<and> n \<le> 122 \<or> n = 43 \<or> n = 47)"

text \<open>\<^verbatim>\<open>(unsigned char) base64chars.find(c)\<close>; a character that does not occur gives \<^verbatim>\<open>npos\<close>, truncated.\<close>

definition base64_find :: "u8 \<Rightarrow> u8" where
  "base64_find c = (case List.find (\<lambda>i. base64chars ! i = c) [0..<length base64chars] of Some i \<Rightarrow> of_nat i | None \<Rightarrow> 0xff)"

definition base64_triple :: "u8 \<Rightarrow> u8 \<Rightarrow> u8 \<Rightarrow> u8 \<Rightarrow> blob" where
  "base64_triple a0 a1 a2 a3 =
    [push_bit 2 a0 + drop_bit 4 (a1 AND 0x30),
     push_bit 4 (a1 AND 0xf) + drop_bit 2 (a2 AND 0x3c),
     push_bit 6 (a2 AND 0x3) + a3]"

text \<open>
  The main loop of \<^verbatim>\<open>base64Decode\<close> collects characters in \<^verbatim>\<open>char_array_4\<close> and turns four of them into three
  bytes; the code after the loop completes a group of fewer characters.
\<close>

fun base64_loop :: "blob \<Rightarrow> blob \<Rightarrow> blob \<Rightarrow> blob \<times> blob" where
  "base64_loop [] arr ret = (arr, ret)"
| "base64_loop (c # cs) arr ret =
    (if c \<noteq> 61 \<and> is_base64 c
     then let arr = arr @ [c] in
       if length arr = 4
       then base64_loop cs []
         (ret @ base64_triple (base64_find (arr ! 0)) (base64_find (arr ! 1)) (base64_find (arr ! 2)) (base64_find (arr ! 3)))
       else base64_loop cs arr ret
     else (arr, ret))"

definition base64Decode :: "blob \<Rightarrow> blob" where
  "base64Decode encoded_string =
    (let (arr, ret) = base64_loop encoded_string [] [] in
     if length arr \<noteq> 0
     then let i = length arr; arr = arr @ replicate (4 - i) 0
          in ret @ take (i - 1)
            (base64_triple (base64_find (arr ! 0)) (base64_find (arr ! 1)) (base64_find (arr ! 2)) (base64_find (arr ! 3)))
     else ret)"

section \<open>Decimal numbers and time intervals\<close>

text \<open>\<^verbatim>\<open>std::to_string\<close> of an unsigned number\<close>

fun to_string :: "nat \<Rightarrow> blob" where
  "to_string n = (if n < 10 then [of_nat (48 + n)] else to_string (n div 10) @ [of_nat (48 + n mod 10)])"

declare to_string.simps [simp del]

definition timeIntervalToString :: "u64 \<Rightarrow> blob" where
  "timeIntervalToString intervalInSeconds =
    (let tail = intervalInSeconds;
         days = tail div (60 * 60 * 24);
         tail = tail mod (60 * 60 * 24);
         hours = tail div (60 * 60);
         tail = tail mod (60 * 60);
         minutes = tail div 60;
         tail = tail mod 60;
         seconds = tail
     in map of_char ''d'' @ to_string (unat days) @ map of_char ''.h'' @ to_string (unat hours)
        @ map of_char ''.m'' @ to_string (unat minutes) @ map of_char ''.s'' @ to_string (unat seconds))"

section \<open>Hexadecimal text is inverted\<close>

lemma hex_digits_codes [code]: "hex_digits = [48, 49, 50, 51, 52, 53, 54, 55, 56, 57, 97, 98, 99, 100, 101, 102]"
  by (simp add: hex_digits_def)

lemma hex_digits_table:
  "list_all (\<lambda>n. characterValues ! unat (hex_digits ! n) = of_nat n) [0..<16]"
  by code_simp

lemma hex_digit_value: "n < 16 \<Longrightarrow> characterValues ! unat (hex_digits ! n) = of_nat n"
  using hex_digits_table by (simp add: list_all_iff)

lemma unat_nibbles: "unat (drop_bit 4 b) < 16" "unat (b AND 15) < 16" for b :: u8
proof -
  have "(15 :: u8) = mask 4" by (simp add: mask_eq_exp_minus_1)
  then show "unat (b AND 15) < 16" by (simp only: unat_and_mask) simp
  show "unat (drop_bit 4 b) < 16" using unat_u8_bound [of b] by (simp add: unat_drop_bit less_mult_imp_div_less)
qed

lemma nibbles_join: "push_bit 4 (drop_bit 4 b) OR (b AND 15) = b" for b :: u8
proof -
  have m: "(15 :: u8) = mask 4" by (simp add: mask_eq_exp_minus_1)
  show ?thesis unfolding m by (rule bit_word_eqI) (auto simp: bit_simps)
qed

lemma fromHex_digit: "n < 16 \<Longrightarrow> fromHex_char (hex_digits ! n) = Some (of_nat n)"
  by (simp add: fromHex_char_def hex_digit_value word_less_nat_alt unat_of_nat)

lemma fold_append: "fold (\<lambda>x acc. acc @ f x) xs acc = acc @ concat (map f xs)"
  by (induction xs arbitrary: acc) simp_all

lemma toHex_append_concat:
  "toHex_append data acc
    = acc @ concat (map (\<lambda>b. [hex_digits ! unat (drop_bit 4 b)] @ [hex_digits ! unat (b AND 15)]) data)"
  unfolding toHex_append_def by (rule fold_append)

lemma toHex_append_eq: "toHex_append data acc = acc @ toHex data"
  by (simp add: toHex_def toHex_append_concat)

lemma toHex_Nil [simp]: "toHex [] = []"
  by (simp add: toHex_def toHex_append_concat)

lemma toHex_Cons: "toHex (b # data) = hex_digits ! unat (drop_bit 4 b) # hex_digits ! unat (b AND 15) # toHex data"
  by (simp add: toHex_def toHex_append_concat)

lemma length_toHex [simp]: "length (toHex data) = 2 * length data"
  by (induction data) (simp_all add: toHex_Cons)

lemma hex_pairs_toHex: "hex_pairs (toHex data) acc = (True, acc @ data)"
proof (induction data arbitrary: acc)
  case (Cons b data)
  then show ?case by (simp add: toHex_Cons fromHex_digit unat_nibbles nibbles_join)
qed simp

text \<open>The functions that throw succeed exactly when the others do, with the same bytes.\<close>

lemma fromHex_char_agree: "fromHex_char_throw c = (case fromHex_char c of None \<Rightarrow> Inl HexCharacter | Some v \<Rightarrow> Inr v)"
  by (simp add: fromHex_char_throw_def fromHex_char_def Let_def)

lemma hex_pairs_agree:
  "hex_pairs_throw text = Inr data \<longleftrightarrow> hex_pairs text acc = (True, acc @ data)"
proof (induction "text" arbitrary: acc data rule: hex_pairs_throw.induct)
  case (1 a b "text")
  show ?case
  proof (cases "fromHex_char a"; cases "fromHex_char b")
    fix v1 v2 assume v: "fromHex_char a = Some v1" "fromHex_char b = Some v2"
    show ?thesis
    proof (cases data)
      case Nil
      have "\<not> hex_pairs text (acc @ [push_bit 4 v1 OR v2]) = (True, acc)"
      proof
        assume h: "hex_pairs text (acc @ [push_bit 4 v1 OR v2]) = (True, acc)"
        have "length (snd (hex_pairs t x)) \<ge> length x" for t x
          by (induction t x rule: hex_pairs.induct) (auto split: option.splits dest: Suc_leD)
        from this [of "acc @ [push_bit 4 v1 OR v2]" "text"] h show False by simp
      qed
      then show ?thesis using v Nil by (auto simp: fromHex_char_agree bindR_eq_Inr)
    next
      case (Cons x xs)
      have "hex_pairs text (acc @ [push_bit 4 v1 OR v2]) = (True, acc @ data) \<Longrightarrow> x = push_bit 4 v1 OR v2"
      proof -
        assume h: "hex_pairs text (acc @ [push_bit 4 v1 OR v2]) = (True, acc @ data)"
        have "\<exists>z. snd (hex_pairs t y) = y @ z" for t y
          by (induction t y rule: hex_pairs.induct) (auto split: option.splits)
        from this [of "text" "acc @ [push_bit 4 v1 OR v2]"] h Cons show ?thesis by auto
      qed
      then show ?thesis
        using v Cons 1 [of v1 v2 xs "acc @ [push_bit 4 v1 OR v2]"]
        by (auto simp: fromHex_char_agree bindR_eq_Inr)
    qed
  qed (auto simp: fromHex_char_agree bindR_eq_Inr)
qed auto

lemma fromHex_throw_toHex: "fromHex_throw (toHex data) = Inr data"
  using hex_pairs_agree [of "toHex data" data "[]"] by (simp add: fromHex_throw_def hex_pairs_toHex)

lemma fromHex_buffer_toHex: "length data \<le> n \<Longrightarrow> fromHex_buffer (toHex data) n = Some (data, length data)"
  by (simp add: fromHex_buffer_def hex_pairs_toHex)

lemma podFromHex_podToHex: "length data = n \<Longrightarrow> podFromHex n (podToHex data) = Some data"
  by (simp add: podFromHex_def podToHex_def fromHex_buffer_toHex)

lemma length_hex_pairs: "hex_pairs text acc = (True, data) \<Longrightarrow> length data = length acc + length text div 2"
  by (induction "text" acc rule: hex_pairs.induct) (auto split: option.splits)

lemma podFromHex_length: "podFromHex n text = Some data \<Longrightarrow> length data = n \<and> length text = 2 * n"
  by (auto simp: podFromHex_def fromHex_buffer_def split: option.splits if_splits prod.splits dest: length_hex_pairs)

section \<open>The Base64 decoder inverts the standard encoding\<close>

definition sextet1 :: "u8 \<Rightarrow> u8" where
  "sextet1 a = drop_bit 2 a"

definition sextet2 :: "u8 \<Rightarrow> u8 \<Rightarrow> u8" where
  "sextet2 a b = push_bit 4 (a AND 0x3) OR drop_bit 4 b"

definition sextet3 :: "u8 \<Rightarrow> u8 \<Rightarrow> u8" where
  "sextet3 b c = push_bit 2 (b AND 0xf) OR drop_bit 6 c"

definition sextet4 :: "u8 \<Rightarrow> u8" where
  "sextet4 c = c AND 0x3f"

fun base64_encode :: "blob \<Rightarrow> blob" where
  "base64_encode (a # b # c # rest) =
    map (\<lambda>s. base64chars ! unat s) [sextet1 a, sextet2 a b, sextet3 b c, sextet4 c] @ base64_encode rest"
| "base64_encode [a, b] = map (\<lambda>s. base64chars ! unat s) [sextet1 a, sextet2 a b, sextet3 b 0] @ [61]"
| "base64_encode [a] = map (\<lambda>s. base64chars ! unat s) [sextet1 a, sextet2 a 0] @ [61, 61]"
| "base64_encode [] = []"

lemma base64chars_codes [code]: "base64chars = [
    65, 66, 67, 68, 69, 70, 71, 72, 73, 74, 75, 76, 77, 78, 79, 80, 81, 82, 83, 84, 85, 86, 87, 88, 89,
    90, 97, 98, 99, 100, 101, 102, 103, 104, 105, 106, 107, 108, 109, 110, 111, 112, 113, 114, 115, 116,
    117, 118, 119, 120, 121, 122, 48, 49, 50, 51, 52, 53, 54, 55, 56, 57, 43, 47]"
  by (simp add: base64chars_def)

lemma base64_table:
  "list_all (\<lambda>n. base64_find (base64chars ! n) = of_nat n \<and> is_base64 (base64chars ! n) \<and> base64chars ! n \<noteq> 61) [0..<64]"
  by code_simp

lemma base64_sextet:
  assumes "drop_bit 6 s = (0 :: u8)"
  shows "base64_find (base64chars ! unat s) = s" "is_base64 (base64chars ! unat s)" "base64chars ! unat s \<noteq> 61"
proof -
  have "unat s div 2 ^ 6 = 0" using assms unat_drop_bit [of 6 s] by simp
  then have "unat s < 64" by (simp add: div_eq_0_iff)
  with base64_table show "base64_find (base64chars ! unat s) = s" "is_base64 (base64chars ! unat s)" "base64chars ! unat s \<noteq> 61"
    by (auto simp: list_all_iff)
qed

lemma byte_masks: "(0x3 :: u8) = mask 2" "(0xf :: u8) = mask 4" "(0x3f :: u8) = mask 6"
  "(0x30 :: u8) = push_bit 4 (mask 2)" "(0x3c :: u8) = push_bit 2 (mask 4)"
  by (simp_all add: mask_eq_exp_minus_1)

lemmas sextet_defs = sextet1_def sextet2_def sextet3_def sextet4_def byte_masks

lemma sextets:
  "drop_bit 6 (sextet1 a) = 0" "drop_bit 6 (sextet2 a b) = 0" "drop_bit 6 (sextet3 b c) = 0" "drop_bit 6 (sextet4 c) = 0"
  unfolding sextet_defs by (rule bit_word_eqI; auto simp: bit_simps)+

lemmas sextet_find = base64_sextet [OF sextets(1)] base64_sextet [OF sextets(2)] base64_sextet [OF sextets(3)]
  base64_sextet [OF sextets(4)]

lemma byte_sum:
  fixes x y z :: u8
  assumes "\<And>n. n \<in> {0, 1, 2, 3, 4, 5, 6, 7} \<Longrightarrow> bit z n = (bit x n \<or> bit y n) \<and> \<not> (bit x n \<and> bit y n)"
  shows "x + y = z"
proof -
  have small: "n \<in> {0, 1, 2, 3, 4, 5, 6, 7}" if "n < 8" for n :: nat using that by auto
  have "x AND y = 0"
    by (rule bit_word_eqI) (use assms small in \<open>auto simp: bit_simps\<close>)
  then have "x + y = x OR y" by (rule disjunctive_add_eq_or)
  also have "\<dots> = z"
    by (rule bit_word_eqI) (use assms small in \<open>auto simp: bit_simps\<close>)
  finally show ?thesis .
qed

lemma triple_bytes:
  "push_bit 2 (sextet1 a) + drop_bit 4 (sextet2 a b AND 0x30) = a"
  "push_bit 4 (sextet2 a b AND 0xf) + drop_bit 2 (sextet3 b c AND 0x3c) = b"
  "push_bit 6 (sextet3 b c AND 0x3) + sextet4 c = c"
  unfolding sextet_defs by (rule byte_sum; auto simp: bit_simps numeral_2_eq_2 [symmetric])+

lemma base64_triple_sextets:
  "base64_triple (sextet1 a) (sextet2 a b) (sextet3 b c) (sextet4 c) = [a, b, c]"
  "take (Suc (Suc 0)) (base64_triple (sextet1 a) (sextet2 a b) (sextet3 b c) d) = [a, b]"
  "take (Suc 0) (base64_triple (sextet1 a) (sextet2 a b) d e) = [a]"
  unfolding base64_triple_def triple_bytes by simp_all

lemma base64Decode_append:
  "base64_loop data arr (ret @ ret') = (case base64_loop data arr ret' of (arr, r) \<Rightarrow> (arr, ret @ r))"
proof (induction data arr ret' rule: base64_loop.induct)
  case (2 c cs arr ret')
  then show ?case by (auto simp: Let_def)
qed simp

lemma base64Decode_encode: "base64Decode (base64_encode data) = data"
proof (induction data rule: base64_encode.induct)
  case (1 a b c rest)
  have "base64_loop (base64_encode (a # b # c # rest)) [] [] = base64_loop (base64_encode rest) [] ([a, b, c] @ [])"
    by (simp add: sextet_find base64_triple_sextets)
  also have "\<dots> = (case base64_loop (base64_encode rest) [] [] of (arr, r) \<Rightarrow> (arr, [a, b, c] @ r))"
    by (rule base64Decode_append)
  finally show ?case
    using 1 by (auto simp: base64Decode_def Let_def split: prod.splits if_splits)
next
  case (2 a b)
  then show ?case
    by (simp add: base64Decode_def sextet_find base64_triple_sextets)
next
  case (3 a)
  then show ?case
    by (simp add: base64Decode_def sextet_find base64_triple_sextets)
qed (simp add: base64Decode_def)

end
