(* ===== verification/TransactionExtra.thy ===== *)
theory TransactionExtra
  imports OrbisSerialization StringTools
begin

text \<open>
  \<^verbatim>\<open>src/OrbisCore/TransactionExtra.{h,cpp}\<close>: the extra field of a transaction, a sequence of padding,
  public key and nonce fields, and the payment id kept in a nonce. The parser is shown to accept
  exactly the byte strings that the relation \<open>extra_layout\<close> describes.
\<close>

section \<open>Operations\<close>

definition TX_EXTRA_PADDING_MAX_COUNT :: nat where
  "TX_EXTRA_PADDING_MAX_COUNT = 255"

definition TX_EXTRA_NONCE_MAX_COUNT :: nat where
  "TX_EXTRA_NONCE_MAX_COUNT = 255"

definition TX_EXTRA_TAG_PADDING :: u8 where
  "TX_EXTRA_TAG_PADDING = 0x00"

definition TX_EXTRA_TAG_PUBKEY :: u8 where
  "TX_EXTRA_TAG_PUBKEY = 0x01"

definition TX_EXTRA_NONCE :: u8 where
  "TX_EXTRA_NONCE = 0x02"

definition TX_EXTRA_NONCE_PAYMENT_ID :: u8 where
  "TX_EXTRA_NONCE_PAYMENT_ID = 0x00"

lemmas tx_extra_tags = TX_EXTRA_TAG_PADDING_def TX_EXTRA_TAG_PUBKEY_def TX_EXTRA_NONCE_def

datatype TransactionExtraField =
    TransactionExtraPadding nat
  | TransactionExtraPublicKey PublicKey
  | TransactionExtraNonce blob

text \<open>\<^verbatim>\<open>findTransactionExtraFieldByType\<close> at the two types it is used with.\<close>

fun find_public_key :: "TransactionExtraField list \<Rightarrow> PublicKey option" where
  "find_public_key [] = None"
| "find_public_key (TransactionExtraPublicKey k # fs) = Some k"
| "find_public_key (f # fs) = find_public_key fs"

fun find_nonce :: "TransactionExtraField list \<Rightarrow> blob option" where
  "find_nonce [] = None"
| "find_nonce (TransactionExtraNonce n # fs) = Some n"
| "find_nonce (f # fs) = find_nonce fs"

text \<open>
  The loop over the padding; \<open>None\<close> is \<^verbatim>\<open>return false\<close>, for a byte that is not zero or an exception of
  the stream.
\<close>

function parse_padding :: "nat \<Rightarrow> memory_input_stream \<Rightarrow> (nat \<times> memory_input_stream) option" where
  "parse_padding sz s =
    (if \<not> endOfStream s \<and> sz \<le> TX_EXTRA_PADDING_MAX_COUNT
     then case read_value s of
         Inl _ \<Rightarrow> None
       | Inr (b :: u8, s) \<Rightarrow> if b \<noteq> 0 then None else parse_padding (sz + 1) s
     else Some (sz, s))"
  by pat_completeness auto
termination
  by (relation "measure (\<lambda>(sz, s). left s)") (auto dest: read_value_left)

lemma parse_padding_left: "parse_padding sz s = Some (n, s') \<Longrightarrow> left s' \<le> left s"
proof (induction sz s rule: parse_padding.induct)
  case (1 sz s)
  show ?case
  proof (cases "\<not> endOfStream s \<and> sz \<le> TX_EXTRA_PADDING_MAX_COUNT")
    case True
    with 1(2) obtain t where t: "read_value s = Inr (0 :: u8, t)" "parse_padding (sz + 1) t = Some (n, s')"
      by (auto simp: parse_padding.simps [of sz s] split: sum.splits if_splits)
    with 1(1) [OF True t(1) refl] read_value_left [OF t(1)] show ?thesis by simp
  next
    case False
    with 1(2) show ?thesis by (auto simp: parse_padding.simps [of sz s])
  qed
qed

declare parse_padding.simps [simp del]

text \<open>
  The body of the loop of \<^verbatim>\<open>parseTransactionExtra\<close>: the fields it appends (at most one), or \<open>None\<close> where
  it returns false or the stream throws. The fields found so far stay in the vector when the parser
  gives up, so they are part of the result of the loop.
\<close>

definition parse_field :: "memory_input_stream \<Rightarrow> (TransactionExtraField list \<times> memory_input_stream) option" where
  "parse_field s =
    (case read_value s of
       Inl _ \<Rightarrow> None
     | Inr (c :: u8, s) \<Rightarrow>
         if c = TX_EXTRA_TAG_PADDING
         then (case parse_padding 1 s of
             None \<Rightarrow> None
           | Some (sz, s) \<Rightarrow> if TX_EXTRA_PADDING_MAX_COUNT < sz then None else Some ([TransactionExtraPadding sz], s))
         else if c = TX_EXTRA_TAG_PUBKEY
         then (case in_pod 32 s of
             Inl _ \<Rightarrow> None
           | Inr (k, s) \<Rightarrow> Some ([TransactionExtraPublicKey k], s))
         else if c = TX_EXTRA_NONCE
         then (case read_value s of
             Inl _ \<Rightarrow> None
           | Inr (sz :: u8, s) \<Rightarrow>
               if 0 < sz
               then (case read readSome s (unat sz) of
                   Inl _ \<Rightarrow> None
                 | Inr (n, s) \<Rightarrow> Some ([TransactionExtraNonce n], s))
               else Some ([TransactionExtraNonce []], s))
         else Some ([], s))"

lemma parse_field_left: "parse_field s = Some (f, s') \<Longrightarrow> left s' < left s"
  by (auto simp: parse_field_def in_pod_def in_binary_def split: sum.splits option.splits if_splits
      dest!: read_value_left read_left parse_padding_left)

function parse_fields :: "memory_input_stream \<Rightarrow> TransactionExtraField list \<Rightarrow> bool \<times> TransactionExtraField list" where
  "parse_fields s fs =
    (if endOfStream s then (True, fs)
     else case parse_field s of
         None \<Rightarrow> (False, fs)
       | Some (f, s) \<Rightarrow> parse_fields s (fs @ f))"
  by pat_completeness auto
termination
  by (relation "measure (\<lambda>(s, fs). left s)") (auto dest: parse_field_left)

declare parse_fields.simps [simp del]

definition parseTransactionExtra :: "blob \<Rightarrow> bool \<times> TransactionExtraField list" where
  "parseTransactionExtra transactionExtra =
    (if transactionExtra = [] then (True, []) else parse_fields (MemoryInputStream transactionExtra) [])"

definition addTransactionPublicKeyToExtra :: "blob \<Rightarrow> PublicKey \<Rightarrow> blob" where
  "addTransactionPublicKeyToExtra tx_extra tx_pub_key = tx_extra @ [TX_EXTRA_TAG_PUBKEY] @ tx_pub_key"

definition addExtraNonceToTransactionExtra :: "blob \<Rightarrow> blob \<Rightarrow> blob option" where
  "addExtraNonceToTransactionExtra tx_extra extra_nonce =
    (if TX_EXTRA_NONCE_MAX_COUNT < length extra_nonce then None
     else Some (tx_extra @ [TX_EXTRA_NONCE] @ [of_nat (length extra_nonce)] @ extra_nonce))"

text \<open>\<^verbatim>\<open>ExtraSerializerVisitor\<close>\<close>

fun extra_visitor :: "blob \<Rightarrow> TransactionExtraField \<Rightarrow> blob option" where
  "extra_visitor tx_extra (TransactionExtraPadding sz) =
    (if TX_EXTRA_PADDING_MAX_COUNT < sz then None else Some (tx_extra @ replicate sz 0))"
| "extra_visitor tx_extra (TransactionExtraPublicKey k) = Some (addTransactionPublicKeyToExtra tx_extra k)"
| "extra_visitor tx_extra (TransactionExtraNonce n) = addExtraNonceToTransactionExtra tx_extra n"

fun writeTransactionExtra :: "blob \<Rightarrow> TransactionExtraField list \<Rightarrow> blob option" where
  "writeTransactionExtra tx_extra [] = Some tx_extra"
| "writeTransactionExtra tx_extra (f # fs) =
    (case extra_visitor tx_extra f of None \<Rightarrow> None | Some e \<Rightarrow> writeTransactionExtra e fs)"

text \<open>A value-initialized key is all zero bytes; the result of the parser is ignored here.\<close>

definition NULL_PUBLIC_KEY :: PublicKey where
  "NULL_PUBLIC_KEY = replicate 32 0"

definition getTransactionPublicKeyFromExtra :: "blob \<Rightarrow> PublicKey" where
  "getTransactionPublicKeyFromExtra tx_extra =
    (let (_, tx_extra_fields) = parseTransactionExtra tx_extra in
     case find_public_key tx_extra_fields of None \<Rightarrow> NULL_PUBLIC_KEY | Some k \<Rightarrow> k)"

definition setPaymentIdToTransactionExtraNonce :: "Hash \<Rightarrow> blob" where
  "setPaymentIdToTransactionExtraNonce payment_id = [TX_EXTRA_NONCE_PAYMENT_ID] @ payment_id"

definition getPaymentIdFromTransactionExtraNonce :: "blob \<Rightarrow> Hash option" where
  "getPaymentIdFromTransactionExtraNonce extra_nonce =
    (if 32 + 1 \<noteq> length extra_nonce then None
     else if TX_EXTRA_NONCE_PAYMENT_ID \<noteq> extra_nonce ! 0 then None
     else Some (drop 1 extra_nonce))"

definition parsePaymentId :: "blob \<Rightarrow> Hash option" where
  "parsePaymentId paymentIdString = podFromHex 32 paymentIdString"

definition createTxExtraWithPaymentId :: "blob \<Rightarrow> blob \<Rightarrow> blob option" where
  "createTxExtraWithPaymentId paymentIdString extra0 =
    (case parsePaymentId paymentIdString of
       None \<Rightarrow> None
     | Some paymentIdBin \<Rightarrow> addExtraNonceToTransactionExtra extra0 (setPaymentIdToTransactionExtraNonce paymentIdBin))"

definition getPaymentIdFromTxExtra :: "blob \<Rightarrow> Hash option" where
  "getPaymentIdFromTxExtra extra0 =
    (let (ok, tx_extra_fields) = parseTransactionExtra extra0 in
     if \<not> ok then None
     else case find_nonce tx_extra_fields of
         None \<Rightarrow> None
       | Some extra_nonce \<Rightarrow> getPaymentIdFromTransactionExtraNonce extra_nonce)"

section \<open>The format of the extra field\<close>

text \<open>Bytes that are no tag are skipped; padding runs to the end of the field.\<close>

inductive extra_layout :: "blob \<Rightarrow> TransactionExtraField list \<Rightarrow> bool" where
  layout_end: "extra_layout [] []"
| layout_skip: "2 < unat b \<Longrightarrow> extra_layout bs fs \<Longrightarrow> extra_layout (b # bs) fs"
| layout_padding: "0 < n \<Longrightarrow> n \<le> 255 \<Longrightarrow> extra_layout (replicate n 0) [TransactionExtraPadding n]"
| layout_key: "length k = 32 \<Longrightarrow> extra_layout bs fs \<Longrightarrow> extra_layout (1 # k @ bs) (TransactionExtraPublicKey k # fs)"
| layout_nonce: "length n \<le> 255 \<Longrightarrow> extra_layout bs fs \<Longrightarrow>
    extra_layout (2 # of_nat (length n) # n @ bs) (TransactionExtraNonce n # fs)"

lemma endOfStream_iff: "mis_ok s \<Longrightarrow> endOfStream s \<longleftrightarrow> unread s = []"
  by (auto simp: endOfStream_def mis_ok_def unread_def)

lemma at_unread: "mis_ok s \<Longrightarrow> unread s = bs @ rest \<Longrightarrow> at_bytes s bs"
  by (simp add: at_bytes_def)

lemma unread_at: "at_bytes s bs \<Longrightarrow> unread s = bs @ unread (advance s (length bs))"
  by (metis at_bytes_def append_take_drop_id unread_advance)

lemma mis_ok_advance: "mis_ok s \<Longrightarrow> n \<le> length (unread s) \<Longrightarrow> mis_ok (advance s n)"
  by (auto simp: mis_ok_def advance_def unread_def)

lemma read_head:
  assumes "mis_ok s" and "unread s = b # bs"
  shows "read_value s = Inr (b :: u8, advance s 1)" "\<not> endOfStream s" "mis_ok (advance s 1)" "unread (advance s 1) = bs"
  using read_u8_at [of s b] at_unread [of s "[b]" bs] endOfStream_iff [of s] mis_ok_advance [of s 1] assms by auto

lemma read_prefix:
  assumes "mis_ok s" and "unread s = bs @ rest"
  shows "read readSome s (length bs) = Inr (bs, advance s (length bs))" "mis_ok (advance s (length bs))"
    "unread (advance s (length bs)) = rest"
  using read_at [of s bs] at_unread [OF assms] mis_ok_advance [of s "length bs"] assms by auto

lemma parse_padding_zeros:
  "mis_ok s \<Longrightarrow> unread s = replicate n 0 \<Longrightarrow> sz + n \<le> 255 \<Longrightarrow>
   \<exists>s'. parse_padding sz s = Some (sz + n, s') \<and> mis_ok s' \<and> unread s' = []"
proof (induction n arbitrary: sz s)
  case 0
  then show ?case by (simp add: parse_padding.simps [of sz s] endOfStream_iff)
next
  case (Suc n)
  then have u: "unread s = 0 # replicate n 0" by simp
  note h = read_head [OF Suc.prems(1) u]
  from Suc.IH [OF h(3,4), of "sz + 1"] Suc.prems(3)
  show ?case using h by (simp add: parse_padding.simps [of sz s] TX_EXTRA_PADDING_MAX_COUNT_def)
qed

text \<open>One field in front of the rest of the extra field, and how the loop body reads it.\<close>

inductive field_layout :: "blob \<Rightarrow> TransactionExtraField list \<Rightarrow> blob \<Rightarrow> bool" where
  field_skip: "2 < unat b \<Longrightarrow> field_layout (b # bs) [] bs"
| field_padding: "0 < n \<Longrightarrow> n \<le> 255 \<Longrightarrow> field_layout (replicate n 0) [TransactionExtraPadding n] []"
| field_key: "length k = 32 \<Longrightarrow> field_layout (1 # k @ bs) [TransactionExtraPublicKey k] bs"
| field_nonce: "length n \<le> 255 \<Longrightarrow> field_layout (2 # of_nat (length n) # n @ bs) [TransactionExtraNonce n] bs"

lemma parse_field_layout:
  "field_layout bs f rest \<Longrightarrow> mis_ok s \<Longrightarrow> unread s = bs \<Longrightarrow>
   \<exists>s'. parse_field s = Some (f, s') \<and> mis_ok s' \<and> unread s' = rest"
proof (induction rule: field_layout.induct)
  case (field_skip b bs)
  note h = read_head [OF field_skip.prems]
  from field_skip.hyps(1) have "b \<noteq> 0" "b \<noteq> 1" "b \<noteq> 2" by auto
  with h show ?case by (simp add: parse_field_def tx_extra_tags)
next
  case (field_padding n)
  then have u: "unread s = 0 # replicate (n - 1) 0" by (cases n) auto
  note h = read_head [OF field_padding.prems(1) u]
  from parse_padding_zeros [OF h(3,4), of 1] field_padding.hyps obtain s' where
    "parse_padding 1 (advance s 1) = Some (n, s')" "mis_ok s'" "unread s' = []" by auto
  with h(1) field_padding.hyps show ?case by (simp add: parse_field_def tx_extra_tags TX_EXTRA_PADDING_MAX_COUNT_def)
next
  case (field_key k bs)
  note h = read_head [OF field_key.prems]
  note r = read_prefix [OF h(3,4)]
  from h(1) r field_key.hyps show ?case by (simp add: parse_field_def tx_extra_tags in_pod_def in_binary_def)
next
  case (field_nonce n bs)
  note h = read_head [OF field_nonce.prems]
  note h' = read_head [OF h(3,4)]
  note r = read_prefix [OF h'(3,4)]
  have len: "unat (of_nat (length n) :: u8) = length n" using field_nonce.hyps(1) by (simp add: unat_of_nat)
  then have pos: "0 < (of_nat (length n) :: u8) \<longleftrightarrow> n \<noteq> []" by (auto simp: word_less_nat_alt)
  from h(1) h' r len pos show ?case by (cases "n = []") (simp_all add: parse_field_def tx_extra_tags)
qed

lemma parse_padding_sound:
  "mis_ok s \<Longrightarrow> parse_padding sz s = Some (n, s') \<Longrightarrow> n \<le> 255 \<Longrightarrow>
   sz \<le> n \<and> unread s = replicate (n - sz) 0 \<and> mis_ok s' \<and> unread s' = []"
proof (induction sz s rule: parse_padding.induct)
  case (1 sz s)
  show ?case
  proof (cases "\<not> endOfStream s \<and> sz \<le> TX_EXTRA_PADDING_MAX_COUNT")
    case True
    with "1.prems"(2) obtain t where t: "read_value s = Inr (0 :: u8, t)" "parse_padding (sz + 1) t = Some (n, s')"
      by (auto simp: parse_padding.simps [of sz s] split: sum.splits if_splits)
    from read_u8_sound [OF "1.prems"(1) t(1)] have at: "at_bytes s [0]" "t = advance s 1" by auto
    then have ok: "mis_ok t" "unread s = 0 # unread t" using at_bytes_mis_ok [OF at(1)] unread_at [OF at(1)] by auto
    from "1.IH" [OF True t(1) refl _ ok(1) t(2) "1.prems"(3)]
    have ih: "sz + 1 \<le> n" "unread t = replicate (n - (sz + 1)) 0" "mis_ok s'" "unread s' = []" by auto
    from ih(1) have "n - sz = Suc (n - (sz + 1))" by simp
    with ih ok(2) show ?thesis by simp
  next
    case False
    with "1.prems" show ?thesis
      by (auto simp: parse_padding.simps [of sz s] endOfStream_iff TX_EXTRA_PADDING_MAX_COUNT_def)
  qed
qed

lemma read_head_sound:
  assumes "mis_ok s" and "read_value s = Inr (c :: u8, t)"
  shows "mis_ok t" "unread s = c # unread t"
proof -
  from read_u8_sound [OF assms] have "at_bytes s [c]" "t = advance s 1" by auto
  then show "mis_ok t" "unread s = c # unread t" using at_bytes_mis_ok [of s "[c]"] unread_at [of s "[c]"] by auto
qed

lemma read_prefix_sound:
  assumes "mis_ok s" and "read readSome s n = Inr (bs, t)"
  shows "length bs = n" "mis_ok t" "unread s = bs @ unread t"
proof -
  from read_sound [OF assms] have "length bs = n" "at_bytes s bs" "t = advance s n" by auto
  then show "length bs = n" "mis_ok t" "unread s = bs @ unread t"
    using at_bytes_mis_ok [of s bs] unread_at [of s bs] by auto
qed

lemma above_tags: "c \<noteq> 0 \<Longrightarrow> c \<noteq> 1 \<Longrightarrow> c \<noteq> 2 \<Longrightarrow> 2 < unat c" for c :: u8
proof (rule ccontr)
  assume c: "c \<noteq> 0" "c \<noteq> 1" "c \<noteq> 2" "\<not> 2 < unat c"
  then have "unat c = 0 \<or> unat c = 1 \<or> unat c = 2" by linarith
  then have "of_nat (unat c) = c \<longrightarrow> c = 0 \<or> c = 1 \<or> c = 2" by fastforce
  with c show False by simp
qed

lemma parse_field_sound:
  assumes ok: "mis_ok s" and "parse_field s = Some (f, s')"
  shows "field_layout (unread s) f (unread s') \<and> mis_ok s'"
proof -
  from assms(2) obtain c t where ct: "read_value s = Inr (c :: u8, t)" by (auto simp: parse_field_def split: sum.splits)
  note h = read_head_sound [OF ok ct]
  note step = assms(2) [unfolded parse_field_def ct tx_extra_tags, simplified]
  consider "c = 0" | "c = 1" | "c = 2" | "c \<noteq> 0" "c \<noteq> 1" "c \<noteq> 2" by blast
  then show ?thesis
  proof cases
    case 1
    with step obtain sz where u: "parse_padding 1 t = Some (sz, s')" "sz \<le> 255" "f = [TransactionExtraPadding sz]"
      by (auto simp: TX_EXTRA_PADDING_MAX_COUNT_def not_less split: option.splits if_splits)
    from parse_padding_sound [OF h(1) u(1,2)] have p: "1 \<le> sz" "unread t = replicate (sz - 1) 0" "mis_ok s'" "unread s' = []"
      by auto
    from p(1,2) h(2) 1 have "unread s = replicate sz 0" by (cases sz) auto
    then show ?thesis using field_padding [of sz] p u by auto
  next
    case 2
    with step obtain k where u: "read readSome t 32 = Inr (k, s')" "f = [TransactionExtraPublicKey k]"
      by (auto simp: in_pod_def in_binary_def split: sum.splits)
    from read_prefix_sound [OF h(1) u(1)] h(2) 2 u(2) show ?thesis using field_key [of k "unread s'"] by simp
  next
    case 3
    with step obtain sz u where sz: "read_value t = Inr (sz :: u8, u)" by (auto split: sum.splits)
    note h' = read_head_sound [OF h(1) sz]
    show ?thesis
    proof (cases "0 < sz")
      case True
      with step sz 3 obtain n where n: "read readSome u (unat sz) = Inr (n, s')" "f = [TransactionExtraNonce n]"
        by (auto split: sum.splits)
      note r = read_prefix_sound [OF h'(1) n(1)]
      have "length n \<le> 255" using r(1) unat_u8_bound [of sz] by simp
      from field_nonce [OF this, of "unread s'"] r h(2) h'(2) 3 n(2) show ?thesis by simp
    next
      case False
      with step sz 3 have "f = [TransactionExtraNonce []]" "s' = u" by auto
      moreover from False have "sz = 0" by (simp add: word_less_nat_alt unat_eq_zero)
      ultimately show ?thesis using field_nonce [of "[]" "unread u"] h(2) h' 3 by simp
    qed
  next
    case 4
    with step have "f = []" "s' = t" by auto
    with field_skip [OF above_tags [OF 4], of "unread t"] h show ?thesis by simp
  qed
qed

lemma extra_layout_step:
  "field_layout bs f rest \<Longrightarrow> extra_layout rest fs \<Longrightarrow> extra_layout bs (f @ fs)"
  by (induction rule: field_layout.induct)
    (auto intro: extra_layout.intros elim: extra_layout.cases)

lemma parse_fields_sound:
  "mis_ok s \<Longrightarrow> parse_fields s acc = (True, gs) \<Longrightarrow> \<exists>fs. gs = acc @ fs \<and> extra_layout (unread s) fs"
proof (induction s acc rule: parse_fields.induct)
  case (1 s acc)
  show ?case
  proof (cases "endOfStream s")
    case True
    with "1.prems" show ?thesis by (auto simp: parse_fields.simps [of s] endOfStream_iff intro: layout_end)
  next
    case False
    with "1.prems"(2) obtain f t where f: "parse_field s = Some (f, t)" "parse_fields t (acc @ f) = (True, gs)"
      by (auto simp: parse_fields.simps [of s] split: option.splits)
    note l = parse_field_sound [OF "1.prems"(1) f(1)]
    from "1.IH" [OF False f(1) refl conjunct2 [OF l] f(2)] l show ?thesis by (auto intro: extra_layout_step)
  qed
qed

lemma layout_nonempty: "field_layout bs f rest \<Longrightarrow> bs \<noteq> []"
  by (induction rule: field_layout.induct) auto

lemma parse_fields_step:
  assumes "field_layout (unread s) f rest" and "mis_ok s"
  obtains s' where "mis_ok s'" and "unread s' = rest" and "\<And>acc. parse_fields s acc = parse_fields s' (acc @ f)"
proof -
  from parse_field_layout [OF assms(1,2) refl] obtain s' where "parse_field s = Some (f, s')" "mis_ok s'" "unread s' = rest"
    by blast
  with layout_nonempty [OF assms(1)] assms(2) that [of s'] show ?thesis
    by (simp add: parse_fields.simps [of s] endOfStream_iff)
qed

lemma extra_layout_cases:
  assumes "extra_layout bs fs"
  obtains "bs = []" and "fs = []" | f rest gs where "field_layout bs f rest" and "extra_layout rest gs" and "fs = f @ gs"
    and "length rest < length bs"
  using assms
proof cases
  case (layout_padding n)
  with that(2) [of "[TransactionExtraPadding n]" "[]" "[]"] field_padding [of n] show ?thesis by (auto intro: layout_end)
qed (use that in \<open>force intro: field_layout.intros\<close>)+

lemma parse_fields_layout:
  "extra_layout bs fs \<Longrightarrow> mis_ok s \<Longrightarrow> unread s = bs \<Longrightarrow> parse_fields s acc = (True, acc @ fs)"
proof (induction bs arbitrary: s acc fs rule: length_induct)
  case (1 bs)
  from "1.prems"(1) show ?case
  proof (cases rule: extra_layout_cases)
    case 1
    with "1.prems" show ?thesis by (simp add: parse_fields.simps [of s] endOfStream_iff)
  next
    case (2 f rest gs)
    with parse_fields_step [of s f rest] "1.prems" obtain s' where
      "mis_ok s'" "unread s' = rest" "\<And>acc. parse_fields s acc = parse_fields s' (acc @ f)" by blast
    with 2 "1.IH" show ?thesis by simp
  qed
qed

lemma unread_memory [simp]: "unread (MemoryInputStream bs) = bs" "mis_ok (MemoryInputStream bs)"
  by (simp_all add: unread_def MemoryInputStream_def mis_ok_def)

lemma parse_extra_iff: "parseTransactionExtra bs = (True, fs) \<longleftrightarrow> extra_layout bs fs"
proof (cases "bs = []")
  case True
  have "extra_layout [] fs \<longleftrightarrow> fs = []" by (auto elim: extra_layout.cases intro: layout_end)
  with True show ?thesis by (auto simp: parseTransactionExtra_def)
next
  case False
  then show ?thesis
    using parse_fields_layout [of bs fs "MemoryInputStream bs" "[]"] parse_fields_sound [of "MemoryInputStream bs" "[]" fs]
    by (auto simp: parseTransactionExtra_def)
qed

section \<open>Round trips\<close>

text \<open>Lists of fields that have a format: padding, not empty, only at the end.\<close>

fun ok_fields :: "TransactionExtraField list \<Rightarrow> bool" where
  "ok_fields [] \<longleftrightarrow> True"
| "ok_fields (TransactionExtraPadding n # fs) \<longleftrightarrow> 0 < n \<and> n \<le> 255 \<and> fs = []"
| "ok_fields (TransactionExtraPublicKey k # fs) \<longleftrightarrow> length k = 32 \<and> ok_fields fs"
| "ok_fields (TransactionExtraNonce n # fs) \<longleftrightarrow> length n \<le> 255 \<and> ok_fields fs"

lemma write_extra_layout:
  "ok_fields fs \<Longrightarrow> \<exists>bs. writeTransactionExtra acc fs = Some (acc @ bs) \<and> extra_layout bs fs"
proof (induction fs arbitrary: acc rule: ok_fields.induct)
  case 1
  then show ?case by (auto intro: layout_end)
next
  case (2 n fs)
  then show ?case by (auto simp: TX_EXTRA_PADDING_MAX_COUNT_def intro: layout_padding)
next
  case (3 k fs)
  then obtain bs where "writeTransactionExtra (addTransactionPublicKeyToExtra acc k) fs
      = Some (addTransactionPublicKeyToExtra acc k @ bs)" "extra_layout bs fs" by fastforce
  with 3 show ?case by (auto simp: addTransactionPublicKeyToExtra_def tx_extra_tags intro: layout_key)
next
  case (4 n fs)
  let ?e = "acc @ [2, of_nat (length n)] @ n"
  from 4 obtain bs where "writeTransactionExtra ?e fs = Some (?e @ bs)" "extra_layout bs fs" by fastforce
  with 4 show ?case
    by (auto simp: addExtraNonceToTransactionExtra_def TX_EXTRA_NONCE_MAX_COUNT_def tx_extra_tags intro: layout_nonce)
qed

lemma extra_roundtrip:
  assumes "ok_fields fs"
  shows "\<exists>bs. writeTransactionExtra [] fs = Some bs \<and> parseTransactionExtra bs = (True, fs)"
  using write_extra_layout [OF assms, of "[]"] by (auto simp: parse_extra_iff)

lemma parse_fields_extends: "\<exists>fs. snd (parse_fields s acc) = acc @ fs"
proof (induction s acc rule: parse_fields.induct)
  case (1 s acc)
  show ?case
  proof (cases "endOfStream s \<or> parse_field s = None")
    case True
    then show ?thesis by (auto simp: parse_fields.simps [of s])
  next
    case False
    then obtain f t where "parse_field s = Some (f, t)" "\<not> endOfStream s" by auto
    with "1.IH" [of "(f, t)" f t] show ?thesis by (auto simp: parse_fields.simps [of s acc])
  qed
qed

lemma find_public_key_append: "find_public_key (fs @ gs) = (case find_public_key fs of None \<Rightarrow> find_public_key gs | r \<Rightarrow> r)"
  by (induction fs rule: find_public_key.induct) auto

text \<open>
  The key that a transaction carries first is found whatever follows it, malformed fields included:
  the extra field of a transaction is not validated.
\<close>

lemma public_key_first:
  assumes "length k = 32"
  shows "getTransactionPublicKeyFromExtra (addTransactionPublicKeyToExtra [] k @ rest) = k"
proof -
  let ?e = "addTransactionPublicKeyToExtra [] k @ rest"
  have e: "?e = 1 # k @ rest" by (simp add: addTransactionPublicKeyToExtra_def tx_extra_tags)
  obtain s' where "parse_fields (MemoryInputStream ?e) [] = parse_fields s' [TransactionExtraPublicKey k]"
    using parse_fields_step [of "MemoryInputStream ?e" "[TransactionExtraPublicKey k]" rest] field_key [OF assms, of rest]
    unfolding e by simp (metis append_Nil)
  with parse_fields_extends [of s' "[TransactionExtraPublicKey k]"] show ?thesis
    by (auto simp: getTransactionPublicKeyFromExtra_def parseTransactionExtra_def e split: prod.split)
qed

text \<open>A payment id written as hexadecimal text into an empty extra field is found again.\<close>

lemma payment_id_nonce:
  "length h = 32 \<Longrightarrow> getPaymentIdFromTransactionExtraNonce (setPaymentIdToTransactionExtraNonce h) = Some h"
  by (simp add: getPaymentIdFromTransactionExtraNonce_def setPaymentIdToTransactionExtraNonce_def)

lemma payment_id_roundtrip:
  assumes "length h = 32"
  shows "\<exists>e. createTxExtraWithPaymentId (podToHex h) [] = Some e \<and> getPaymentIdFromTxExtra e = Some h"
proof -
  let ?n = "setPaymentIdToTransactionExtraNonce h"
  have n: "length ?n \<le> 255" using assms by (simp add: setPaymentIdToTransactionExtraNonce_def)
  let ?e = "2 # of_nat (length ?n) # ?n @ []"
  have "createTxExtraWithPaymentId (podToHex h) [] = Some ?e"
    using n assms by (simp add: createTxExtraWithPaymentId_def parsePaymentId_def podFromHex_podToHex
        addExtraNonceToTransactionExtra_def TX_EXTRA_NONCE_MAX_COUNT_def TX_EXTRA_NONCE_def)
  moreover have "parseTransactionExtra ?e = (True, [TransactionExtraNonce ?n])"
    unfolding parse_extra_iff by (rule layout_nonce [OF n layout_end])
  ultimately show ?thesis using payment_id_nonce [OF assms] by (simp add: getPaymentIdFromTxExtra_def)
qed

end
