(* ===== verification/Keccak.thy ===== *)
theory Keccak
  imports Prelude
begin

text \<open>
  \<^verbatim>\<open>src/orbis/keccak.c\<close> and \<^verbatim>\<open>src/orbis/hash.c\<close>: the Keccak permutation with its in-place loops, the
  sponge with rate 136, and the hash \<^verbatim>\<open>cn_fast_hash\<close> built from it.

  The permutation is compared with the mathematical description of a Keccak round, in which
  lanes have two coordinates and no step is done in place; the sponge is compared with absorbing the
  blocks of a padded message. The length of a message is an \<^verbatim>\<open>int\<close> in the code: the model is for
  messages of less than \<^verbatim>\<open>2 ^ 31\<close> bytes.
\<close>

section \<open>The code\<close>

definition keccakf_rndc :: "u64 list" where
  "keccakf_rndc = [
    0x0000000000000001, 0x0000000000008082, 0x800000000000808a,
    0x8000000080008000, 0x000000000000808b, 0x0000000080000001,
    0x8000000080008081, 0x8000000000008009, 0x000000000000008a,
    0x0000000000000088, 0x0000000080008009, 0x000000008000000a,
    0x000000008000808b, 0x800000000000008b, 0x8000000000008089,
    0x8000000000008003, 0x8000000000008002, 0x8000000000000080,
    0x000000000000800a, 0x800000008000000a, 0x8000000080008081,
    0x8000000000008080, 0x0000000080000001, 0x8000000080008008]"

definition keccakf_rotc :: "nat list" where
  "keccakf_rotc = [
    1, 3, 6, 10, 15, 21, 28, 36, 45, 55, 2, 14,
    27, 41, 56, 8, 25, 43, 62, 18, 39, 61, 20, 44]"

definition keccakf_piln :: "nat list" where
  "keccakf_piln = [
    10, 7, 11, 17, 18, 3, 5, 16, 8, 21, 24, 4,
    15, 23, 19, 13, 12, 2, 20, 14, 22, 9, 6, 1]"

definition KECCAK_ROUNDS :: nat where
  "KECCAK_ROUNDS = 24"

definition HASH_SIZE :: nat where
  "HASH_SIZE = 32"

definition HASH_DATA_AREA :: nat where
  "HASH_DATA_AREA = 136"

definition ROTL64 :: "u64 \<Rightarrow> nat \<Rightarrow> u64" where
  "ROTL64 x y = push_bit y x OR drop_bit (64 - y) x"

text \<open>The four loops of a round of \<^verbatim>\<open>keccakf\<close>.\<close>

definition keccakf_theta :: "u64 list \<Rightarrow> u64 list" where
  "keccakf_theta st =
    (let bc = map (\<lambda>i. st ! i XOR st ! (i + 5) XOR st ! (i + 10) XOR st ! (i + 15) XOR st ! (i + 20)) [0..<5]
     in fold (\<lambda>i st.
          let t = bc ! ((i + 4) mod 5) XOR ROTL64 (bc ! ((i + 1) mod 5)) 1
          in fold (\<lambda>j st. st[j + i := st ! (j + i) XOR t]) [0, 5, 10, 15, 20] st) [0..<5] st)"

definition keccakf_rho_pi :: "u64 list \<Rightarrow> u64 list" where
  "keccakf_rho_pi st =
    snd (fold (\<lambda>i (t, st).
      let j = keccakf_piln ! i
      in (st ! j, st[j := ROTL64 t (keccakf_rotc ! i)])) [0..<24] (st ! 1, st))"

definition keccakf_chi :: "u64 list \<Rightarrow> u64 list" where
  "keccakf_chi st =
    fold (\<lambda>j st.
      let bc = map (\<lambda>i. st ! (j + i)) [0..<5]
      in fold (\<lambda>i st. st[j + i := st ! (j + i) XOR (NOT (bc ! ((i + 1) mod 5)) AND bc ! ((i + 2) mod 5))])
           [0..<5] st) [0, 5, 10, 15, 20] st"

definition keccakf_iota :: "nat \<Rightarrow> u64 list \<Rightarrow> u64 list" where
  "keccakf_iota round st = st[0 := st ! 0 XOR keccakf_rndc ! round]"

definition keccakf :: "u64 list \<Rightarrow> nat \<Rightarrow> u64 list" where
  "keccakf st rounds =
    fold (\<lambda>round st. keccakf_iota round (keccakf_chi (keccakf_rho_pi (keccakf_theta st)))) [0..<rounds] st"

text \<open>The \<open>i\<close>-th 64-bit word at a pointer, and the exclusive or of a block into the state.\<close>

definition word_at :: "blob \<Rightarrow> nat \<Rightarrow> u64" where
  "word_at data i = of_le_bytes (take 8 (drop (8 * i) data))"

definition xor_block :: "nat \<Rightarrow> blob \<Rightarrow> u64 list \<Rightarrow> u64 list" where
  "xor_block rsizw data st = fold (\<lambda>i st. st[i := st ! i XOR word_at data i]) [0..<rsizw] st"

text \<open>
  The loop over full blocks; it gives the state and what is left of the input. The rate is positive
  for the output size \<^verbatim>\<open>sizeof(state_t)\<close>, the only one the sources use.
\<close>

function keccak_blocks :: "nat \<Rightarrow> u64 list \<Rightarrow> blob \<Rightarrow> u64 list \<times> blob" where
  "keccak_blocks rsiz st data =
    (if 0 < rsiz \<and> rsiz \<le> length data
     then keccak_blocks rsiz (keccakf (xor_block (rsiz div 8) data st) KECCAK_ROUNDS) (drop rsiz data)
     else (st, data))"
  by pat_completeness auto
termination
  by (relation "measure (\<lambda>(_, _, data). length data)") auto

declare keccak_blocks.simps [simp del]

definition keccak :: "blob \<Rightarrow> nat \<Rightarrow> blob" where
  "keccak data mdlen =
    (let rsiz = (if 200 = mdlen then HASH_DATA_AREA else 200 - 2 * mdlen);
         rsizw = rsiz div 8;
         (st, rest) = keccak_blocks rsiz (replicate 25 0) data;
         temp = rest @ [1] @ replicate (rsiz - (length rest + 1)) 0;
         temp = temp[rsiz - 1 := temp ! (rsiz - 1) OR 0x80];
         st = keccakf (xor_block rsizw temp st) KECCAK_ROUNDS
     in take mdlen (concat (map (le_bytes 8) st)))"

definition keccak1600 :: "blob \<Rightarrow> blob" where
  "keccak1600 data = keccak data 200"

definition hash_process :: "blob \<Rightarrow> blob" where
  "hash_process buf = keccak1600 buf"

text \<open>\<^verbatim>\<open>hash_permutation\<close> on the 200 bytes of a \<^verbatim>\<open>union hash_state\<close>\<close>

definition hash_permutation :: "blob \<Rightarrow> blob" where
  "hash_permutation b = concat (map (le_bytes 8) (keccakf (map (word_at b) [0..<25]) 24))"

definition cn_fast_hash :: "blob \<Rightarrow> blob" where
  "cn_fast_hash data = take HASH_SIZE (hash_process data)"

section \<open>The round as it is specified\<close>

text \<open>
  A state is a function of the coordinates of a lane, both below 5. The rotation of the lane reached
  after \<open>t\<close> steps of \<open>(x, y) \<mapsto> (y, 2 x + 3 y)\<close> from \<open>(1, 0)\<close> is \<open>(t + 1) (t + 2) / 2\<close>.
\<close>

type_synonym lanes = "nat \<Rightarrow> nat \<Rightarrow> u64"

definition lanes_of :: "u64 list \<Rightarrow> lanes" where
  "lanes_of st x y = st ! (5 * y + x)"

definition state_of :: "lanes \<Rightarrow> u64 list" where
  "state_of A = map (\<lambda>k. A (k mod 5) (k div 5)) [0..<25]"

definition spec_theta :: "lanes \<Rightarrow> lanes" where
  "spec_theta A x y =
    (let C = \<lambda>x. A x 0 XOR A x 1 XOR A x 2 XOR A x 3 XOR A x 4
     in A x y XOR C ((x + 4) mod 5) XOR word_rotl 1 (C ((x + 1) mod 5)))"

fun rho_offset :: "nat \<Rightarrow> nat \<Rightarrow> nat \<Rightarrow> nat \<Rightarrow> nat \<Rightarrow> nat" where
  "rho_offset 0 t x y a = 0"
| "rho_offset (Suc n) t x y a =
    (if a = 5 * y + x then (t + 1) * (t + 2) div 2 mod 64 else rho_offset n (t + 1) y ((2 * x + 3 * y) mod 5) a)"

definition spec_rho :: "lanes \<Rightarrow> lanes" where
  "spec_rho A x y = word_rotl (rho_offset 24 0 1 0 (5 * y + x)) (A x y)"

definition spec_pi :: "lanes \<Rightarrow> lanes" where
  "spec_pi A x y = A ((x + 3 * y) mod 5) x"

definition spec_chi :: "lanes \<Rightarrow> lanes" where
  "spec_chi A x y = A x y XOR (NOT (A ((x + 1) mod 5) y) AND A ((x + 2) mod 5) y)"

definition spec_iota :: "u64 \<Rightarrow> lanes \<Rightarrow> lanes" where
  "spec_iota rc A x y = (if x = 0 \<and> y = 0 then A x y XOR rc else A x y)"

definition spec_round :: "u64 \<Rightarrow> lanes \<Rightarrow> lanes" where
  "spec_round rc A = spec_iota rc (spec_chi (spec_pi (spec_rho (spec_theta A))))"

lemma upt_25: "[0..<25] = [0, 1, 2, 3, 4, 5, 6, 7, 8, 9, 10, 11, 12, 13, 14, 15, 16, 17, 18, 19, 20, 21, 22, 23, 24]"
  by (simp add: upt_rec)

lemma upt_5: "[0..<5] = [0, 1, 2, 3, 4]"
  by (simp add: upt_rec)

lemma upt_24: "[0..<24] = [0, 1, 2, 3, 4, 5, 6, 7, 8, 9, 10, 11, 12, 13, 14, 15, 16, 17, 18, 19, 20, 21, 22, 23]"
  by (simp add: upt_rec)

lemma length_state_of [simp]: "length (state_of A) = 25"
  by (simp add: state_of_def)

lemma lanes_of_state_of: "x < 5 \<Longrightarrow> y < 5 \<Longrightarrow> lanes_of (state_of A) x y = A x y"
  by (simp add: lanes_of_def state_of_def)

lemma state_of_lanes_of: "length st = 25 \<Longrightarrow> state_of (lanes_of st) = st"
  by (rule nth_equalityI) (simp_all add: lanes_of_def state_of_def)

lemma state_of_list: "state_of A =
  [A 0 0, A 1 0, A 2 0, A 3 0, A 4 0, A 0 1, A 1 1, A 2 1, A 3 1, A 4 1, A 0 2, A 1 2, A 2 2, A 3 2, A 4 2,
   A 0 3, A 1 3, A 2 3, A 3 3, A 4 3, A 0 4, A 1 4, A 2 4, A 3 4, A 4 4]"
  by (simp add: state_of_def upt_25)

lemma ROTL64_rotl:
  assumes "0 < n" and "n < 64"
  shows "ROTL64 x n = word_rotl n x"
proof (rule bit_word_eqI)
  fix k assume "k < LENGTH(64)"
  then have k: "k < 64" by simp
  have "(k + (64 - n)) mod 64 = (if n \<le> k then k - n else k + (64 - n))"
  proof (cases "n \<le> k")
    case True
    then have "k + (64 - n) = (k - n) + 64" using assms by simp
    then show ?thesis using True k by (simp only: mod_add_self2) simp
  qed (use k assms in simp)
  then have "bit (word_rotl n x) k \<longleftrightarrow> bit x (if n \<le> k then k - n else k + (64 - n))"
    using assms k by (simp only: bit_word_rotl_iff) simp
  then show "bit (ROTL64 x n) k = bit (word_rotl n x) k"
    using assms k by (auto simp: ROTL64_def bit_simps not_le add.commute dest: bit_imp_le_length)
qed

lemma theta_eq: "keccakf_theta (state_of A) = state_of (spec_theta A)"
  by (simp add: keccakf_theta_def state_of_list spec_theta_def upt_5 Let_def ROTL64_rotl)
    (simp add: eval_nat_numeral ac_simps)

lemma rho_table: "map (rho_offset 24 0 1 0) [0..<25] =
  [0, 1, 62, 28, 27, 36, 44, 6, 55, 20, 3, 10, 43, 25, 39, 41, 45, 15, 21, 8, 18, 2, 61, 56, 14]"
  by code_simp

lemmas rho_offsets = rho_table [unfolded upt_25 list.map list.inject One_nat_def]

lemma word_rotl_0: "word_rotl 0 x = (x :: u64)"
  by (rule bit_word_eqI) (simp add: bit_word_rotl_iff)

lemma spec_pi_rho_list: "state_of (spec_pi (spec_rho A)) =
  [A 0 0, word_rotl 44 (A 1 1), word_rotl 43 (A 2 2), word_rotl 21 (A 3 3), word_rotl 14 (A 4 4),
   word_rotl 28 (A 3 0), word_rotl 20 (A 4 1), word_rotl 3 (A 0 2), word_rotl 45 (A 1 3), word_rotl 61 (A 2 4),
   word_rotl 1 (A 1 0), word_rotl 6 (A 2 1), word_rotl 25 (A 3 2), word_rotl 8 (A 4 3), word_rotl 18 (A 0 4),
   word_rotl 27 (A 4 0), word_rotl 36 (A 0 1), word_rotl 10 (A 1 2), word_rotl 15 (A 2 3), word_rotl 56 (A 3 4),
   word_rotl 62 (A 2 0), word_rotl 55 (A 3 1), word_rotl 39 (A 4 2), word_rotl 41 (A 0 3), word_rotl 2 (A 1 4)]"
  by (simp add: state_of_list spec_pi_def spec_rho_def rho_offsets word_rotl_0
      numeral_2_eq_2 [symmetric] del: rho_offset.simps)

lemma rho_pi_eq: "keccakf_rho_pi (state_of A) = state_of (spec_pi (spec_rho A))"
  unfolding spec_pi_rho_list unfolding state_of_list
  by (simp add: keccakf_rho_pi_def upt_24 Let_def keccakf_piln_def keccakf_rotc_def ROTL64_rotl)

lemma chi_eq: "keccakf_chi (state_of A) = state_of (spec_chi A)"
  by (simp add: keccakf_chi_def state_of_list spec_chi_def upt_5 Let_def)
    (simp add: eval_nat_numeral)

lemma iota_eq: "keccakf_iota n (state_of A) = state_of (spec_iota (keccakf_rndc ! n) A)"
  by (simp add: keccakf_iota_def state_of_list spec_iota_def)

lemma keccakf_spec:
  "keccakf (state_of A) rounds = state_of (fold (\<lambda>round. spec_round (keccakf_rndc ! round)) [0..<rounds] A)"
proof -
  have "fold (\<lambda>round st. keccakf_iota round (keccakf_chi (keccakf_rho_pi (keccakf_theta st)))) rs (state_of A)
      = state_of (fold (\<lambda>round. spec_round (keccakf_rndc ! round)) rs A)" for rs
    by (induction rs arbitrary: A) (simp_all add: theta_eq rho_pi_eq chi_eq iota_eq spec_round_def)
  then show ?thesis by (simp add: keccakf_def)
qed

lemma keccakf_lanes:
  "length st = 25 \<Longrightarrow>
   keccakf st rounds = state_of (fold (\<lambda>round. spec_round (keccakf_rndc ! round)) [0..<rounds] (lanes_of st))"
  using keccakf_spec [of "lanes_of st" rounds] by (simp add: state_of_lanes_of)

lemma length_keccakf [simp]: "length st = 25 \<Longrightarrow> length (keccakf st rounds) = 25"
  by (simp add: keccakf_lanes)

section \<open>The sponge as it is specified\<close>

text \<open>The message is padded with a one, zeros and a last bit to whole blocks, which are absorbed in turn.\<close>

definition keccak_pad :: "nat \<Rightarrow> blob \<Rightarrow> blob" where
  "keccak_pad rsiz data =
    (let q = rsiz - length data mod rsiz
     in data @ (if q = 1 then [0x81] else [1] @ replicate (q - 2) 0 @ [0x80]))"

function blocks :: "nat \<Rightarrow> 'a list \<Rightarrow> 'a list list" where
  "blocks n xs = (if 0 < n \<and> n \<le> length xs then take n xs # blocks n (drop n xs) else [])"
  by pat_completeness auto
termination
  by (relation "measure (\<lambda>(_, xs). length xs)") auto

declare blocks.simps [simp del]

definition absorb :: "nat \<Rightarrow> u64 list \<Rightarrow> blob \<Rightarrow> u64 list" where
  "absorb rsiz st block = keccakf (xor_block (rsiz div 8) block st) KECCAK_ROUNDS"

lemma xor_block_take:
  assumes "8 dvd rsiz"
  shows "xor_block (rsiz div 8) (take rsiz data) st = xor_block (rsiz div 8) data st"
proof -
  have "word_at (take rsiz data) i = word_at data i" if "i < rsiz div 8" for i
  proof -
    have "8 * i + 8 \<le> rsiz" using that assms by auto
    then show ?thesis by (simp add: word_at_def drop_take take_take)
  qed
  then show ?thesis by (auto simp: xor_block_def intro: fold_cong)
qed

lemma keccak_blocks_eq:
  "0 < rsiz \<Longrightarrow> 8 dvd rsiz \<Longrightarrow>
   keccak_blocks rsiz st data = (foldl (absorb rsiz) st (blocks rsiz data), drop (length data - length data mod rsiz) data)"
proof (induction rsiz st data rule: keccak_blocks.induct)
  case (1 rsiz st data)
  show ?case
  proof (cases "rsiz \<le> length data")
    case True
    have "(length data - rsiz) mod rsiz = length data mod rsiz" using True by (simp add: le_mod_geq)
    moreover have "length data mod rsiz \<le> length data - rsiz"
      using True calculation by (metis mod_less_eq_dividend)
    ultimately show ?thesis using 1 True
      by (simp add: keccak_blocks.simps [of rsiz st] blocks.simps [of rsiz data] absorb_def xor_block_take)
  next
    case False
    then show ?thesis
      by (simp add: keccak_blocks.simps [of rsiz st] blocks.simps [of rsiz data])
  qed
qed

lemma blocks_append:
  "length l = n \<Longrightarrow> 0 < n \<Longrightarrow> length data mod n = 0 \<Longrightarrow> blocks n (data @ l) = blocks n data @ [l]"
proof (induction n data rule: blocks.induct)
  case (1 n data)
  show ?case
  proof (cases "n \<le> length data")
    case True
    then have "length (drop n data) mod n = 0" using "1.prems" by (simp add: le_mod_geq)
    with 1 True show ?thesis by (simp add: blocks.simps [of n "data @ l"] blocks.simps [of n data])
  next
    case False
    then have "data = []" using "1.prems" by simp
    with "1.prems" show ?thesis
      by (simp add: blocks.simps [of n l] blocks.simps [of n "drop n l"] blocks.simps [of n "[]"])
  qed
qed

lemma blocks_prefix: "n * k \<le> length xs \<Longrightarrow> length xs < n * k + n \<Longrightarrow> blocks n xs = blocks n (take (n * k) xs)"
proof (induction k arbitrary: xs)
  case 0
  then show ?case by (simp add: blocks.simps)
next
  case (Suc k)
  then have "blocks n (drop n xs) = blocks n (take (n * k) (drop n xs))"
    by (intro Suc.IH) auto
  then show ?case using Suc.prems
    by (simp add: blocks.simps [of n xs] blocks.simps [of n "take (n + n * k) xs"] take_drop min_def add.commute)
qed

definition pad_bytes :: "nat \<Rightarrow> blob" where
  "pad_bytes q = (if q = 1 then [0x81] else [1] @ replicate (q - 2) 0 @ [0x80])"

lemma keccak_pad_eq: "keccak_pad rsiz data = data @ pad_bytes (rsiz - length data mod rsiz)"
  by (simp add: keccak_pad_def pad_bytes_def Let_def)

lemma length_pad_bytes [simp]: "0 < q \<Longrightarrow> length (pad_bytes q) = q"
  by (auto simp: pad_bytes_def)

text \<open>What the code writes into \<^verbatim>\<open>temp\<close>.\<close>

lemma temp_padded:
  assumes "length rest < rsiz"
  shows "(rest @ [1] @ replicate (rsiz - (length rest + 1)) 0)
      [rsiz - 1 := (rest @ [1] @ replicate (rsiz - (length rest + 1)) 0) ! (rsiz - 1) OR 0x80]
    = rest @ pad_bytes (rsiz - length rest)" (is "?t[_ := _] = _")
proof (cases "rsiz - length rest = 1")
  case True
  then have "rsiz - Suc 0 = length rest" and "rsiz - Suc (length rest) = 0" using assms by simp_all
  then show ?thesis using True by (simp add: pad_bytes_def)
next
  case False
  define q where "q = rsiz - length rest - 2"
  have q: "rsiz = length rest + 2 + q" using assms False by (simp add: q_def)
  have r: "replicate (rsiz - (length rest + 1)) (0 :: u8) = replicate q 0 @ [0]"
    using q by (simp add: replicate_append_same)
  have "?t = (rest @ [1] @ replicate q 0) @ [0]" unfolding r by simp
  moreover have "rsiz - 1 = length (rest @ [1] @ replicate q (0 :: u8))" using q by simp
  ultimately have "?t[rsiz - 1 := ?t ! (rsiz - 1) OR 0x80] = (rest @ [1] @ replicate q 0) @ [0x80]"
    by (simp only: list_update_length nth_append_length) simp
  then show ?thesis using q by (simp add: pad_bytes_def)
qed

lemma blocks_keccak_pad:
  assumes "0 < rsiz"
  shows "blocks rsiz (keccak_pad rsiz data) = blocks rsiz data
    @ [drop (length data - length data mod rsiz) data @ pad_bytes (rsiz - length data mod rsiz)]"
proof -
  let ?r = "length data mod rsiz" and ?k = "length data div rsiz"
  have k: "rsiz * ?k = length data - ?r" by (simp add: minus_mod_eq_mult_div)
  have "?r < rsiz" using assms by simp
  then have "length (drop (length data - ?r) data @ pad_bytes (rsiz - ?r)) = rsiz" by simp
  moreover have "length (take (length data - ?r) data) mod rsiz = 0"
    by (metis diff_le_self k length_take min.absorb2 mod_mult_self1_is_0)
  ultimately have "blocks rsiz (take (length data - ?r) data @ (drop (length data - ?r) data @ pad_bytes (rsiz - ?r)))
      = blocks rsiz (take (length data - ?r) data) @ [drop (length data - ?r) data @ pad_bytes (rsiz - ?r)]"
    using assms by (intro blocks_append)
  moreover have "blocks rsiz data = blocks rsiz (take (length data - ?r) data)"
    unfolding k [symmetric] using \<open>?r < rsiz\<close> by (intro blocks_prefix) (auto simp: k)
  ultimately show ?thesis by (metis keccak_pad_eq append_assoc append_take_drop_id)
qed

lemma length_xor_block [simp]: "length (xor_block n data st) = length st"
proof -
  have "length (fold (\<lambda>i st. st[i := st ! i XOR word_at data i]) is st) = length st" for "is"
    by (induction "is" arbitrary: st) simp_all
  then show ?thesis by (simp add: xor_block_def)
qed

lemma length_foldl_absorb [simp]: "length st = 25 \<Longrightarrow> length (foldl (absorb rsiz) st bs) = 25"
  by (induction bs arbitrary: st) (simp_all add: absorb_def)

lemma length_concat_le_bytes [simp]: "length (concat (map (le_bytes n) ws)) = n * length ws"
  by (induction ws) simp_all

lemma keccak1600_sponge:
  "keccak1600 data = concat (map (le_bytes 8)
     (foldl (absorb HASH_DATA_AREA) (replicate 25 0) (blocks HASH_DATA_AREA (keccak_pad HASH_DATA_AREA data))))"
proof -
  let ?rest = "drop (length data - length data mod 136) data"
  have "length ?rest = length data mod 136" by simp
  then have "length ?rest < 136" by simp
  note temp_padded [OF this]
  moreover have "keccak_blocks 136 (replicate 25 0) data = (foldl (absorb 136) (replicate 25 0) (blocks 136 data), ?rest)"
    by (rule keccak_blocks_eq) simp_all
  ultimately have "keccak1600 data = take 200 (concat (map (le_bytes 8)
      (absorb 136 (foldl (absorb 136) (replicate 25 0) (blocks 136 data)) (?rest @ pad_bytes (136 - length ?rest)))))"
    by (simp add: keccak1600_def keccak_def HASH_DATA_AREA_def Let_def absorb_def)
  also have "\<dots> = take 200 (concat (map (le_bytes 8)
      (foldl (absorb 136) (replicate 25 0) (blocks 136 (keccak_pad 136 data)))))"
    by (simp add: blocks_keccak_pad)
  finally show ?thesis by (simp add: HASH_DATA_AREA_def)
qed

lemma length_keccak1600 [simp]: "length (keccak1600 data) = 200"
  by (simp add: keccak1600_sponge)

lemma length_cn_fast_hash [simp]: "length (cn_fast_hash data) = 32"
  by (simp add: cn_fast_hash_def hash_process_def HASH_SIZE_def)

text \<open>Different messages have different padded forms.\<close>

lemma pad_bytes_unique:
  assumes "a @ pad_bytes p = b @ pad_bytes q" and "0 < p" and "0 < q"
  shows "a = b"
proof -
  have shape: "rev (pad_bytes n) = (if n = 1 then [0x81] else [0x80] @ replicate (n - 2) 0 @ [1])" for n
    by (simp add: pad_bytes_def)
  have zeros: "p = q \<and> xs = ys" if "replicate p 0 @ [1] @ xs = replicate q 0 @ [1] @ (ys :: blob)" for p q and xs ys :: blob
    using that
  proof (induction p arbitrary: q)
    case 0
    then show ?case by (cases q) auto
  next
    case (Suc p)
    then show ?case by (cases q) auto
  qed
  have "rev (pad_bytes p) @ rev a = rev (pad_bytes q) @ rev b"
    using arg_cong [OF assms(1), of rev] by simp
  then show ?thesis
    using zeros [of "p - 2" "rev a" "q - 2" "rev b"] by (simp add: shape split: if_splits)
qed

lemma keccak_pad_inj: "0 < rsiz \<Longrightarrow> keccak_pad rsiz a = keccak_pad rsiz b \<Longrightarrow> a = b"
  unfolding keccak_pad_eq by (erule pad_bytes_unique) simp_all

end
