(* ===== verification/TreeHash.thy ===== *)
theory TreeHash
  imports Keccak OrbisTypes
begin

text \<open>
  \<^verbatim>\<open>src/orbis/tree-hash.c\<close>: the Merkle tree over the transaction hashes of a block, the branch of
  the first leaf, and the root recomputed from a leaf and its branch.

  The C code halves an array in place. It is compared with \<open>merkle_root\<close>, which builds one level of
  the tree from the other, and the branch of a tree is shown to lead back to its root.
\<close>

section \<open>The code\<close>

text \<open>Lines 97 to 102: the largest power of two below \<^verbatim>\<open>count\<close>, by spreading the highest bit.\<close>

definition tree_cnt :: "u64 \<Rightarrow> u64" where
  "tree_cnt count =
    (let cnt = count - 1;
         cnt = fold (\<lambda>i cnt. cnt OR drop_bit i cnt) [1, 2, 4, 8, 16, 32] cnt
     in cnt AND NOT (drop_bit 1 cnt))"

text \<open>
  The first level: \<open>k\<close> hashes are copied to \<open>ints\<close>, the others are hashed in pairs. \<open>ints\<close> is
  allocated and not initialised.
\<close>

definition tree_first_level :: "Hash list \<Rightarrow> nat \<Rightarrow> nat \<Rightarrow> Hash list" where
  "tree_first_level hashes k cnt =
    fold (\<lambda>m ints. ints[k + m := cn_fast_hash (hashes ! (k + 2 * m) @ hashes ! (k + 2 * m + 1))])
      [0..<cnt - k] (take k hashes @ replicate (cnt - k) [])"

function tree_reduce :: "nat \<Rightarrow> Hash list \<Rightarrow> Hash list" where
  "tree_reduce cnt ints =
    (if 2 < cnt
     then tree_reduce (cnt div 2)
       (fold (\<lambda>j ints. ints[j := cn_fast_hash (ints ! (2 * j) @ ints ! (2 * j + 1))]) [0..<cnt div 2] ints)
     else ints)"
  by pat_completeness auto
termination
  by (relation "measure fst") auto

declare tree_reduce.simps [simp del]

text \<open>The assertion \<^verbatim>\<open>count > 0\<close> fails for an empty array: \<open>None\<close>.\<close>

definition tree_hash :: "Hash list \<Rightarrow> Hash option" where
  "tree_hash hashes =
    (let count = length hashes in
     if count = 0 then None
     else if count = 1 then Some (hashes ! 0)
     else if count = 2 then Some (cn_fast_hash (hashes ! 0 @ hashes ! 1))
     else let cnt = unat (tree_cnt (of_nat count));
              ints = tree_reduce cnt (tree_first_level hashes (2 * cnt - count) cnt)
          in Some (cn_fast_hash (ints ! 0 @ ints ! 1)))"

definition tree_depth :: "u64 \<Rightarrow> nat" where
  "tree_depth count =
    snd (fold (\<lambda>i (count, depth). if 0 < drop_bit i count then (drop_bit i count, depth + i) else (count, depth))
      [32, 16, 8, 4, 2, 1] (count, 0))"

text \<open>The loop of \<^verbatim>\<open>tree_branch\<close> that finds the same depth from below.\<close>

definition tree_branch_cnt :: "u64 \<Rightarrow> u64 \<times> nat" where
  "tree_branch_cnt count =
    fold (\<lambda>i (cnt, depth). if push_bit i cnt \<le> count then (push_bit i cnt, depth + i) else (cnt, depth))
      [32, 16, 8, 4, 2, 1] (1, 0)"

fun tree_branch_loop :: "nat \<Rightarrow> nat \<Rightarrow> Hash list \<Rightarrow> Hash list \<Rightarrow> Hash list" where
  "tree_branch_loop 0 cnt ints branch = branch"
| "tree_branch_loop (Suc depth) cnt ints branch =
    (let cnt = cnt div 2;
         branch = branch[depth := ints ! 0];
         ints = fold (\<lambda>j ints. ints[j := cn_fast_hash (ints ! (2 * j + 1) @ ints ! (2 * j + 2))]) [0..<cnt - 1] ints
     in tree_branch_loop depth cnt ints branch)"

definition tree_branch :: "Hash list \<Rightarrow> Hash list option" where
  "tree_branch hashes =
    (if length hashes = 0 then None
     else let count = length hashes;
              (cnt, depth) = tree_branch_cnt (of_nat count);
              cnt = unat cnt;
              k = 2 * cnt - count - 1;
              ints = fold (\<lambda>m ints. ints[k + m := cn_fast_hash (hashes ! (2 * cnt - count + 2 * m) @ hashes ! (2 * cnt - count + 2 * m + 1))])
                [0..<cnt - 1 - k] (take k (drop 1 hashes) @ replicate (cnt - 1 - k) [])
          in Some (tree_branch_loop depth cnt ints (replicate depth [])))"

text \<open>
  \<^verbatim>\<open>tree_hash_from_branch\<close>: \<open>buffer\<close> is the pair of the two halves; the bit of \<^verbatim>\<open>path\<close> says
  on which side the node that comes from the leaf stands. No path is a null pointer.
\<close>

definition path_bit :: "blob option \<Rightarrow> nat \<Rightarrow> bool" where
  "path_bit path depth = (case path of None \<Rightarrow> False | Some p \<Rightarrow> bit (p ! (depth div 8)) (depth mod 8))"

fun branch_loop :: "Hash list \<Rightarrow> nat \<Rightarrow> Hash \<Rightarrow> blob option \<Rightarrow> bool \<Rightarrow> Hash \<times> Hash \<Rightarrow> Hash \<times> Hash" where
  "branch_loop branch 0 leaf path from_leaf buffer = buffer"
| "branch_loop branch (Suc depth) leaf path from_leaf buffer =
    (let node = (if from_leaf then leaf else cn_fast_hash (fst buffer @ snd buffer));
         buffer = (if path_bit path depth then (branch ! depth, node) else (node, branch ! depth))
     in branch_loop branch depth leaf path False buffer)"

definition tree_hash_from_branch :: "Hash list \<Rightarrow> nat \<Rightarrow> Hash \<Rightarrow> blob option \<Rightarrow> Hash" where
  "tree_hash_from_branch branch depth leaf path =
    (if depth = 0 then leaf
     else let (b0, b1) = branch_loop branch depth leaf path True ([], []) in cn_fast_hash (b0 @ b1))"

section \<open>Loops that overwrite what they have read\<close>

lemma fold_inplace:
  assumes "\<And>j. j < n \<Longrightarrow> j \<le> a j \<and> a j < length xs \<and> j \<le> b j \<and> b j < length xs" and "n \<le> length xs"
  shows "fold (\<lambda>j xs. xs[j := f (xs ! a j) (xs ! b j)]) [0..<n] xs
    = map (\<lambda>j. f (xs ! a j) (xs ! b j)) [0..<n] @ drop n xs"
  using assms
proof (induction n)
  case 0
  then show ?case by simp
next
  case (Suc n)
  let ?ys = "map (\<lambda>j. f (xs ! a j) (xs ! b j)) [0..<n] @ drop n xs"
  have IH: "fold (\<lambda>j xs. xs[j := f (xs ! a j) (xs ! b j)]) [0..<n] xs = ?ys"
    using Suc by simp
  have "?ys ! a n = xs ! a n" "?ys ! b n = xs ! b n"
    using Suc.prems(1) [of n] by (simp_all add: nth_append)
  moreover have "drop n xs = xs ! n # drop (Suc n) xs" using Suc.prems(2) by (simp add: Cons_nth_drop_Suc)
  ultimately show ?case using IH by (simp add: list_update_append)
qed

lemma fold_fill:
  "fold (\<lambda>m xs. xs[k + m := f m]) [0..<n] (ys @ replicate n z) = ys @ map f [0..<n]" if "length ys = k"
proof -
  have "fold (\<lambda>m xs. xs[k + m := f m]) [0..<i] (ys @ replicate n z) = ys @ map f [0..<i] @ replicate (n - i) z"
    if "i \<le> n" for i
    using that
  proof (induction i)
    case 0
    then show ?case by simp
  next
    case (Suc i)
    have "n - i = Suc (n - Suc i)" using Suc.prems by simp
    then show ?case using Suc \<open>length ys = k\<close> by (simp add: list_update_append)
  qed
  from this [of n] show ?thesis by simp
qed

section \<open>The tree as it is specified\<close>

fun pair_up :: "Hash list \<Rightarrow> Hash list" where
  "pair_up (a # b # rest) = cn_fast_hash (a @ b) # pair_up rest"
| "pair_up _ = []"

lemma length_pair_up [simp]: "length (pair_up xs) = length xs div 2"
  by (induction xs rule: pair_up.induct) auto

lemma nth_pair_up: "j < length xs div 2 \<Longrightarrow> pair_up xs ! j = cn_fast_hash (xs ! (2 * j) @ xs ! (2 * j + 1))"
proof (induction xs arbitrary: j rule: pair_up.induct)
  case (1 a b rest)
  then show ?case by (cases j) auto
qed auto

lemma pair_up_eq_map: "pair_up xs = map (\<lambda>j. cn_fast_hash (xs ! (2 * j) @ xs ! (2 * j + 1))) [0..<length xs div 2]"
  by (rule nth_equalityI) (simp_all add: nth_pair_up)

function merkle_root :: "Hash list \<Rightarrow> Hash" where
  "merkle_root xs = (if length xs \<le> 1 then hd xs else merkle_root (pair_up xs))"
  by pat_completeness auto
termination
  by (relation "measure length") auto

declare merkle_root.simps [simp del]

text \<open>
  The leaves are completed to a full binary tree of \<open>2 ^ tree_depth\<close> nodes on its lowest full level:
  the first hashes are nodes of this level themselves, the others are hashed in pairs.
\<close>

definition merkle_level :: "nat \<Rightarrow> Hash list \<Rightarrow> Hash list" where
  "merkle_level n hashes =
    (let k = 2 * 2 ^ n - length hashes in take k hashes @ pair_up (drop k hashes))"

lemma length_merkle_level: "2 ^ n \<le> length hashes \<Longrightarrow> length hashes \<le> 2 * 2 ^ n \<Longrightarrow> length (merkle_level n hashes) = 2 ^ n"
  by (auto simp: merkle_level_def Let_def min_def)

lemma tree_first_level_eq:
  assumes "2 ^ n \<le> length hashes" and "length hashes \<le> 2 * 2 ^ n"
  shows "tree_first_level hashes (2 * 2 ^ n - length hashes) (2 ^ n) = merkle_level n hashes"
proof -
  let ?k = "2 * 2 ^ n - length hashes"
  have k: "length (take ?k hashes) = ?k" using assms by simp
  have "length (drop ?k hashes) = 2 * (2 ^ n - ?k)" using assms by simp
  then have "pair_up (drop ?k hashes)
      = map (\<lambda>m. cn_fast_hash (hashes ! (?k + 2 * m) @ hashes ! (?k + 2 * m + 1))) [0..<2 ^ n - ?k]"
    by (subst pair_up_eq_map) (simp add: add.assoc)
  then show ?thesis
    unfolding tree_first_level_def merkle_level_def Let_def fold_fill [OF k] by simp
qed

lemma merkle_root_pair_up: "2 \<le> length xs \<Longrightarrow> merkle_root xs = merkle_root (pair_up xs)"
  by (simp add: merkle_root.simps [of xs])

lemma merkle_root_two: "merkle_root [a, b] = cn_fast_hash (a @ b)"
  by (simp add: merkle_root.simps)

lemma take_two: "2 \<le> length xs \<Longrightarrow> take 2 xs = [xs ! 0, xs ! 1]"
  by (cases xs; cases "tl xs") (auto simp: numeral_2_eq_2)

lemma reduce_step:
  assumes "2 * n \<le> length ints"
  shows "take n (fold (\<lambda>j ints. ints[j := cn_fast_hash (ints ! (2 * j) @ ints ! (2 * j + 1))]) [0..<n] ints)
    = pair_up (take (2 * n) ints)"
proof -
  have "fold (\<lambda>j ints. ints[j := cn_fast_hash (ints ! (2 * j) @ ints ! (2 * j + 1))]) [0..<n] ints
      = map (\<lambda>j. cn_fast_hash (ints ! (2 * j) @ ints ! (2 * j + 1))) [0..<n] @ drop n ints"
    by (rule fold_inplace) (use assms in auto)
  then show ?thesis using assms by (simp add: pair_up_eq_map min_def)
qed

lemma length_fold_update [simp]: "length (fold (\<lambda>j xs. xs[g j := f j xs]) js xs) = length xs"
  by (induction js arbitrary: xs) simp_all

lemma tree_reduce_root:
  "2 ^ Suc n \<le> length ints \<Longrightarrow>
   (let r = tree_reduce (2 ^ Suc n) ints in cn_fast_hash (r ! 0 @ r ! 1)) = merkle_root (take (2 ^ Suc n) ints)"
proof (induction n arbitrary: ints)
  case 0
  then show ?case by (simp add: tree_reduce.simps take_two merkle_root_two)
next
  case (Suc n)
  let ?ints = "fold (\<lambda>j ints. ints[j := cn_fast_hash (ints ! (2 * j) @ ints ! (2 * j + 1))]) [0..<2 ^ Suc n] ints"
  have "2 < (2::nat) ^ Suc (Suc n)" by (induction n) auto
  then have "tree_reduce (2 ^ Suc (Suc n)) ints = tree_reduce (2 ^ Suc n) ?ints"
    by (subst tree_reduce.simps) simp
  moreover have "2 ^ Suc n \<le> length ?ints" using Suc.prems by simp
  note Suc.IH [OF this]
  moreover have "take (2 ^ Suc n) ?ints = pair_up (take (2 * 2 ^ Suc n) ints)"
    by (rule reduce_step) (use Suc.prems in simp)
  moreover have "merkle_root (pair_up (take (2 ^ Suc (Suc n)) ints)) = merkle_root (take (2 ^ Suc (Suc n)) ints)"
    by (rule merkle_root_pair_up [symmetric]) (use Suc.prems in simp)
  ultimately show ?case by (simp only: power_Suc)
qed

section \<open>Powers of two\<close>

lemma bit_spread:
  fixes x :: u64
  assumes "\<And>n. bit y n \<longleftrightarrow> (\<exists>d < 2 ^ k. bit x (n + d))"
  shows "bit (y OR drop_bit (2 ^ k) y) n \<longleftrightarrow> (\<exists>d < 2 ^ Suc k. bit x (n + d))"
proof
  assume "bit (y OR drop_bit (2 ^ k) y) n"
  then obtain d where "d < 2 ^ k" "bit x (n + d) \<or> bit x (2 ^ k + n + d)"
    by (auto simp: bit_simps assms)
  then show "\<exists>d < 2 ^ Suc k. bit x (n + d)"
    by (auto intro: exI [of _ d] exI [of _ "2 ^ k + d"] simp: ac_simps)
next
  assume "\<exists>d < 2 ^ Suc k. bit x (n + d)"
  then obtain d where d: "d < 2 * 2 ^ k" "bit x (n + d)" by auto
  show "bit (y OR drop_bit (2 ^ k) y) n"
  proof (cases "d < 2 ^ k")
    case True
    with d show ?thesis by (auto simp: bit_simps assms)
  next
    case False
    then have "d - 2 ^ k < 2 ^ k" "bit x (2 ^ k + n + (d - 2 ^ k))" using d by (simp_all add: ac_simps)
    then show ?thesis by (auto simp: bit_simps assms)
  qed
qed

lemma fold_spread:
  "bit (fold (\<lambda>i cnt. cnt OR drop_bit i cnt) [1, 2, 4, 8, 16, 32] x) n \<longleftrightarrow> (\<exists>m \<ge> n. bit x m)"
  for x :: u64
proof -
  define s where "s k = fold (\<lambda>i cnt. cnt OR drop_bit i cnt) (map (\<lambda>j. 2 ^ j) [0..<k]) x" for k
  have "bit (s k) n \<longleftrightarrow> (\<exists>d < 2 ^ k. bit x (n + d))" for k n
  proof (induction k arbitrary: n)
    case 0
    then show ?case by (simp add: s_def)
  next
    case (Suc k)
    have "s (Suc k) = s k OR drop_bit (2 ^ k) (s k)" by (simp add: s_def)
    then show ?case using bit_spread [OF Suc.IH] by simp
  qed
  from this [of 6] have "bit (s 6) n \<longleftrightarrow> (\<exists>d < 64. bit x (n + d))" by simp
  also have "\<dots> \<longleftrightarrow> (\<exists>m \<ge> n. bit x m)"
  proof
    assume "\<exists>m \<ge> n. bit x m"
    then obtain m where m: "n \<le> m" "bit x m" by blast
    then have "m < 64" using bit_imp_le_length [of x m] by simp
    with m show "\<exists>d < 64. bit x (n + d)" by (intro exI [of _ "m - n"]) simp
  qed (use le_add1 in blast)
  finally show ?thesis by (simp add: s_def upt_rec)
qed

text \<open>The highest set bit of a positive word.\<close>

lemma highest_bit:
  fixes x :: u64
  assumes "2 ^ n \<le> unat x" and "unat x < 2 ^ Suc n"
  shows "n < 64" and "bit x n" and "\<And>m. bit x m \<Longrightarrow> m \<le> n"
proof -
  have "(2::nat) ^ n < 2 ^ 64" using le_less_trans [OF assms(1) unat_bound [of x]] by simp
  then show "n < 64" by (rule power_less_imp_less_exp [rotated]) simp
  have "unat x div 2 ^ n = 1"
    using assms by (metis One_nat_def Suc_1 div_nat_eqI lessI mult.right_neutral mult_2_right power_Suc nat_mult_1_right mult.commute)
  then have "bit (unat x) n" by (simp add: bit_iff_odd)
  then show "bit x n" by (simp add: bit_unsigned_iff)
  show "m \<le> n" if "bit x m" for m
  proof (rule ccontr)
    assume "\<not> m \<le> n"
    then have "(2::nat) ^ Suc n \<le> 2 ^ m" by (intro power_increasing) auto
    then have "unat x div 2 ^ m = 0" using assms(2) by simp
    then have "\<not> bit (unat x) m" by (simp add: bit_iff_odd)
    with that show False using bit_imp_le_length [OF that] by (simp add: bit_unsigned_iff)
  qed
qed

lemma tree_cnt_eq:
  assumes "2 ^ n < unat count" and "unat count \<le> 2 ^ Suc n"
  shows "unat (tree_cnt count) = 2 ^ n"
proof -
  let ?x = "count - 1"
  have "unat ?x = unat count - 1" using assms(1) by (simp add: unat_minus_one unat_gt_0 [symmetric])
  then have x: "2 ^ n \<le> unat ?x" "unat ?x < 2 ^ Suc n" using assms by simp_all
  note h = highest_bit [OF this]
  define y where "y = fold (\<lambda>i cnt. cnt OR drop_bit i cnt) [1, 2, 4, 8, 16, 32] ?x"
  have y: "bit y m \<longleftrightarrow> m \<le> n" for m
    unfolding y_def fold_spread using h(2,3) by (meson le_trans)
  have "tree_cnt count = push_bit n 1"
  proof (rule bit_word_eqI)
    fix m assume "m < LENGTH(64)"
    then show "bit (tree_cnt count) m = bit (push_bit n 1 :: u64) m"
      unfolding tree_cnt_def Let_def y_def [symmetric] by (auto simp: bit_simps y)
  qed
  moreover have "(2::nat) ^ n < 2 ^ 64" using h(1) by (rule power_strict_increasing) simp
  then have "unat (push_bit n 1 :: u64) = 2 ^ n" using unat_push_bit_exact [of "1 :: u64" n] by simp
  ultimately show ?thesis by simp
qed

lemma tree_hash_merkle:
  assumes "2 ^ n \<le> length hashes" and "length hashes < 2 ^ Suc n" and "length hashes < 2 ^ 64"
  shows "tree_hash hashes = Some (merkle_root (merkle_level n hashes))"
proof -
  have "1 \<le> length hashes" using assms(1) by (rule order_trans [rotated]) simp
  then consider "length hashes = 1" | "length hashes = 2" | "2 < length hashes" by linarith
  then show ?thesis
  proof cases
    case 1
    then obtain a where "hashes = [a]" by (auto simp: length_Suc_conv)
    moreover have "n = 0" using assms(1) 1 one_less_power [of "2::nat" n] by (cases "n = 0") auto
    ultimately show ?thesis by (simp add: tree_hash_def merkle_level_def merkle_root.simps)
  next
    case 2
    then obtain a b where "hashes = [a, b]" by (auto simp: length_Suc_conv numeral_2_eq_2)
    moreover have "n = 1"
    proof -
      have "n \<le> 1" by (rule power_le_imp_le_exp [of "2::nat"]) (use assms(1) 2 in simp_all)
      moreover have "n \<noteq> 0" using assms(2) 2 by (cases "n = 0") simp_all
      ultimately show ?thesis by simp
    qed
    ultimately show ?thesis by (simp add: tree_hash_def merkle_level_def merkle_root_two)
  next
    case 3
    let ?count = "of_nat (length hashes) :: u64"
    have u: "unat ?count = length hashes" using assms(3) by (simp add: unat_of_nat)
    have root: "tree_hash hashes = Some (merkle_root (merkle_level (Suc m) hashes))"
      if m: "2 ^ Suc m < length hashes" "length hashes \<le> 2 * 2 ^ Suc m" for m
    proof -
      have cnt: "unat (tree_cnt ?count) = 2 ^ Suc m" by (rule tree_cnt_eq) (use m u in simp_all)
      have len: "length (merkle_level (Suc m) hashes) = 2 ^ Suc m"
        by (rule length_merkle_level) (use m in simp_all)
      have "tree_first_level hashes (2 * 2 ^ Suc m - length hashes) (2 ^ Suc m) = merkle_level (Suc m) hashes"
        by (rule tree_first_level_eq) (use m in simp_all)
      then show ?thesis
        using tree_reduce_root [of m "merkle_level (Suc m) hashes"] 3 len
        unfolding tree_hash_def Let_def cnt by (cases "hashes = []") simp_all
    qed
    obtain k where k: "n = Suc k" using assms(2) 3 by (cases n) auto
    show ?thesis
    proof (cases "2 ^ n = length hashes")
      case False
      then show ?thesis using root [of k] assms(1,2) k by simp
    next
      case True
      obtain j where j: "k = Suc j" using True 3 k by (cases k) auto
      have "tree_hash hashes = Some (merkle_root (merkle_level k hashes))"
      proof -
        have "length hashes = 4 * 2 ^ j" using True k j by simp
        moreover have "0 < (2::nat) ^ j" by simp
        ultimately have "2 ^ Suc j < length hashes" "length hashes \<le> 2 * 2 ^ Suc j" unfolding power_Suc by linarith+
        then show ?thesis unfolding j by (rule root)
      qed
      moreover have "merkle_level k hashes = pair_up (merkle_level n hashes)"
        using True k by (simp add: merkle_level_def)
      moreover have "2 \<le> length (merkle_level n hashes)" using 3 True by (simp add: merkle_level_def)
      ultimately show ?thesis by (simp add: merkle_root_pair_up)
    qed
  qed
qed

section \<open>Depth and branches\<close>

lemma depth_step:
  fixes x :: u64
  assumes "0 < unat x" and "unat x < 2 ^ (2 * i)"
  shows "\<exists>d. (if 0 < drop_bit i x then (drop_bit i x, depth + i) else (x, depth)) = (drop_bit d x, depth + d)
    \<and> 0 < unat (drop_bit d x) \<and> unat (drop_bit d x) < 2 ^ i"
proof (cases "0 < drop_bit i x")
  case True
  have "unat (drop_bit i x) < 2 ^ i"
    using assms(2) by (simp add: unat_drop_bit less_mult_imp_div_less power_add [symmetric] mult_2)
  with True show ?thesis by (intro exI [of _ i]) (simp add: word_less_nat_alt)
next
  case False
  then have "unat x div 2 ^ i = 0" by (metis unat_drop_bit unat_0 word_neq_0_conv)
  then have "unat x < 2 ^ i" by (simp add: div_eq_0_iff)
  with False assms(1) show ?thesis by (intro exI [of _ 0]) simp
qed

lemma tree_depth_bounds:
  assumes "0 < unat count"
  shows "2 ^ tree_depth count \<le> unat count \<and> unat count < 2 ^ Suc (tree_depth count)"
proof -
  let ?step = "\<lambda>i (count :: u64, depth). if 0 < drop_bit i count then (drop_bit i count, depth + i) else (count, depth)"
  have inv: "\<exists>d. fold ?step (map (\<lambda>j. 2 ^ j) (rev [0..<k])) (drop_bit e count, e) = (drop_bit d count, d)
      \<and> unat (drop_bit d count) = 1"
    if "0 < unat (drop_bit e count)" "unat (drop_bit e count) < 2 ^ 2 ^ k" for k e
    using that
  proof (induction k arbitrary: e)
    case 0
    then show ?case by (intro exI [of _ e]) simp
  next
    case (Suc k)
    from Suc.prems have "unat (drop_bit e count) < 2 ^ (2 * 2 ^ k)" by simp
    from depth_step [OF Suc.prems(1) this, of e] obtain d where
      d: "?step (2 ^ k) (drop_bit e count, e) = (drop_bit d (drop_bit e count), e + d)"
        "0 < unat (drop_bit d (drop_bit e count))" "unat (drop_bit d (drop_bit e count)) < 2 ^ 2 ^ k" by auto
    then have "?step (2 ^ k) (drop_bit e count, e) = (drop_bit (e + d) count, e + d)"
      and "0 < unat (drop_bit (e + d) count)" "unat (drop_bit (e + d) count) < 2 ^ 2 ^ k"
      by (simp_all add: add.commute)
    with Suc.IH [of "e + d"] show ?case by simp
  qed
  have powers: "map (\<lambda>j. 2 ^ j) (rev [0..<6]) = [32, 16, 8, 4, 2, 1 :: nat]" by (simp add: upt_rec)
  have "0 < unat (drop_bit 0 count)" "unat (drop_bit 0 count) < 2 ^ 2 ^ 6" using assms unat_bound [of count] by simp_all
  from inv [OF this, unfolded powers] obtain d where
    f: "fold ?step [32, 16, 8, 4, 2, 1] (drop_bit 0 count, 0) = (drop_bit d count, d)" and "unat (drop_bit d count) = 1"
    by blast
  moreover from f have "tree_depth count = d" unfolding tree_depth_def drop_bit_0 id_apply by (simp only: snd_conv)
  ultimately have d: "tree_depth count = d" "unat (drop_bit d count) = 1" by blast+
  then have "unat count div 2 ^ d = 1" by (simp add: unat_drop_bit)
  then have "unat count = 2 ^ d + unat count mod 2 ^ d"
    using div_mult_mod_eq [of "unat count" "2 ^ d"] by simp
  moreover have "unat count mod 2 ^ d < 2 ^ d" by simp
  ultimately have "2 ^ d \<le> unat count" "unat count < 2 * 2 ^ d" by linarith+
  with d show ?thesis by simp
qed

lemma unat_power_2: "e < 64 \<Longrightarrow> unat (push_bit e 1 :: u64) = 2 ^ e"
proof -
  assume "e < 64"
  then have "(2::nat) ^ e < 2 ^ 64" by (rule power_strict_increasing) simp
  then show ?thesis using unat_push_bit_exact [of "1 :: u64" e] by simp
qed

lemma tree_branch_cnt_bounds:
  assumes "0 < unat count"
  shows "\<exists>d. tree_branch_cnt count = (push_bit d 1, d) \<and> d < 64 \<and> 2 ^ d \<le> unat count \<and> unat count < 2 ^ Suc d"
proof -
  let ?step = "\<lambda>i (cnt, depth). if push_bit i cnt \<le> count then (push_bit i cnt, depth + i) else (cnt, depth)"
  have inv: "\<exists>d. fold ?step (map (\<lambda>j. 2 ^ j) (rev [0..<k])) (push_bit e 1, e) = (push_bit d 1, d)
      \<and> d < 64 \<and> 2 ^ d \<le> unat count \<and> unat count < 2 ^ Suc d"
    if "2 ^ e \<le> unat count" "unat count < 2 ^ (e + 2 ^ k)" "e + 2 ^ k \<le> 64" for k e
    using that
  proof (induction k arbitrary: e)
    case 0
    then show ?case by (intro exI [of _ e]) simp
  next
    case (Suc k)
    have "0 < (2::nat) ^ k" by simp
    then have "e + 2 ^ k < 64" using Suc.prems(3) unfolding power_Suc by linarith
    then have u: "unat (push_bit (e + 2 ^ k) 1 :: u64) = 2 ^ (e + 2 ^ k)" by (rule unat_power_2)
    show ?case
    proof (cases "2 ^ (e + 2 ^ k) \<le> unat count")
      case True
      then have "?step (2 ^ k) (push_bit e 1, e) = (push_bit (e + 2 ^ k) 1, e + 2 ^ k)"
        using u by (simp add: word_le_nat_alt add.commute [of "2 ^ k" e] del: push_bit_of_1)
      with Suc.IH [of "e + 2 ^ k"] Suc.prems True show ?thesis by (simp add: add.assoc mult_2 del: push_bit_of_1)
    next
      case False
      then have "?step (2 ^ k) (push_bit e 1, e) = (push_bit e 1, e)"
        using u by (simp add: word_le_nat_alt add.commute [of "2 ^ k" e] del: push_bit_of_1)
      with Suc.IH [of e] Suc.prems False show ?thesis by (simp del: push_bit_of_1)
    qed
  qed
  have powers: "map (\<lambda>j. 2 ^ j) (rev [0..<6]) = [32, 16, 8, 4, 2, 1 :: nat]" by (simp add: upt_rec)
  have "2 ^ 0 \<le> unat count" "unat count < 2 ^ (0 + 2 ^ 6)" "0 + 2 ^ 6 \<le> (64::nat)"
    using assms unat_bound [of count] by simp_all
  from inv [OF this, unfolded powers push_bit_0_id id_apply] show ?thesis unfolding tree_branch_cnt_def .
qed

text \<open>In \<^verbatim>\<open>tree_branch\<close> the array holds a level without its first node.\<close>

lemma branch_step:
  assumes "length L = 2 * n" and "0 < n" and "take (2 * n - 1) ints = tl L"
  shows "take (n - 1) (fold (\<lambda>j ints. ints[j := cn_fast_hash (ints ! (2 * j + 1) @ ints ! (2 * j + 2))]) [0..<n - 1] ints)
    = tl (pair_up L)"
proof -
  have len: "2 * n - 1 \<le> length ints"
    using arg_cong [OF assms(3), of length] assms(1) by simp
  have nth: "ints ! j = L ! Suc j" if "j < 2 * n - 1" for j
    using arg_cong [OF assms(3), of "\<lambda>xs. xs ! j"] that assms(1) by (simp add: nth_tl)
  have "fold (\<lambda>j ints. ints[j := cn_fast_hash (ints ! (2 * j + 1) @ ints ! (2 * j + 2))]) [0..<n - 1] ints
      = map (\<lambda>j. cn_fast_hash (ints ! (2 * j + 1) @ ints ! (2 * j + 2))) [0..<n - 1] @ drop (n - 1) ints"
    by (rule fold_inplace) (use len assms(2) in auto)
  moreover have "pair_up L ! Suc j = cn_fast_hash (ints ! (2 * j + 1) @ ints ! (2 * j + 2))" if "j < n - 1" for j
    using that assms(1) by (simp add: nth_pair_up nth)
  ultimately show ?thesis
    using assms(1,2) len by (intro nth_equalityI) (auto simp: nth_tl)
qed

lemma tree_branch_loop_levels:
  assumes "length L = 2 ^ d" and "take (2 ^ d - 1) ints = tl L" and "d \<le> length branch"
  shows "(\<forall>t < d. tree_branch_loop d (2 ^ d) ints branch ! (d - 1 - t) = (pair_up ^^ t) L ! 1)
    \<and> (\<forall>i \<ge> d. tree_branch_loop d (2 ^ d) ints branch ! i = branch ! i)"
  using assms
proof (induction d arbitrary: L ints branch)
  case 0
  then show ?case by simp
next
  case (Suc d)
  let ?ints = "fold (\<lambda>j ints. ints[j := cn_fast_hash (ints ! (2 * j + 1) @ ints ! (2 * j + 2))]) [0..<2 ^ d - 1] ints"
  let ?br = "tree_branch_loop d (2 ^ d) ?ints (branch[d := ints ! 0])"
  have L: "length L = 2 * 2 ^ d" "take (2 * 2 ^ d - 1) ints = tl L" using Suc.prems by simp_all
  have "take (2 ^ d - 1) ?ints = tl (pair_up L)" by (rule branch_step [OF L(1) _ L(2)]) simp
  then have IH: "(\<forall>t < d. ?br ! (d - 1 - t) = (pair_up ^^ t) (pair_up L) ! 1)
      \<and> (\<forall>i \<ge> d. ?br ! i = branch[d := ints ! 0] ! i)"
    using Suc.prems L(1) by (intro Suc.IH) simp_all
  have pos: "0 < 2 * (2::nat) ^ d - 1" using zero_less_power [of "2::nat" d] by linarith
  have "ints ! 0 = take (2 * 2 ^ d - 1) ints ! 0" using pos by simp
  also have "\<dots> = L ! 1" using L pos by (simp add: nth_tl)
  finally have "?br ! d = L ! 1" using IH Suc.prems(3) by simp
  moreover have "tree_branch_loop (Suc d) (2 ^ Suc d) ints branch = ?br" by (simp add: Let_def)
  moreover have "?br ! (Suc d - 1 - t) = (pair_up ^^ t) L ! 1" if "t < Suc d" for t
  proof (cases t)
    case 0
    then show ?thesis using \<open>?br ! d = L ! 1\<close> by simp
  next
    case (Suc u)
    then show ?thesis using IH that by (simp add: funpow_swap1)
  qed
  ultimately show ?case using IH by (simp add: nth_list_update)
qed

lemma branch_loop_root:
  assumes "length L = 2 ^ d" and "\<forall>t < d. br ! (d - 1 - t) = (pair_up ^^ t) L ! 1"
    and "cn_fast_hash (b0 @ b1) = L ! 0"
  shows "(let (x, y) = branch_loop br d leaf None False (b0, b1) in cn_fast_hash (x @ y)) = merkle_root L"
  using assms
proof (induction d arbitrary: L b0 b1)
  case 0
  then show ?case by (cases L) (simp_all add: merkle_root.simps)
next
  case (Suc d)
  have br: "br ! d = L ! 1" using Suc.prems(2) [rule_format, of 0] by simp
  have "(let (x, y) = branch_loop br d leaf None False (L ! 0, L ! 1) in cn_fast_hash (x @ y)) = merkle_root (pair_up L)"
  proof (rule Suc.IH)
    show "length (pair_up L) = 2 ^ d" using Suc.prems(1) by simp
    show "cn_fast_hash (L ! 0 @ L ! 1) = pair_up L ! 0" using Suc.prems(1) by (simp add: nth_pair_up)
    show "\<forall>t < d. br ! (d - 1 - t) = (pair_up ^^ t) (pair_up L) ! 1"
    proof (intro allI impI)
      fix t assume "t < d"
      then show "br ! (d - 1 - t) = (pair_up ^^ t) (pair_up L) ! 1"
        using Suc.prems(2) [rule_format, of "Suc t"] by (simp add: funpow_swap1)
    qed
  qed
  moreover have "merkle_root L = merkle_root (pair_up L)"
    using Suc.prems(1) by (intro merkle_root_pair_up) simp
  ultimately show ?case using Suc.prems(3) br by (simp add: path_bit_def)
qed

lemma log2_unique:
  fixes n :: nat
  assumes "2 ^ a \<le> n" "n < 2 ^ Suc a" "2 ^ b \<le> n" "n < 2 ^ Suc b"
  shows "a = b"
proof -
  have "(2::nat) ^ a < 2 ^ Suc b" using assms by linarith
  then have "a < Suc b" by (rule power_less_imp_less_exp [rotated]) simp
  moreover have "(2::nat) ^ b < 2 ^ Suc a" using assms by linarith
  then have "b < Suc a" by (rule power_less_imp_less_exp [rotated]) simp
  ultimately show ?thesis by simp
qed

lemma tree_branch_first_level:
  assumes "2 ^ n \<le> length hashes" and "length hashes < 2 * 2 ^ n"
  shows "fold (\<lambda>m ints. ints[2 * 2 ^ n - length hashes - 1 + m :=
        cn_fast_hash (hashes ! (2 * 2 ^ n - length hashes + 2 * m) @ hashes ! (2 * 2 ^ n - length hashes + 2 * m + 1))])
      [0..<2 ^ n - 1 - (2 * 2 ^ n - length hashes - 1)]
      (take (2 * 2 ^ n - length hashes - 1) (drop 1 hashes) @ replicate (2 ^ n - 1 - (2 * 2 ^ n - length hashes - 1)) [])
    = tl (merkle_level n hashes)"
proof -
  let ?k = "2 * 2 ^ n - length hashes"
  have k: "0 < ?k" "?k \<le> length hashes" using assms by simp_all
  have len: "length (take (?k - 1) (drop 1 hashes)) = ?k - 1" using k by simp
  have "length (drop ?k hashes) = 2 * (2 ^ n - 1 - (?k - 1))" using assms by simp
  then have "pair_up (drop ?k hashes) = map (\<lambda>m. cn_fast_hash (hashes ! (?k + 2 * m) @ hashes ! (?k + 2 * m + 1))) [0..<2 ^ n - 1 - (?k - 1)]"
    by (subst pair_up_eq_map) (simp add: add.assoc)
  moreover have "take (?k - 1) (drop 1 hashes) = tl (take ?k hashes)" using k by (simp add: drop_Suc tl_take)
  moreover have "take ?k hashes \<noteq> []" using k by auto
  ultimately show ?thesis
    unfolding fold_fill [OF len] merkle_level_def Let_def by simp
qed

lemma tree_branch_root:
  assumes "hashes \<noteq> []" and "length hashes < 2 ^ 64"
  shows "\<exists>branch. tree_branch hashes = Some branch
    \<and> tree_hash hashes = Some (tree_hash_from_branch branch (tree_depth (of_nat (length hashes))) (hashes ! 0) None)"
proof -
  let ?count = "of_nat (length hashes) :: u64"
  have u: "unat ?count = length hashes" using assms(2) by (simp add: unat_of_nat)
  then have "0 < unat ?count" using assms(1) by simp
  from tree_branch_cnt_bounds [OF this] obtain d where d: "tree_branch_cnt ?count = (push_bit d 1, d)" "d < 64"
      "2 ^ d \<le> length hashes" "length hashes < 2 ^ Suc d" unfolding u by blast
  have depth: "tree_depth ?count = d"
    using tree_depth_bounds [OF \<open>0 < unat ?count\<close>] d unfolding u by (blast intro: log2_unique)
  let ?L = "merkle_level d hashes"
  let ?branch = "tree_branch_loop d (2 ^ d) (tl ?L) (replicate d [])"
  have L: "length ?L = 2 ^ d" using d by (intro length_merkle_level) simp_all
  have "tree_branch hashes = Some ?branch"
    unfolding tree_branch_def d(1) Let_def split unat_power_2 [OF d(2)]
    using tree_branch_first_level [of d hashes] d(3,4) assms(1) by simp
  moreover have levels: "\<forall>t < d. ?branch ! (d - 1 - t) = (pair_up ^^ t) ?L ! 1"
    using tree_branch_loop_levels [of ?L d "tl ?L" "replicate d []"] L by simp
  moreover have "?L ! 0 = hashes ! 0"
    using d(3,4) assms(1) by (simp add: merkle_level_def Let_def nth_append)
  moreover have "tree_hash hashes = Some (merkle_root ?L)" by (rule tree_hash_merkle [OF d(3,4) assms(2)])
  moreover have "tree_hash_from_branch ?branch d (?L ! 0) None = merkle_root ?L"
  proof (cases d)
    case 0
    then have "?L \<noteq> []" using L by auto
    then show ?thesis using L 0 by (simp add: tree_hash_from_branch_def merkle_root.simps hd_conv_nth)
  next
    case (Suc e)
    have two: "2 \<le> length ?L" using L Suc by simp
    have "(let (x, y) = branch_loop ?branch e (?L ! 0) None False (?L ! 0, ?L ! 1) in cn_fast_hash (x @ y))
        = merkle_root (pair_up ?L)"
    proof (rule branch_loop_root)
      show "length (pair_up ?L) = 2 ^ e" using L Suc by simp
      show "cn_fast_hash (?L ! 0 @ ?L ! 1) = pair_up ?L ! 0" using two by (simp add: nth_pair_up)
      show "\<forall>t < e. ?branch ! (e - 1 - t) = (pair_up ^^ t) (pair_up ?L) ! 1"
      proof (intro allI impI)
        fix t assume "t < e"
        then show "?branch ! (e - 1 - t) = (pair_up ^^ t) (pair_up ?L) ! 1"
          using levels [rule_format, of "Suc t"] Suc by (simp add: funpow_swap1)
      qed
    qed
    moreover have "?branch ! e = ?L ! 1" using levels [rule_format, of 0] Suc by simp
    ultimately show ?thesis
      using Suc merkle_root_pair_up [OF two] by (simp add: tree_hash_from_branch_def path_bit_def)
  qed
  ultimately show ?thesis unfolding depth by simp
qed

end
