(* ===== verification/Base58.thy ===== *)
theory Base58
  imports IntUtil Varint Keccak
begin

text \<open>
  \<^verbatim>\<open>src/Common/Base58.cpp\<close>: the Base58 encoding in blocks of 8 bytes and 11 characters, and the
  address format with a tag and a checksum.

  Characters are bytes. \<^verbatim>\<open>encode\<close> prepares a result filled with the first letter and each call of
  \<^verbatim>\<open>encode_block\<close> writes into its own slice of it; the model concatenates the slices. The encoding and
  the decoding are shown to be inverse to each other, both ways, so a decoded string is the only one
  that decodes to its data.
\<close>

section \<open>Tables\<close>

definition bytes_of_string :: "string \<Rightarrow> blob" where
  "bytes_of_string cs = map of_char cs"

definition alphabet :: blob where
  "alphabet = bytes_of_string ''123456789ABCDEFGHJKLMNPQRSTUVWXYZabcdefghijkmnopqrstuvwxyz''"

definition alphabet_size :: nat where
  "alphabet_size = 58"

definition encoded_block_sizes :: "nat list" where
  "encoded_block_sizes = [0, 2, 3, 5, 6, 7, 9, 10, 11]"

definition full_block_size :: nat where
  "full_block_size = 8"

definition full_encoded_block_size :: nat where
  "full_encoded_block_size = 11"

definition addr_checksum_size :: nat where
  "addr_checksum_size = 4"

text \<open>\<^verbatim>\<open>reverse_alphabet\<close>: the table built by its constructor, and its call operator.\<close>

definition reverse_alphabet_data :: "int list" where
  "reverse_alphabet_data =
    fold (\<lambda>i m_data. m_data[unat (alphabet ! i - alphabet ! 0) := int i]) [0..<alphabet_size]
      (replicate (unat (alphabet ! (alphabet_size - 1) - alphabet ! 0) + 1) (- 1))"

definition reverse_alphabet :: "u8 \<Rightarrow> int" where
  "reverse_alphabet letter =
    (let idx = sint letter - sint (alphabet ! 0)
     in if 0 \<le> idx \<and> idx < int (length reverse_alphabet_data) then reverse_alphabet_data ! nat idx else - 1)"

definition decoded_block_sizes_data :: "int list" where
  "decoded_block_sizes_data =
    fold (\<lambda>i m_data. m_data[encoded_block_sizes ! i := int i]) [0..<full_block_size + 1]
      (replicate (encoded_block_sizes ! full_block_size + 1) (- 1))"

definition decoded_block_sizes :: "nat \<Rightarrow> int" where
  "decoded_block_sizes encoded_block_size = decoded_block_sizes_data ! encoded_block_size"

section \<open>Blocks\<close>

text \<open>The switch with its cases falling through runs the same two statements once per byte.\<close>

definition uint_8be_to_64 :: "blob \<Rightarrow> u64" where
  "uint_8be_to_64 data = foldl (\<lambda>res b. push_bit 8 res OR ucast b) 0 data"

definition uint_64_to_8be :: "u64 \<Rightarrow> nat \<Rightarrow> blob" where
  "uint_64_to_8be num sz = drop (8 - sz) (le_bytes 8 (SWAP64 num))"

function encode_loop :: "u64 \<Rightarrow> int \<Rightarrow> blob \<Rightarrow> blob" where
  "encode_loop num i res =
    (if 0 < num
     then encode_loop (num div of_nat alphabet_size) (i - 1) (res[nat i := alphabet ! unat (num mod of_nat alphabet_size)])
     else res)"
  by pat_completeness auto
termination
  by (relation "measure (\<lambda>(num, _, _). unat num)")
    (auto simp: alphabet_size_def unat_div_distrib unat_gt_0 word_less_nat_alt)

declare encode_loop.simps [simp del]

definition encode_block :: "blob \<Rightarrow> blob \<Rightarrow> blob" where
  "encode_block block res =
    encode_loop (uint_8be_to_64 block) (int (encoded_block_sizes ! length block) - 1) res"

text \<open>The loop of \<^verbatim>\<open>decode_block\<close> goes through the characters from the last to the first.\<close>

fun decode_loop :: "blob \<Rightarrow> u64 \<Rightarrow> u64 \<Rightarrow> u64 option" where
  "decode_loop [] res_num order = Some res_num"
| "decode_loop (c # cs) res_num order =
    (let digit = reverse_alphabet c in
     if digit < 0 then None
     else let (product_lo, product_hi) = mul128 order (of_int digit);
              tmp = res_num + product_lo
          in if tmp < res_num \<or> 0 \<noteq> product_hi then None
             else decode_loop cs tmp (order * of_nat alphabet_size))"

definition decode_block :: "blob \<Rightarrow> blob option" where
  "decode_block block =
    (let res_size = decoded_block_sizes (length block) in
     if res_size \<le> 0 then None
     else case decode_loop (rev block) 0 1 of
       None \<Rightarrow> None
     | Some res_num \<Rightarrow>
         if nat res_size < full_block_size \<and> push_bit (8 * nat res_size) 1 \<le> res_num then None
         else Some (uint_64_to_8be res_num (nat res_size)))"

section \<open>Strings\<close>

definition slice :: "nat \<Rightarrow> nat \<Rightarrow> 'a list \<Rightarrow> 'a list" where
  "slice pos n xs = take n (drop pos xs)"

definition encode :: "blob \<Rightarrow> blob" where
  "encode data =
    (if data = [] then []
     else let full_block_count = length data div full_block_size;
              last_block_size = length data mod full_block_size
          in concat (map (\<lambda>i. encode_block (slice (i * full_block_size) full_block_size data)
                 (replicate full_encoded_block_size (alphabet ! 0))) [0..<full_block_count])
             @ (if 0 < last_block_size
                then encode_block (slice (full_block_count * full_block_size) last_block_size data)
                  (replicate (encoded_block_sizes ! last_block_size) (alphabet ! 0))
                else []))"

text \<open>The loop over the full blocks returns at the first block that cannot be decoded.\<close>

fun decode_blocks :: "blob list \<Rightarrow> blob option" where
  "decode_blocks [] = Some []"
| "decode_blocks (b # bs) =
    (case decode_block b of
       None \<Rightarrow> None
     | Some data \<Rightarrow> (case decode_blocks bs of None \<Rightarrow> None | Some rest \<Rightarrow> Some (data @ rest)))"

definition decode :: "blob \<Rightarrow> blob option" where
  "decode enc =
    (if enc = [] then Some []
     else let full_block_count = length enc div full_encoded_block_size;
              last_block_size = length enc mod full_encoded_block_size;
              last_block_decoded_size = decoded_block_sizes last_block_size
          in if last_block_decoded_size < 0 then None
             else decode_blocks
               (map (\<lambda>i. slice (i * full_encoded_block_size) full_encoded_block_size enc) [0..<full_block_count]
                @ (if 0 < last_block_size then [slice (full_block_count * full_encoded_block_size) last_block_size enc] else [])))"

section \<open>Addresses\<close>

definition encode_addr :: "u64 \<Rightarrow> blob \<Rightarrow> blob" where
  "encode_addr tag data =
    (let buf = get_varint_data tag @ data;
         hash = cn_fast_hash buf
     in encode (buf @ take addr_checksum_size hash))"

definition decode_addr :: "blob \<Rightarrow> (u64 \<times> blob) option" where
  "decode_addr addr =
    (case decode addr of
       None \<Rightarrow> None
     | Some addr_data \<Rightarrow>
         if length addr_data \<le> addr_checksum_size then None
         else let checksum = drop (length addr_data - addr_checksum_size) addr_data;
                  addr_data = take (length addr_data - addr_checksum_size) addr_data;
                  hash = cn_fast_hash addr_data;
                  expected_checksum = take addr_checksum_size hash
              in if expected_checksum \<noteq> checksum then None
                 else let (rd, tag) = read_varint addr_data
                      in if rd \<le> 0 then None else Some (tag, drop (nat rd) addr_data))"

section \<open>The tables are inverse to each other\<close>

lemma alphabet_codes [code]: "alphabet = [
    49, 50, 51, 52, 53, 54, 55, 56, 57, 65, 66, 67, 68, 69, 70, 71, 72, 74, 75, 76, 77, 78, 80, 81, 82,
    83, 84, 85, 86, 87, 88, 89, 90, 97, 98, 99, 100, 101, 102, 103, 104, 105, 106, 107, 109, 110, 111,
    112, 113, 114, 115, 116, 117, 118, 119, 120, 121, 122]"
  by (simp add: alphabet_def bytes_of_string_def)

lemma reverse_alphabet_codes [code]: "reverse_alphabet_data = [
    0, 1, 2, 3, 4, 5, 6, 7, 8, -1, -1, -1, -1, -1, -1, -1, 9, 10, 11, 12, 13, 14, 15, 16, -1, 17, 18,
    19, 20, 21, -1, 22, 23, 24, 25, 26, 27, 28, 29, 30, 31, 32, -1, -1, -1, -1, -1, -1, 33, 34, 35, 36,
    37, 38, 39, 40, 41, 42, 43, -1, 44, 45, 46, 47, 48, 49, 50, 51, 52, 53, 54, 55, 56, 57]"
  by code_simp

lemma length_alphabet: "length alphabet = 58"
  by code_simp

lemma reverse_alphabet_table: "list_all (\<lambda>d. reverse_alphabet (alphabet ! d) = int d) [0..<58]"
  by code_simp

lemma reverse_alphabet_nth: "d < 58 \<Longrightarrow> reverse_alphabet (alphabet ! d) = int d"
  using reverse_alphabet_table by (simp add: list_all_iff)

lemma alphabet_table:
  "list_all (\<lambda>i. 0 \<le> reverse_alphabet_data ! i \<longrightarrow>
     reverse_alphabet_data ! i < 58 \<and> alphabet ! nat (reverse_alphabet_data ! i) = of_nat (i + 49)) [0..<74]"
  by code_simp

lemma reverse_alphabet_first: "sint (alphabet ! 0) = 49" "length reverse_alphabet_data = 74"
  by code_simp+

lemma alphabet_reverse:
  assumes "0 \<le> reverse_alphabet c"
  shows "nat (reverse_alphabet c) < 58" and "alphabet ! nat (reverse_alphabet c) = c"
proof -
  let ?i = "nat (sint c - 49)"
  from assms have i: "0 \<le> sint c - 49" "?i < 74" and r: "reverse_alphabet c = reverse_alphabet_data ! ?i"
    by (auto simp: reverse_alphabet_def reverse_alphabet_first Let_def split: if_splits)
  have "sint c = int (?i + 49)" using i(1) by simp
  then have "of_int (sint c) = (of_int (int (?i + 49)) :: u8)" by (rule arg_cong)
  then have "of_int (sint c) = (of_nat (?i + 49) :: u8)" unfolding of_int_of_nat_eq .
  then have c: "of_nat (?i + 49) = c" by simp
  from i(2) have "?i \<in> set [0..<74]" by simp
  from bspec [OF alphabet_table [unfolded list_all_iff] this] assms
  have "reverse_alphabet c < 58 \<and> alphabet ! nat (reverse_alphabet c) = c"
    unfolding r [symmetric] c by blast
  with assms show "nat (reverse_alphabet c) < 58" and "alphabet ! nat (reverse_alphabet c) = c" by auto
qed

lemma decoded_sizes_table:
  "decoded_block_sizes_data = [0, -1, 1, 2, -1, 3, 4, 5, -1, 6, 7, 8]"
  by code_simp

section \<open>Numbers and digits\<close>

text \<open>\<open>digits58 k n\<close>: the last \<open>k\<close> digits of \<open>n\<close>, most significant first; \<open>value58\<close> reads them back.\<close>

fun digits58 :: "nat \<Rightarrow> nat \<Rightarrow> nat list" where
  "digits58 0 n = []"
| "digits58 (Suc k) n = digits58 k (n div 58) @ [n mod 58]"

definition value58 :: "nat list \<Rightarrow> nat" where
  "value58 ds = foldl (\<lambda>a d. a * 58 + d) 0 ds"

lemma length_digits58 [simp]: "length (digits58 k n) = k"
  by (induction k arbitrary: n) auto

lemma digits58_lt: "list_all (\<lambda>d. d < 58) (digits58 k n)"
  by (induction k arbitrary: n) auto

lemma value58_snoc [simp]: "value58 (ds @ [d]) = value58 ds * 58 + d"
  by (simp add: value58_def)

lemma value58_Nil [simp]: "value58 [] = 0"
  by (simp add: value58_def)

lemma value58_digits58: "n < 58 ^ k \<Longrightarrow> value58 (digits58 k n) = n"
  by (induction k arbitrary: n) (auto simp: less_mult_imp_div_less mult.commute)

lemma digits58_value58: "list_all (\<lambda>d. d < 58) ds \<Longrightarrow> digits58 (length ds) (value58 ds) = ds"
  by (induction ds rule: rev_induct) auto

lemma value58_lt: "list_all (\<lambda>d. d < 58) ds \<Longrightarrow> value58 ds < 58 ^ length ds"
proof (induction ds rule: rev_induct)
  case (snoc d ds)
  then have "value58 ds * 58 + d < (value58 ds + 1) * 58" by simp
  also have "\<dots> \<le> 58 ^ length ds * 58" using snoc by (intro mult_le_mono1) simp
  finally show ?case by (simp add: mult.commute)
qed simp

lemma digits58_0: "digits58 k 0 = replicate k 0"
  by (induction k) (simp_all add: replicate_append_same)

section \<open>Encoding and decoding of a block\<close>

lemma encode_loop_digits:
  "unat num < 58 ^ k \<Longrightarrow> encode_loop num (int k - 1) (replicate k (alphabet ! 0) @ tail)
    = map (\<lambda>d. alphabet ! d) (digits58 k (unat num)) @ tail"
proof (induction k arbitrary: num tail)
  case 0
  then show ?case by (simp add: encode_loop.simps word_less_nat_alt)
next
  case (Suc k)
  show ?case
  proof (cases "0 < num")
    case False
    then have "num = 0" using word_neq_0_conv by blast
    then show ?thesis by (simp add: encode_loop.simps digits58_0 del: digits58.simps replicate_Suc)
  next
    case True
    let ?q = "num div of_nat alphabet_size" and ?r = "num mod of_nat alphabet_size"
    have u: "unat ?q = unat num div 58" "unat ?r = unat num mod 58"
      by (simp_all add: alphabet_size_def unat_div_distrib unat_mod_distrib)
    have "(replicate (Suc k) (alphabet ! 0) @ tail)[k := alphabet ! unat ?r] = replicate k (alphabet ! 0) @ alphabet ! unat ?r # tail"
      by (simp add: replicate_append_same [symmetric] list_update_append del: replicate_append_same)
    moreover have "unat ?q < 58 ^ k" using Suc.prems u by (simp add: less_mult_imp_div_less mult.commute)
    ultimately show ?thesis
      using Suc.IH [of ?q "alphabet ! unat ?r # tail"] True u
      by (simp add: encode_loop.simps [of num] del: replicate_Suc)
  qed
qed

text \<open>Big endian bytes.\<close>

definition value256 :: "blob \<Rightarrow> nat" where
  "value256 bs = foldl (\<lambda>a b. a * 256 + unat b) 0 bs"

fun bytes256 :: "nat \<Rightarrow> nat \<Rightarrow> blob" where
  "bytes256 0 n = []"
| "bytes256 (Suc k) n = bytes256 k (n div 256) @ [of_nat (n mod 256)]"

lemma value256_snoc [simp]: "value256 (bs @ [b]) = value256 bs * 256 + unat b"
  by (simp add: value256_def)

lemma value256_Nil [simp]: "value256 [] = 0"
  by (simp add: value256_def)

lemma length_bytes256 [simp]: "length (bytes256 k n) = k"
  by (induction k arbitrary: n) auto

lemma bytes256_value256: "bytes256 (length bs) (value256 bs) = bs"
proof (induction bs rule: rev_induct)
  case (snoc b bs)
  have "unat b < 256" by (rule unat_u8_bound)
  with snoc show ?case by simp
qed simp

lemma value256_lt: "value256 bs < 256 ^ length bs"
proof (induction bs rule: rev_induct)
  case (snoc b bs)
  have "value256 bs * 256 + unat b < (value256 bs + 1) * 256" using unat_u8_bound [of b] by simp
  also have "\<dots> \<le> 256 ^ length bs * 256" using snoc by (intro mult_le_mono1) simp
  finally show ?case by (simp add: mult.commute)
qed simp

lemma value256_bytes256: "n < 256 ^ k \<Longrightarrow> value256 (bytes256 k n) = n"
proof (induction k arbitrary: n)
  case (Suc k)
  then have "n div 256 < 256 ^ k" by (simp add: less_mult_imp_div_less mult.commute)
  then show ?case using Suc.IH by (simp add: unat_of_nat)
qed simp

lemma unat_uint_8be_to_64: "length bs \<le> 8 \<Longrightarrow> unat (uint_8be_to_64 bs) = value256 bs"
proof (induction bs rule: rev_induct)
  case Nil
  then show ?case by (simp add: uint_8be_to_64_def)
next
  case (snoc b bs)
  let ?r = "uint_8be_to_64 bs"
  have "value256 bs < 256 ^ length bs" by (rule value256_lt)
  also have "(256::nat) ^ length bs \<le> 256 ^ 7" using snoc.prems by (intro power_increasing) simp_all
  finally have r: "unat ?r < 256 ^ 7" using snoc by simp
  then have "unat (push_bit 8 ?r) = unat ?r * 256" using unat_push_bit_exact [of ?r 8] by simp
  moreover have "unat (ucast b :: u64) = unat b" using unat_u8_bound [of b] by (simp add: unat_ucast_eq)
  ultimately have "unat (push_bit 8 ?r OR ucast b) = unat ?r * 256 + unat b"
    using unat_or_disjoint [of "ucast b :: u64" 8 "push_bit 8 ?r"] unat_u8_bound [of b]
    by (simp add: or.commute add.commute)
  then show ?case using snoc by (simp add: uint_8be_to_64_def)
qed

lemma rev_le_bytes: "rev (le_bytes k w) = bytes256 k (unat w)"
proof (induction k arbitrary: w)
  case (Suc k)
  have "unat (ucast w :: u8) = unat (of_nat (unat w mod 256) :: u8)"
    unfolding unat_ucast_eq by (simp add: unat_of_nat)
  then have "(ucast w :: u8) = of_nat (unat w mod 256)" by (simp only: word_unat_eq_iff)
  with Suc show ?case by (simp add: unat_drop_bit)
qed simp

lemma drop_bytes256: "m \<le> k \<Longrightarrow> drop (k - m) (bytes256 k n) = bytes256 m n"
proof (induction m arbitrary: k n)
  case (Suc m)
  then obtain j where "k = Suc j" by (cases k) auto
  with Suc show ?case by simp
qed simp

lemma uint_64_to_8be_eq: "sz \<le> 8 \<Longrightarrow> uint_64_to_8be num sz = bytes256 sz (unat num)"
  by (simp add: uint_64_to_8be_def le_bytes_SWAP64 rev_le_bytes drop_bytes256)

text \<open>The loop of \<^verbatim>\<open>decode_block\<close> computes the number, or fails when it does not fit into 64 bits.\<close>

definition digit_of :: "u8 \<Rightarrow> nat" where
  "digit_of c = nat (reverse_alphabet c)"

lemma decode_loop_value:
  assumes "length cs + p \<le> 11" and "cs \<noteq> [] \<Longrightarrow> unat order = 58 ^ p"
  shows "decode_loop cs res order =
    (if list_all (\<lambda>c. 0 \<le> reverse_alphabet c) cs \<and> unat res + 58 ^ p * value58 (rev (map digit_of cs)) < 2 ^ 64
     then Some (of_nat (unat res + 58 ^ p * value58 (rev (map digit_of cs)))) else None)"
  using assms
proof (induction cs arbitrary: p res order)
  case Nil
  then show ?case using unat_bound [of res] by simp
next
  case (Cons c cs)
  let ?d = "digit_of c" and ?V = "value58 (rev (map digit_of cs))"
  have val: "value58 (rev (map digit_of (c # cs))) = ?V * 58 + ?d" by simp
  show ?case
  proof (cases "0 \<le> reverse_alphabet c")
    case False
    then show ?thesis by simp
  next
    case True
    then have "nat (reverse_alphabet c) < 58" by (rule alphabet_reverse)
    then have d: "unat (of_int (reverse_alphabet c) :: u64) = ?d"
      using True by (simp add: digit_of_def unat_of_nat of_nat_nat [symmetric] del: of_nat_nat)
    obtain lo hi where m: "mul128 order (of_int (reverse_alphabet c)) = (lo, hi)" by fastforce
    have prod: "unat hi * 2 ^ 64 + unat lo = 58 ^ p * ?d"
      using mul128_exact [OF m] Cons.prems(2) d by simp
    have total: "58 ^ p * ?d \<le> 58 ^ p * (?V * 58 + ?d)" by simp
    show ?thesis
    proof (cases "hi \<noteq> 0 \<or> 2 ^ 64 \<le> unat res + unat lo")
      case True
      then have "2 ^ 64 \<le> unat res + 58 ^ p * ?d"
      proof
        assume "hi \<noteq> 0"
        then have "1 \<le> unat hi" by (simp add: Suc_le_eq unat_gt_0)
        then have "2 ^ 64 \<le> unat hi * 2 ^ 64" by simp
        then show ?thesis using prod by linarith
      qed (use prod in linarith)
      then have "\<not> unat res + 58 ^ p * (?V * 58 + ?d) < 2 ^ 64" using total by linarith
      moreover have "decode_loop (c # cs) res order = None"
        using True m by (auto simp: Let_def wrapped_add_iff)
      ultimately show ?thesis unfolding val by simp
    next
      case False
      then have lo: "unat lo = 58 ^ p * ?d" and tmp: "unat (res + lo) = unat res + 58 ^ p * ?d"
        using prod by (simp_all add: unat_add_exact)
      have "decode_loop (c # cs) res order = decode_loop cs (res + lo) (order * of_nat alphabet_size)"
        using False m True by (simp add: Let_def wrapped_add_iff)
      moreover have "unat (order * of_nat alphabet_size) = 58 ^ Suc p" if "cs \<noteq> []"
      proof -
        have "Suc p \<le> 10" using Cons.prems(1) that by (cases cs) auto
        then have "(58::nat) ^ Suc p \<le> 58 ^ 10" by (rule power_increasing) simp
        also have "\<dots> < 2 ^ 64" by simp
        finally have "unat order * unat (of_nat alphabet_size :: u64) < 2 ^ LENGTH(64)"
          using Cons.prems(2) by (simp add: alphabet_size_def mult.commute)
        from unat_mult_exact [OF this] show ?thesis
          using Cons.prems(2) by (simp add: alphabet_size_def mult.commute)
      qed
      moreover have "unat (res + lo) + 58 ^ Suc p * ?V = unat res + 58 ^ p * (?V * 58 + ?d)"
        unfolding tmp by (simp add: algebra_simps)
      ultimately show ?thesis
        using Cons.IH [of "Suc p" "order * of_nat alphabet_size" "res + lo"] Cons.prems(1) True
        unfolding val by simp
    qed
  qed
qed

text \<open>Sizes of blocks: the encoded block has room for every value of the block.\<close>

lemma block_sizes:
  assumes "0 < sz" and "sz \<le> 8"
  shows "256 ^ sz \<le> (58::nat) ^ (encoded_block_sizes ! sz)" and "decoded_block_sizes (encoded_block_sizes ! sz) = int sz"
    and "encoded_block_sizes ! sz \<le> 11"
proof -
  consider "sz = 1" | "sz = 2" | "sz = 3" | "sz = 4" | "sz = 5" | "sz = 6" | "sz = 7" | "sz = 8"
    using assms by linarith
  then show "256 ^ sz \<le> (58::nat) ^ (encoded_block_sizes ! sz)" and "decoded_block_sizes (encoded_block_sizes ! sz) = int sz"
    and "encoded_block_sizes ! sz \<le> 11"
    by (cases; simp add: encoded_block_sizes_def decoded_block_sizes_def decoded_sizes_table)+
qed

lemma sizes_table: "list_all (\<lambda>n. (decoded_block_sizes n \<le> 0 \<or> list_ex (\<lambda>sz. n = encoded_block_sizes ! sz) [1..<9])
    \<and> (n = 0 \<longleftrightarrow> decoded_block_sizes n = 0) \<and> (n < 11 \<longrightarrow> decoded_block_sizes n < 8)) [0..<12]"
  by code_simp

lemma decoded_sizes:
  assumes "n \<le> 11"
  shows "(decoded_block_sizes n \<le> 0 \<or> (\<exists>sz. 0 < sz \<and> sz < 9 \<and> n = encoded_block_sizes ! sz))
    \<and> (n = 0 \<longleftrightarrow> decoded_block_sizes n = 0) \<and> (n < 11 \<longrightarrow> decoded_block_sizes n < 8)"
proof -
  have "n \<in> set [0..<12]" using assms by simp
  from bspec [OF sizes_table [unfolded list_all_iff] this] show ?thesis
    by (auto simp: list_ex_iff Suc_le_eq)
qed

lemma encode_block_digits:
  assumes "0 < length b" and "length b \<le> 8" and "es = encoded_block_sizes ! length b"
  shows "encode_block b (replicate es (alphabet ! 0)) = map (\<lambda>d. alphabet ! d) (digits58 es (value256 b))"
proof -
  have "unat (uint_8be_to_64 b) = value256 b" using assms(2) by (rule unat_uint_8be_to_64)
  moreover have "value256 b < 58 ^ es"
    using value256_lt [of b] block_sizes(1) [OF assms(1,2)] assms(3) by simp
  ultimately show ?thesis
    using encode_loop_digits [of "uint_8be_to_64 b" es "[]"] assms(3) by (simp add: encode_block_def)
qed

lemma decode_block_value:
  assumes "0 < sz" and "sz \<le> 8" and "length e = encoded_block_sizes ! sz"
  shows "decode_block e =
    (if list_all (\<lambda>c. 0 \<le> reverse_alphabet c) e \<and> value58 (map digit_of e) < 256 ^ sz
     then Some (bytes256 sz (value58 (map digit_of e))) else None)"
proof -
  let ?V = "value58 (map digit_of e)"
  note bs = block_sizes [OF assms(1,2)]
  have loop: "decode_loop (rev e) 0 1 =
      (if list_all (\<lambda>c. 0 \<le> reverse_alphabet c) e \<and> ?V < 2 ^ 64 then Some (of_nat ?V) else None)"
    using decode_loop_value [of "rev e" 0 1 0] bs(3) assms(3) by (simp add: rev_map)
  have size: "nat (decoded_block_sizes (length e)) = sz" "\<not> decoded_block_sizes (length e) \<le> 0"
    using bs(2) assms(1,3) by simp_all
  have p256: "(256::nat) ^ sz = 2 ^ (8 * sz)" by (simp add: power_mult)
  have "(256::nat) ^ sz \<le> 256 ^ 8" using assms(2) by (intro power_increasing) simp_all
  then have le: "(256::nat) ^ sz \<le> 2 ^ 64" by simp
  show ?thesis
  proof (cases "list_all (\<lambda>c. 0 \<le> reverse_alphabet c) e \<and> ?V < 2 ^ 64")
    case False
    then show ?thesis using loop size le by (auto simp: decode_block_def Let_def)
  next
    case True
    then have u: "unat (of_nat ?V :: u64) = ?V" by (simp add: unat_of_nat)
    have "(sz < 8 \<and> push_bit (8 * sz) 1 \<le> (of_nat ?V :: u64)) \<longleftrightarrow> 256 ^ sz \<le> ?V"
    proof (cases "sz < 8")
      case True
      then have "(2::nat) ^ (8 * sz) < 2 ^ 64" by (intro power_strict_increasing) simp_all
      then have "unat (push_bit (8 * sz) 1 :: u64) = 2 ^ (8 * sz)" using unat_push_bit_exact [of "1 :: u64" "8 * sz"] by simp
      then show ?thesis using True u unfolding word_le_nat_alt p256 by simp
    next
      case False
      then have "sz = 8" using assms(2) by simp
      then show ?thesis using True by simp
    qed
    then show ?thesis
      using loop size True u uint_64_to_8be_eq [OF assms(2), of "of_nat ?V"]
      by (auto simp: decode_block_def Let_def full_block_size_def)
  qed
qed

lemma map_digit_of_alphabet: "list_all (\<lambda>d. d < 58) ds \<Longrightarrow> map digit_of (map (\<lambda>d. alphabet ! d) ds) = ds"
  by (induction ds) (simp_all add: digit_of_def reverse_alphabet_nth)

lemma alphabet_valid: "list_all (\<lambda>d. d < 58) ds \<Longrightarrow> list_all (\<lambda>c. 0 \<le> reverse_alphabet c) (map (\<lambda>d. alphabet ! d) ds)"
  by (induction ds) (simp_all add: reverse_alphabet_nth)

lemma map_alphabet_digit_of: "list_all (\<lambda>c. 0 \<le> reverse_alphabet c) cs \<Longrightarrow> map (\<lambda>d. alphabet ! d) (map digit_of cs) = cs"
  by (induction cs) (simp_all add: digit_of_def alphabet_reverse)

lemma digits_valid: "list_all (\<lambda>c. 0 \<le> reverse_alphabet c) cs \<Longrightarrow> list_all (\<lambda>d. d < 58) (map digit_of cs)"
proof (induction cs)
  case (Cons c cs)
  then show ?case using alphabet_reverse(1) [of c] by (simp add: digit_of_def)
qed simp

text \<open>The two directions for one block.\<close>

definition block_text :: "blob \<Rightarrow> blob" where
  "block_text b = encode_block b (replicate (encoded_block_sizes ! length b) (alphabet ! 0))"

lemma block_text_digits:
  "0 < length b \<Longrightarrow> length b \<le> 8 \<Longrightarrow>
   block_text b = map (\<lambda>d. alphabet ! d) (digits58 (encoded_block_sizes ! length b) (value256 b))"
  by (simp add: block_text_def encode_block_digits)

lemma length_block_text: "0 < length b \<Longrightarrow> length b \<le> 8 \<Longrightarrow> length (block_text b) = encoded_block_sizes ! length b"
  by (simp add: block_text_digits)

lemma decode_block_text:
  assumes "0 < length b" and "length b \<le> 8"
  shows "decode_block (block_text b) = Some b"
proof -
  let ?es = "encoded_block_sizes ! length b" and ?n = "value256 b"
  have "?n < 256 ^ length b" by (rule value256_lt)
  then have "value58 (digits58 ?es ?n) = ?n"
    using block_sizes(1) [OF assms] by (intro value58_digits58) simp
  then show ?thesis
    unfolding block_text_digits [OF assms]
    by (subst decode_block_value [OF assms])
      (simp_all add: map_digit_of_alphabet alphabet_valid digits58_lt value256_lt bytes256_value256 del: list.map_comp map_map)
qed

lemma decode_block_unique:
  assumes "decode_block e = Some b" and "length e \<le> 11"
  shows "0 < length b \<and> length b \<le> 8 \<and> length e = encoded_block_sizes ! length b \<and> block_text b = e"
proof -
  have "\<not> decoded_block_sizes (length e) \<le> 0" using assms(1) by (auto simp: decode_block_def Let_def)
  then obtain sz where "0 < sz" "sz < 9" "length e = encoded_block_sizes ! sz"
    using decoded_sizes [OF assms(2)] by blast
  then have sz: "0 < sz" "sz \<le> 8" "length e = encoded_block_sizes ! sz" by simp_all
  let ?ds = "map digit_of e"
  from decode_block_value [OF sz] assms(1)
  have v: "list_all (\<lambda>c. 0 \<le> reverse_alphabet c) e" "value58 ?ds < 256 ^ sz" "b = bytes256 sz (value58 ?ds)"
    by (auto split: if_splits)
  then have b: "length b = sz" "value256 b = value58 ?ds" by (simp_all add: value256_bytes256)
  have "digits58 (length e) (value58 ?ds) = ?ds"
    using digits58_value58 [OF digits_valid [OF v(1)]] by simp
  then have "block_text b = e"
    using block_text_digits [of b] b sz map_alphabet_digit_of [OF v(1)] by simp
  then show ?thesis using b sz by simp
qed

section \<open>Encoding and decoding of strings\<close>

lemma upt_Suc_map: "[0..<Suc n] = 0 # map Suc [0..<n]"
  by (simp add: upt_conv_Cons map_Suc_upt del: upt_Suc)

lemma slice_0: "slice 0 n xs = take n xs"
  by (simp add: slice_def)

lemma slice_drop: "slice (k + n) m xs = slice k m (drop n xs)"
  by (simp add: slice_def)

lemma encode_short: "0 < length data \<Longrightarrow> length data < 8 \<Longrightarrow> encode data = block_text data"
  by (auto simp: encode_def full_block_size_def block_text_def slice_0)

lemma encode_long:
  assumes "8 \<le> length data"
  shows "encode data = block_text (take 8 data) @ encode (drop 8 data)"
proof -
  let ?rest = "drop 8 data"
  obtain c where c: "length data div 8 = Suc c" using assms by (cases "length data div 8") auto
  then have rest: "length ?rest div 8 = c" "length ?rest mod 8 = length data mod 8"
    using assms le_div_geq [of 8 "length data"] by (simp_all add: le_mod_geq)
  have "encode_block (slice 0 8 data) (replicate 11 (alphabet ! 0)) = block_text (take 8 data)"
    using assms by (simp add: block_text_def slice_0 encoded_block_sizes_def min_def)
  moreover have "slice (Suc i * 8) n data = slice (i * 8) n ?rest" for i n
    using slice_drop [of "i * 8" 8 n data] by (simp add: add.commute)
  moreover have "data \<noteq> []" using assms by auto
  moreover have "?rest = [] \<Longrightarrow> c = 0 \<and> length data mod 8 = 0" using rest by auto
  ultimately show ?thesis
    unfolding encode_def Let_def full_block_size_def full_encoded_block_size_def c rest upt_Suc_map
    by (cases "?rest = []") (simp_all add: o_def)
qed

lemma decode_short:
  assumes "0 < length enc" and "length enc < 11"
  shows "decode enc = decode_block enc"
proof (cases "decoded_block_sizes (length enc) < 0")
  case True
  then show ?thesis using assms by (auto simp: decode_def full_encoded_block_size_def decode_block_def)
next
  case False
  then show ?thesis using assms
    by (auto simp: decode_def full_encoded_block_size_def slice_0 split: option.splits)
qed

lemma decode_long:
  assumes "11 \<le> length enc"
  shows "decode enc = (case decode_block (take 11 enc) of None \<Rightarrow> None
    | Some b \<Rightarrow> (case decode (drop 11 enc) of None \<Rightarrow> None | Some rest \<Rightarrow> Some (b @ rest)))"
proof -
  let ?rest = "drop 11 enc"
  obtain c where c: "length enc div 11 = Suc c" using assms by (cases "length enc div 11") auto
  then have rest: "length ?rest div 11 = c" "length ?rest mod 11 = length enc mod 11"
    using assms le_div_geq [of 11 "length enc"] by (simp_all add: le_mod_geq)
  have shift: "slice (11 + i * 11) n enc = slice (i * 11) n ?rest" for i n
    using slice_drop [of "i * 11" 11 n enc] by (simp add: add.commute)
  have ne: "enc \<noteq> []" using assms by auto
  have empty: "?rest = [] \<Longrightarrow> c = 0 \<and> length enc mod 11 = 0" using rest by auto
  have zero: "decoded_block_sizes 0 = 0" using decoded_sizes [of 0] by simp
  show ?thesis
    unfolding decode_def Let_def full_encoded_block_size_def c rest upt_Suc_map
    using ne empty by (cases "?rest = []") (auto simp: o_def shift slice_0 zero split: option.splits)
qed

lemma encode_Nil [simp]: "encode [] = []"
  by (simp add: encode_def)

lemma decode_Nil [simp]: "decode [] = Some []"
  by (simp add: decode_def)

lemma decode_encode: "decode (encode data) = Some data"
proof (induction "length data" arbitrary: data rule: less_induct)
  case less
  consider "data = []" | "0 < length data" "length data < 8" | "8 \<le> length data" by fastforce
  then show ?case
  proof cases
    case 2
    have "encoded_block_sizes ! length data \<le> 11" using block_sizes(3) 2 by simp
    moreover have "0 < encoded_block_sizes ! length data"
      using block_sizes(2) [of "length data"] decoded_sizes [of 0] 2 by (cases "encoded_block_sizes ! length data") auto
    moreover have "encoded_block_sizes ! length data \<noteq> 11"
      using block_sizes(2) [of "length data"] block_sizes(2) [of 8] 2 by (auto simp: encoded_block_sizes_def)
    ultimately have "0 < length (block_text data)" "length (block_text data) < 11"
      using length_block_text [of data] 2 by simp_all
    then show ?thesis using 2 by (simp add: encode_short decode_short decode_block_text)
  next
    case 3
    let ?b = "take 8 data"
    have b: "0 < length ?b" "length ?b \<le> 8" using 3 by simp_all
    have "length (block_text ?b) = 11" using length_block_text [OF b] 3 by (simp add: encoded_block_sizes_def min_def)
    then have "decode (encode data) = (case decode (encode (drop 8 data)) of None \<Rightarrow> None | Some rest \<Rightarrow> Some (?b @ rest))"
      by (simp add: encode_long [OF 3] decode_long decode_block_text [OF b])
    also have "decode (encode (drop 8 data)) = Some (drop 8 data)" using 3 by (intro less) simp
    finally show ?thesis by simp
  qed simp
qed

lemma encode_decode: "decode enc = Some data \<Longrightarrow> encode data = enc"
proof (induction "length enc" arbitrary: enc data rule: less_induct)
  case less
  consider "enc = []" | "0 < length enc" "length enc < 11" | "11 \<le> length enc" by fastforce
  then show ?case
  proof cases
    case 1
    then show ?thesis using less.prems by simp
  next
    case 2
    then have "decode_block enc = Some data" using less.prems by (simp add: decode_short)
    note u = decode_block_unique [OF this]
    moreover have "length data \<noteq> 8" using u 2 by (auto simp: encoded_block_sizes_def)
    ultimately show ?thesis using 2 by (simp add: encode_short)
  next
    case 3
    from less.prems obtain b rest where b: "decode_block (take 11 enc) = Some b"
        and rest: "decode (drop 11 enc) = Some rest" "data = b @ rest"
      by (auto simp: decode_long [OF 3] split: option.splits)
    have len: "length (take 11 enc) = 11" using 3 by simp
    note u = decode_block_unique [OF b, unfolded len]
    have "length b = 8"
    proof -
      have "int (length b) = decoded_block_sizes 11" using u block_sizes(2) [of "length b"] by simp
      also have "\<dots> = 8" by (simp add: decoded_block_sizes_def decoded_sizes_table)
      finally show ?thesis by simp
    qed
    moreover have "encode rest = drop 11 enc" using less.hyps [OF _ rest(1)] 3 by simp
    ultimately show ?thesis using u rest(2) by (simp add: encode_long)
  qed
qed

section \<open>Addresses\<close>

lemma decode_addr_encode_addr: "decode_addr (encode_addr tag data) = Some (tag, data)"
proof -
  let ?buf = "get_varint_data tag @ data" and ?sum = "take addr_checksum_size (cn_fast_hash (get_varint_data tag @ data))"
  have sum: "length ?sum = 4" by (simp add: addr_checksum_size_def)
  have v: "get_varint_data tag \<noteq> []" by (simp add: get_varint_data_def write_varint_bytes)
  have "decode (encode_addr tag data) = Some (?buf @ ?sum)"
    by (simp add: encode_addr_def Let_def decode_encode)
  moreover have "\<not> length (?buf @ ?sum) \<le> addr_checksum_size" using v sum by (simp add: addr_checksum_size_def)
  moreover have "length (?buf @ ?sum) - addr_checksum_size = length ?buf" using sum by (simp add: addr_checksum_size_def)
  ultimately show ?thesis
    using v read_varint_write [of tag data] by (simp add: decode_addr_def Let_def)
qed

text \<open>
  What \<^verbatim>\<open>decode_addr\<close> accepts: the encoding of the tag and the data it returns, or a text whose payload
  ends inside the varint of the tag (\<^verbatim>\<open>read_varint\<close> reports the bytes it has read as a success).
\<close>

lemma decode_addr_sound:
  assumes "decode_addr addr = Some (tag, data)"
  shows "addr = encode_addr tag data
    \<or> data = [] \<and> (\<exists>pre. pre \<noteq> [] \<and> (\<forall>b \<in> set pre. 128 \<le> unat b) \<and> addr = encode (pre @ take addr_checksum_size (cn_fast_hash pre)))"
proof -
  from assms obtain raw where raw: "decode addr = Some raw" and len: "addr_checksum_size < length raw"
    by (auto simp: decode_addr_def Let_def split: option.splits if_splits)
  define pre where "pre = take (length raw - addr_checksum_size) raw"
  from assms raw len have sum: "take addr_checksum_size (cn_fast_hash pre) = drop (length raw - addr_checksum_size) raw"
      and rd: "(case read_varint pre of (rd, t) \<Rightarrow> if rd \<le> 0 then None else Some (t, drop (nat rd) pre)) = Some (tag, data)"
    unfolding pre_def by (auto simp: decode_addr_def Let_def split: option.splits if_splits)
  have addr: "addr = encode (pre @ take addr_checksum_size (cn_fast_hash pre))"
    using encode_decode [OF raw] unfolding sum by (simp add: pre_def)
  obtain r where r: "read_varint pre = (r, tag)" "0 < r" "data = drop (nat r) pre"
    using rd by (cases "read_varint pre :: int \<times> u64") (auto split: if_splits)
  have "read_varint_from LENGTH(64) 0 0 (0 :: u64) pre = (r, tag)" using r(1) by (simp only: read_varint_def)
  from read_varint_from_sound [OF _ this] r(2)
  consider n rest where "pre = varint_bytes n @ rest" "r = int (length (varint_bytes n))" "unat tag = n"
    | "r = int (length pre)" "\<forall>b \<in> set pre. 128 \<le> unat b" by auto
  then show ?thesis
  proof cases
    case 1
    then have "pre = get_varint_data tag @ data" using r(3) by (simp add: get_varint_data_def write_varint_bytes)
    then show ?thesis using addr by (simp add: encode_addr_def Let_def)
  next
    case 2
    then show ?thesis using addr r by auto
  qed
qed

end
