(* ===== verification/OrbisFormatUtils.thy ===== *)
theory OrbisFormatUtils
  imports TransactionExtra TreeHash Base58 "HOL-Library.Multiset"
begin

text \<open>
  \<^verbatim>\<open>src/OrbisCore/OrbisTools.{h,cpp}\<close> and \<^verbatim>\<open>src/OrbisCore/OrbisFormatUtils.{h,cpp}\<close>: hashes of objects and
  blocks, amounts and fees, the checks a transaction prefix has to pass, output offsets, the
  decomposition of amounts into digits, and the construction of a transaction.

  The functions of \<^verbatim>\<open>src/orbis/orbis.cpp\<close> on keys are the fields of the record \<open>crypto\<close>, an argument of
  the definitions that call them; \<open>None\<close> is their result \<^verbatim>\<open>false\<close>.
\<close>

record crypto =
  check_key :: "PublicKey \<Rightarrow> bool"
  generate_key_derivation :: "PublicKey \<Rightarrow> SecretKey \<Rightarrow> KeyDerivation option"
  derive_public_key :: "KeyDerivation \<Rightarrow> nat \<Rightarrow> PublicKey \<Rightarrow> PublicKey option"
  derive_secret_key :: "KeyDerivation \<Rightarrow> nat \<Rightarrow> SecretKey \<Rightarrow> SecretKey"
  generate_key_image :: "PublicKey \<Rightarrow> SecretKey \<Rightarrow> KeyImage"
  generate_ring_signature :: "Hash \<Rightarrow> KeyImage \<Rightarrow> PublicKey list \<Rightarrow> SecretKey \<Rightarrow> nat \<Rightarrow> Signature list"

section \<open>Hashes of objects\<close>

definition NULL_HASH :: Hash where
  "NULL_HASH = replicate 32 0"

text \<open>\<^verbatim>\<open>toBinaryArray\<close> of a \<^verbatim>\<open>BinaryArray\<close> puts the length in front.\<close>

definition out_BinaryArray :: "blob \<Rightarrow> BinaryArray \<Rightarrow> blob result" where
  "out_BinaryArray out object = out_string out (asString object)"

definition getBinaryArrayHash :: "BinaryArray \<Rightarrow> Hash" where
  "getBinaryArrayHash binaryArray = cn_fast_hash binaryArray"

definition getObjectHash :: "(blob \<Rightarrow> 'a \<Rightarrow> blob result) \<Rightarrow> 'a \<Rightarrow> bool \<times> Hash" where
  "getObjectHash ser object =
    (case toBinaryArray ser object of
       None \<Rightarrow> (False, NULL_HASH)
     | Some ba \<Rightarrow> (True, getBinaryArrayHash ba))"

definition getObjectHash_size :: "(blob \<Rightarrow> 'a \<Rightarrow> blob result) \<Rightarrow> 'a \<Rightarrow> bool \<times> Hash \<times> nat" where
  "getObjectHash_size ser object =
    (case toBinaryArray ser object of
       None \<Rightarrow> (False, NULL_HASH, 2 ^ 64 - 1)
     | Some ba \<Rightarrow> (True, getBinaryArrayHash ba, length ba))"

definition getObjectHash_value :: "(blob \<Rightarrow> 'a \<Rightarrow> blob result) \<Rightarrow> 'a \<Rightarrow> Hash" where
  "getObjectHash_value ser object = snd (getObjectHash ser object)"

section \<open>Amounts\<close>

text \<open>The amount of an input; a base input has none and the loops below skip it.\<close>

fun input_amount :: "TransactionInput \<Rightarrow> u64 option" where
  "input_amount (VBaseInput v) = None"
| "input_amount (VKeyInput v) = Some (ki_amount v)"
| "input_amount (VMultisignatureInput v) = Some (mi_amount v)"

definition getInputAmount :: "'a Transaction_scheme \<Rightarrow> u64" where
  "getInputAmount transaction =
    fold (\<lambda>i amount. case input_amount i of None \<Rightarrow> amount | Some a \<Rightarrow> amount + a) (inputs transaction) 0"

definition getInputsAmounts :: "'a Transaction_scheme \<Rightarrow> u64 list" where
  "getInputsAmounts transaction =
    fold (\<lambda>i amounts. case input_amount i of None \<Rightarrow> amounts | Some a \<Rightarrow> amounts @ [a]) (inputs transaction) []"

definition getOutputAmount :: "'a Transaction_scheme \<Rightarrow> u64" where
  "getOutputAmount transaction = fold (\<lambda>out amount. amount + to_amount out) (outputs transaction) 0"

text \<open>
  \<^verbatim>\<open>decompose_amount_into_digits\<close>: the calls of the two handlers, in order.
\<close>

datatype amount_part = Chunk u64 | Dust u64

function decompose_loop :: "u64 \<Rightarrow> u64 \<Rightarrow> u64 \<Rightarrow> u64 \<Rightarrow> bool \<Rightarrow> amount_part list" where
  "decompose_loop dust_threshold amount order dust is_dust_handled =
    (if amount \<noteq> 0
     then let chunk = (amount mod 10) * order; amount = amount div 10; order = order * 10 in
       if dust + chunk \<le> dust_threshold then decompose_loop dust_threshold amount order (dust + chunk) is_dust_handled
       else (if \<not> is_dust_handled \<and> dust \<noteq> 0 then [Dust dust] else [])
         @ (if chunk \<noteq> 0 then [Chunk chunk] else [])
         @ decompose_loop dust_threshold amount order dust (is_dust_handled \<or> dust \<noteq> 0)
     else if \<not> is_dust_handled \<and> dust \<noteq> 0 then [Dust dust] else [])"
  by pat_completeness auto
termination
  by (relation "measure (\<lambda>(_, amount, _). unat amount)") (auto simp: unat_div unat_gt_0)

declare decompose_loop.simps [simp del]

definition decompose_amount_into_digits :: "u64 \<Rightarrow> u64 \<Rightarrow> amount_part list" where
  "decompose_amount_into_digits amount dust_threshold =
    (if amount = 0 then [] else decompose_loop dust_threshold amount 1 0 False)"

fun part_amount :: "amount_part \<Rightarrow> u64" where
  "part_amount (Chunk a) = a"
| "part_amount (Dust a) = a"

definition decomposeAmount :: "u64 \<Rightarrow> u64 \<Rightarrow> u64 list \<Rightarrow> u64 list" where
  "decomposeAmount amount dustThreshold decomposedAmounts =
    decomposedAmounts @ map part_amount (decompose_amount_into_digits amount dustThreshold)"

section \<open>Transactions\<close>

definition parseAndValidateTransactionFromBinaryArray :: "BinaryArray \<Rightarrow> (Transaction \<times> Hash \<times> Hash) option" where
  "parseAndValidateTransactionFromBinaryArray tx_blob =
    (case fromBinaryArray in_Transaction tx_blob of
       None \<Rightarrow> None
     | Some tx \<Rightarrow>
         Some (tx, cn_fast_hash tx_blob, getObjectHash_value out_TransactionPrefix (TransactionPrefix.truncate tx)))"

definition generate_key_image_helper :: "crypto \<Rightarrow> AccountKeys \<Rightarrow> PublicKey \<Rightarrow> nat \<Rightarrow> (KeyPair \<times> KeyImage) option" where
  "generate_key_image_helper C ack tx_public_key real_output_index =
    (case generate_key_derivation C tx_public_key (viewSecretKey ack) of
       None \<Rightarrow> None
     | Some recv_derivation \<Rightarrow>
         (case derive_public_key C recv_derivation real_output_index (spendPublicKey (ak_address ack)) of
            None \<Rightarrow> None
          | Some pk \<Rightarrow>
              let sk = derive_secret_key C recv_derivation real_output_index (spendSecretKey ack) in
              Some (\<lparr>kp_publicKey = pk, kp_secretKey = sk\<rparr>, generate_key_image C pk sk)))"

definition power_integral :: "u64 \<Rightarrow> u64 \<Rightarrow> u64" where
  "power_integral a b = (if b = 0 then 1 else fold (\<lambda>_ total. total * a) [1..<unat b] a)"

definition get_tx_fee :: "'a Transaction_scheme \<Rightarrow> u64 option" where
  "get_tx_fee tx =
    (let amount_in = fold (\<lambda>i amount. case input_amount i of None \<Rightarrow> amount | Some a \<Rightarrow> amount + a) (inputs tx) 0;
         amount_out = fold (\<lambda>out amount. amount + to_amount out) (outputs tx) 0
     in if \<not> amount_in \<ge> amount_out then None else Some (amount_in - amount_out))"

definition get_tx_fee_value :: "'a Transaction_scheme \<Rightarrow> u64" where
  "get_tx_fee_value tx = (case get_tx_fee tx of None \<Rightarrow> 0 | Some r \<Rightarrow> r)"

definition get_inputs_money_amount :: "'a Transaction_scheme \<Rightarrow> u64" where
  "get_inputs_money_amount tx =
    fold (\<lambda>i money. money + (case input_amount i of None \<Rightarrow> 0 | Some a \<Rightarrow> a)) (inputs tx) 0"

definition get_outs_money_amount :: "'a Transaction_scheme \<Rightarrow> u64" where
  "get_outs_money_amount tx = fold (\<lambda>out amount. amount + to_amount out) (outputs tx) 0"

definition get_block_height :: "Block \<Rightarrow> u32" where
  "get_block_height b =
    (case inputs (baseTransaction b) of
       [VBaseInput i] \<Rightarrow> blockIndex i
     | _ \<Rightarrow> 0)"

fun supported_input :: "TransactionInput \<Rightarrow> bool" where
  "supported_input (VBaseInput v) = False"
| "supported_input (VKeyInput v) = True"
| "supported_input (VMultisignatureInput v) = True"

definition check_inputs_types_supported :: "'a TransactionPrefix_scheme \<Rightarrow> bool" where
  "check_inputs_types_supported tx \<longleftrightarrow> list_all supported_input (inputs tx)"

text \<open>\<^verbatim>\<open>check_outs_valid\<close>; the result is the text of \<^verbatim>\<open>*error\<close>, or \<open>None\<close> when the outputs are valid.\<close>

definition check_out_valid :: "(PublicKey \<Rightarrow> bool) \<Rightarrow> TransactionOutput \<Rightarrow> string option" where
  "check_out_valid chk out =
    (case to_target out of
       VKeyOutput k \<Rightarrow>
         if to_amount out = 0 then Some ''Zero amount ouput''
         else if \<not> chk (ko_key k) then Some ''Output with invalid key''
         else None
     | VMultisignatureOutput m \<Rightarrow>
         if length (mo_keys m) < unat (requiredSignatureCount m)
         then Some ''Multisignature output with invalid required signature count''
         else if \<not> list_all chk (mo_keys m) then Some ''Multisignature output with invalid public key''
         else None)"

fun check_outs_loop :: "(PublicKey \<Rightarrow> bool) \<Rightarrow> TransactionOutput list \<Rightarrow> string option" where
  "check_outs_loop chk [] = None"
| "check_outs_loop chk (out # outs) =
    (case check_out_valid chk out of None \<Rightarrow> check_outs_loop chk outs | Some e \<Rightarrow> Some e)"

definition check_outs_valid :: "crypto \<Rightarrow> 'a TransactionPrefix_scheme \<Rightarrow> string option" where
  "check_outs_valid C tx = check_outs_loop (check_key C) (outputs tx)"

fun multisignature_diff :: "TransactionInput list \<Rightarrow> (u64 \<times> u32) set \<Rightarrow> bool" where
  "multisignature_diff [] inputsUsage = True"
| "multisignature_diff (VMultisignatureInput i # is) inputsUsage =
    (if (mi_amount i, outputIndex i) \<in> inputsUsage then False
     else multisignature_diff is (insert (mi_amount i, outputIndex i) inputsUsage))"
| "multisignature_diff (_ # is) inputsUsage = multisignature_diff is inputsUsage"

definition checkMultisignatureInputsDiff :: "'a TransactionPrefix_scheme \<Rightarrow> bool" where
  "checkMultisignatureInputsDiff tx = multisignature_diff (inputs tx) {}"

fun overflow_loop :: "u64 \<Rightarrow> u64 list \<Rightarrow> bool" where
  "overflow_loop money [] = True"
| "overflow_loop money (amount # as) = (if money > amount + money then False else overflow_loop (money + amount) as)"

definition check_inputs_overflow :: "'a TransactionPrefix_scheme \<Rightarrow> bool" where
  "check_inputs_overflow tx = overflow_loop 0 (map (\<lambda>i. case input_amount i of None \<Rightarrow> 0 | Some a \<Rightarrow> a) (inputs tx))"

definition check_outs_overflow :: "'a TransactionPrefix_scheme \<Rightarrow> bool" where
  "check_outs_overflow tx = overflow_loop 0 (map to_amount (outputs tx))"

definition check_money_overflow :: "'a TransactionPrefix_scheme \<Rightarrow> bool" where
  "check_money_overflow tx \<longleftrightarrow> check_inputs_overflow tx \<and> check_outs_overflow tx"

definition short_hash_str :: "Hash \<Rightarrow> blob" where
  "short_hash_str h =
    (let res = podToHex h in
     if length res = 64 then take 8 res @ bytes_of_string ''....'' @ drop (8 + 48) res else res)"

section \<open>Outputs of an account\<close>

text \<open>
  The results of \<^verbatim>\<open>derive_public_key\<close> and \<^verbatim>\<open>generate_key_derivation\<close> are not tested here; where they fail
  the code goes on with an uninitialized key, and the model has no result.
\<close>

definition is_out_to_acc_derivation :: "crypto \<Rightarrow> AccountKeys \<Rightarrow> KeyOutput \<Rightarrow> KeyDerivation \<Rightarrow> nat \<Rightarrow> bool option" where
  "is_out_to_acc_derivation C acc out_key derivation keyIndex =
    map_option (\<lambda>pk. pk = ko_key out_key) (derive_public_key C derivation keyIndex (spendPublicKey (ak_address acc)))"

definition is_out_to_acc :: "crypto \<Rightarrow> AccountKeys \<Rightarrow> KeyOutput \<Rightarrow> PublicKey \<Rightarrow> nat \<Rightarrow> bool option" where
  "is_out_to_acc C acc out_key tx_pub_key keyIndex =
    Option.bind (generate_key_derivation C tx_pub_key (viewSecretKey acc)) (\<lambda>derivation.
      is_out_to_acc_derivation C acc out_key derivation keyIndex)"

fun lookup_loop :: "crypto \<Rightarrow> AccountKeys \<Rightarrow> KeyDerivation \<Rightarrow> TransactionOutput list \<Rightarrow> nat \<Rightarrow> nat \<Rightarrow> nat list \<times> u64
    \<Rightarrow> (nat list \<times> u64) option" where
  "lookup_loop C acc derivation [] keyIndex outIndex (outs, money) = Some (outs, money)"
| "lookup_loop C acc derivation (out # os) keyIndex outIndex (outs, money) =
    (case to_target out of
       VKeyOutput k \<Rightarrow>
         Option.bind (is_out_to_acc_derivation C acc k derivation keyIndex) (\<lambda>mine.
           lookup_loop C acc derivation os (keyIndex + 1) (outIndex + 1)
             (if mine then (outs @ [outIndex], money + to_amount out) else (outs, money)))
     | VMultisignatureOutput m \<Rightarrow>
         lookup_loop C acc derivation os (keyIndex + length (mo_keys m)) (outIndex + 1) (outs, money))"

definition lookup_acc_outs_key :: "crypto \<Rightarrow> AccountKeys \<Rightarrow> Transaction \<Rightarrow> PublicKey \<Rightarrow> nat list \<Rightarrow> (nat list \<times> u64) option" where
  "lookup_acc_outs_key C acc tx tx_pub_key outs =
    Option.bind (generate_key_derivation C tx_pub_key (viewSecretKey acc)) (\<lambda>derivation.
      lookup_loop C acc derivation (outputs tx) 0 0 (outs, 0))"

text \<open>\<open>Some None\<close> is \<^verbatim>\<open>return false\<close>: the transaction has no public key.\<close>

definition lookup_acc_outs :: "crypto \<Rightarrow> AccountKeys \<Rightarrow> Transaction \<Rightarrow> nat list \<Rightarrow> (nat list \<times> u64) option option" where
  "lookup_acc_outs C acc tx outs =
    (let transactionPublicKey = getTransactionPublicKeyFromExtra (extra tx) in
     if transactionPublicKey = NULL_PUBLIC_KEY then Some None
     else map_option Some (lookup_acc_outs_key C acc tx transactionPublicKey outs))"

section \<open>Hashes of blocks\<close>

text \<open>\<^verbatim>\<open>tree_hash\<close> has no result on an empty list.\<close>

definition get_tx_tree_hash :: "Hash list \<Rightarrow> Hash option" where
  "get_tx_tree_hash tx_hashes = tree_hash tx_hashes"

definition get_block_tx_tree_hash :: "Block \<Rightarrow> Hash option" where
  "get_block_tx_tree_hash b =
    get_tx_tree_hash (getObjectHash_value out_Transaction (baseTransaction b) # transactionHashes b)"

definition get_block_hashing_blob :: "Block \<Rightarrow> BinaryArray option" where
  "get_block_hashing_blob b =
    Option.bind (toBinaryArray out_BlockHeader (BlockHeader.truncate b)) (\<lambda>ba.
    Option.bind (get_block_tx_tree_hash b) (\<lambda>treeRootHash.
    Some (ba @ treeRootHash @ get_varint_data (of_nat (length (transactionHashes b) + 1) :: u64))))"

definition get_block_hash :: "Block \<Rightarrow> bool \<times> Hash" where
  "get_block_hash b =
    (case get_block_hashing_blob b of
       None \<Rightarrow> (False, NULL_HASH)
     | Some ba \<Rightarrow> getObjectHash out_BinaryArray ba)"

definition get_aux_block_header_hash :: "Block \<Rightarrow> bool \<times> Hash" where
  "get_aux_block_header_hash b =
    (case get_block_hashing_blob b of
       None \<Rightarrow> (False, NULL_HASH)
     | Some blob \<Rightarrow> getObjectHash out_BinaryArray blob)"

definition get_block_longhash :: "(blob \<Rightarrow> Hash) \<Rightarrow> Block \<Rightarrow> Hash option" where
  "get_block_longhash cn_slow_hash b = map_option cn_slow_hash (get_block_hashing_blob b)"

section \<open>Output offsets\<close>

definition relative_output_offsets_to_absolute :: "u32 list \<Rightarrow> u32 list" where
  "relative_output_offsets_to_absolute off =
    fold (\<lambda>i res. res[i := res ! i + res ! (i - 1)]) [1..<length off] off"

definition absolute_output_offsets_to_relative :: "u32 list \<Rightarrow> u32 list" where
  "absolute_output_offsets_to_relative off =
    (if length off = 0 then off
     else let res = sort off in
       fold (\<lambda>i res. res[i := res ! i - res ! (i - 1)]) (rev [1..<length res]) res)"

section \<open>Construction of a transaction\<close>

record TransactionSourceEntry =
  se_outputs :: "(u32 \<times> PublicKey) list"
  realOutput :: nat
  realTransactionPublicKey :: PublicKey
  realOutputIndexInTransaction :: nat
  se_amount :: u64

record TransactionDestinationEntry =
  de_amount :: u64
  addr :: AccountPublicAddress

definition construct_input :: "crypto \<Rightarrow> AccountKeys \<Rightarrow> TransactionSourceEntry \<Rightarrow> (KeyInput \<times> KeyPair) option" where
  "construct_input C keys src_entr =
    (if length (se_outputs src_entr) \<le> realOutput src_entr then None
     else case generate_key_image_helper C keys (realTransactionPublicKey src_entr) (realOutputIndexInTransaction src_entr) of
         None \<Rightarrow> None
       | Some (in_ephemeral, img) \<Rightarrow>
           if kp_publicKey in_ephemeral \<noteq> snd (se_outputs src_entr ! realOutput src_entr) then None
           else Some (\<lparr>ki_amount = se_amount src_entr,
                       outputIndexes = absolute_output_offsets_to_relative (map fst (se_outputs src_entr)),
                       keyImage = img\<rparr>, in_ephemeral))"

fun construct_inputs :: "crypto \<Rightarrow> AccountKeys \<Rightarrow> TransactionSourceEntry list \<Rightarrow> (KeyInput \<times> KeyPair) list option" where
  "construct_inputs C keys [] = Some []"
| "construct_inputs C keys (src_entr # srcs) =
    Option.bind (construct_input C keys src_entr) (\<lambda>i. map_option ((#) i) (construct_inputs C keys srcs))"

fun construct_outputs :: "crypto \<Rightarrow> KeyPair \<Rightarrow> TransactionDestinationEntry list \<Rightarrow> nat \<Rightarrow> TransactionOutput list option" where
  "construct_outputs C txkey [] output_index = Some []"
| "construct_outputs C txkey (dst_entr # dsts) output_index =
    (if \<not> de_amount dst_entr > 0 then None
     else Option.bind (generate_key_derivation C (viewPublicKey (addr dst_entr)) (kp_secretKey txkey)) (\<lambda>derivation.
       Option.bind (derive_public_key C derivation output_index (spendPublicKey (addr dst_entr))) (\<lambda>out_eph_public_key.
       map_option ((#) \<lparr>to_amount = de_amount dst_entr, to_target = VKeyOutput \<lparr>ko_key = out_eph_public_key\<rparr>\<rparr>)
         (construct_outputs C txkey dsts (output_index + 1)))))"

definition construct_signatures :: "crypto \<Rightarrow> Hash \<Rightarrow> (TransactionSourceEntry \<times> KeyInput \<times> KeyPair) list \<Rightarrow> Signature list list" where
  "construct_signatures C tx_prefix_hash entries =
    map (\<lambda>(src_entr, i, in_ephemeral).
      generate_ring_signature C tx_prefix_hash (keyImage i) (map snd (se_outputs src_entr)) (kp_secretKey in_ephemeral)
        (realOutput src_entr)) entries"

text \<open>
  \<^verbatim>\<open>constructTransaction\<close>; \<open>txkey\<close> is the random pair of keys that \<^verbatim>\<open>generateKeyPair\<close> returns.
  \<^verbatim>\<open>std::sort\<close> leaves the order of destinations of the same amount open, here they keep their order.
\<close>

definition constructTransaction :: "crypto \<Rightarrow> KeyPair \<Rightarrow> AccountKeys \<Rightarrow> TransactionSourceEntry list
    \<Rightarrow> TransactionDestinationEntry list \<Rightarrow> blob \<Rightarrow> u64 \<Rightarrow> Transaction option" where
  "constructTransaction C txkey sender_account_keys sources destinations extra0 unlock_time =
    Option.bind (construct_inputs C sender_account_keys sources) (\<lambda>ins.
    let summary_inputs_money = fold (\<lambda>s m. m + se_amount s) sources 0;
        shuffled_dsts = sort_key de_amount destinations in
    Option.bind (construct_outputs C txkey shuffled_dsts 0) (\<lambda>outs.
    let summary_outs_money = fold (\<lambda>d m. m + de_amount d) shuffled_dsts 0 in
    if summary_outs_money > summary_inputs_money then None
    else
      let prefix = \<lparr>version = CURRENT_TRANSACTION_VERSION, unlockTime = unlock_time,
            inputs = map (\<lambda>(i, _). VKeyInput i) ins, outputs = outs,
            extra = addTransactionPublicKeyToExtra extra0 (kp_publicKey txkey)\<rparr>;
          tx_prefix_hash = getObjectHash_value out_TransactionPrefix prefix
      in Some (TransactionPrefix.extend prefix (Transaction.fields (construct_signatures C tx_prefix_hash (zip sources ins))))))"

section \<open>Sums and overflow\<close>

lemma fold_plus: "fold (\<lambda>x a. a + f x) xs (a :: 'a::comm_monoid_add) = a + sum_list (map f xs)"
  by (induction xs arbitrary: a) (auto simp: add_ac)

lemma overflow_loop_iff: "overflow_loop money as \<longleftrightarrow> unat money + sum_list (map unat as) < 2 ^ 64"
proof (induction as arbitrary: money)
  case Nil
  then show ?case using unat_u64_bound [of money] by simp
next
  case (Cons a as)
  have w: "money > a + money \<longleftrightarrow> 2 ^ LENGTH(64) \<le> unat money + unat a"
    using wrapped_add_iff [of money a] by (simp only: add.commute [of money a])
  show ?case
  proof (cases "money > a + money")
    case True
    with w show ?thesis by simp
  next
    case False
    with w have "unat money + unat a < 2 ^ LENGTH(64)" by linarith
    from unat_add_exact [OF this] Cons.IH [of "money + a"] False show ?thesis by (simp add: add.assoc)
  qed
qed

lemma sum_list_exact: "sum_list (map unat as) < 2 ^ 64 \<Longrightarrow> unat (sum_list as) = sum_list (map unat as)" for as :: "u64 list"
proof (induction as)
  case Nil
  then show ?case by simp
next
  case (Cons a as)
  then have s: "unat (sum_list as) = sum_list (map unat as)" by simp
  with Cons.prems have "unat a + unat (sum_list as) < 2 ^ LENGTH(64)" by simp
  from unat_add_exact [OF this] s show ?case by simp
qed

definition in_amounts :: "'a TransactionPrefix_scheme \<Rightarrow> nat list" where
  "in_amounts tx = map (\<lambda>i. case input_amount i of None \<Rightarrow> 0 | Some a \<Rightarrow> unat a) (inputs tx)"

definition out_amounts :: "'a TransactionPrefix_scheme \<Rightarrow> nat list" where
  "out_amounts tx = map (\<lambda>out. unat (to_amount out)) (outputs tx)"

lemma check_money_overflow_iff:
  "check_money_overflow tx \<longleftrightarrow> sum_list (in_amounts tx) < 2 ^ 64 \<and> sum_list (out_amounts tx) < 2 ^ 64"
proof -
  have "map unat (map (\<lambda>i. case input_amount i of None \<Rightarrow> 0 | Some a \<Rightarrow> a) (inputs tx)) = in_amounts tx"
    by (simp add: in_amounts_def split: option.splits)
  moreover have "map unat (map to_amount (outputs tx)) = out_amounts tx" by (simp add: out_amounts_def)
  ultimately show ?thesis
    unfolding check_money_overflow_def check_inputs_overflow_def check_outs_overflow_def overflow_loop_iff by simp
qed

lemma input_fold:
  "fold (\<lambda>i amount. case input_amount i of None \<Rightarrow> amount | Some a \<Rightarrow> amount + a) is (a :: u64)
   = a + sum_list (map (\<lambda>i. case input_amount i of None \<Rightarrow> 0 | Some a \<Rightarrow> a) is)"
  by (induction "is" arbitrary: a) (auto simp: add_ac split: option.splits)

lemma getInputAmount_money: "getInputAmount tx = get_inputs_money_amount tx"
  by (simp add: getInputAmount_def get_inputs_money_amount_def input_fold fold_plus)

lemma getInputsAmounts_eq: "getInputsAmounts tx = List.map_filter input_amount (inputs tx)"
proof -
  have "fold (\<lambda>i amounts. case input_amount i of None \<Rightarrow> amounts | Some a \<Rightarrow> amounts @ [a]) is acc
      = acc @ List.map_filter input_amount is" for "is" acc
    by (induction "is" arbitrary: acc) (auto simp: map_filter_simps split: option.splits)
  then show ?thesis by (simp add: getInputsAmounts_def)
qed

text \<open>Without overflow the fee is what the inputs bring in more than the outputs spend.\<close>

lemma get_tx_fee_exact:
  assumes "check_money_overflow tx"
  shows "get_tx_fee tx = (if sum_list (out_amounts tx) \<le> sum_list (in_amounts tx)
    then Some (of_nat (sum_list (in_amounts tx) - sum_list (out_amounts tx))) else None)"
proof -
  let ?i = "sum_list (map (\<lambda>i. case input_amount i of None \<Rightarrow> 0 | Some a \<Rightarrow> a) (inputs tx))"
    and ?o = "sum_list (map to_amount (outputs tx))"
  have "map unat (map (\<lambda>i. case input_amount i of None \<Rightarrow> 0 | Some a \<Rightarrow> a) (inputs tx)) = in_amounts tx"
    by (simp add: in_amounts_def split: option.splits)
  then have i: "unat ?i = sum_list (in_amounts tx)"
    using assms sum_list_exact [of "map (\<lambda>i. case input_amount i of None \<Rightarrow> 0 | Some a \<Rightarrow> a) (inputs tx)"]
    unfolding check_money_overflow_iff by simp
  have "map unat (map to_amount (outputs tx)) = out_amounts tx" by (simp add: out_amounts_def)
  then have o: "unat ?o = sum_list (out_amounts tx)"
    using assms sum_list_exact [of "map to_amount (outputs tx)"] unfolding check_money_overflow_iff by simp
  have le: "?o \<le> ?i \<longleftrightarrow> sum_list (out_amounts tx) \<le> sum_list (in_amounts tx)" by (simp add: word_le_nat_alt i o)
  have "?i - ?o = of_nat (unat ?i - unat ?o)" if "?o \<le> ?i"
    using that by (simp add: word_le_nat_alt of_nat_diff)
  with le show ?thesis by (simp add: get_tx_fee_def input_fold fold_plus i o)
qed

lemma power_integral_eq: "power_integral a b = a ^ unat b"
proof -
  have f: "fold (\<lambda>_ total. total * a) xs t = t * a ^ length xs" for xs :: "nat list" and t
    by (induction xs arbitrary: t) (auto simp: mult_ac)
  show ?thesis
  proof (cases "b = 0")
    case False
    then have "unat b = Suc (unat b - 1)" by (simp add: unat_gt_0)
    then have "a * a ^ (unat b - 1) = a ^ unat b" by (metis power_Suc)
    with False show ?thesis by (simp add: power_integral_def f)
  qed (simp add: power_integral_def)
qed

section \<open>Decomposition of amounts\<close>

definition parts_sum :: "amount_part list \<Rightarrow> nat" where
  "parts_sum ps = sum_list (map (\<lambda>p. unat (part_amount p)) ps)"

lemma parts_sum_simps [simp]:
  "parts_sum [] = 0" "parts_sum (p # ps) = unat (part_amount p) + parts_sum ps"
  "parts_sum (ps @ qs) = parts_sum ps + parts_sum qs"
  by (simp_all add: parts_sum_def)

text \<open>One step of the loop in natural numbers: the digit that is taken off and what remains.\<close>

lemma digit_step:
  fixes amount order :: u64
  assumes "amount \<noteq> 0" and "unat amount * unat order < 2 ^ 64" and "order \<noteq> 0"
  shows "unat ((amount mod 10) * order) = unat amount mod 10 * unat order"
    "unat (amount div 10) = unat amount div 10"
    "amount div 10 \<noteq> 0 \<Longrightarrow> unat (order * 10) = unat order * 10"
    "unat amount mod 10 * unat order + unat amount div 10 * (unat order * 10) = unat amount * unat order"
proof -
  have "unat amount mod 10 * unat order \<le> unat amount * unat order" by (rule mult_right_mono) simp_all
  then have "unat amount mod 10 * unat order < 2 ^ 64" using assms(2) by (rule le_less_trans)
  then have "unat (amount mod 10) * unat order < 2 ^ LENGTH(64)" by (simp add: unat_mod)
  then show "unat ((amount mod 10) * order) = unat amount mod 10 * unat order"
    using unat_mult_exact [of "amount mod 10" order] by (simp add: unat_mod)
  show d: "unat (amount div 10) = unat amount div 10" by (simp add: unat_div)
  show s: "unat amount mod 10 * unat order + unat amount div 10 * (unat order * 10) = unat amount * unat order"
  proof -
    have "unat amount * unat order = (unat amount div 10 * 10 + unat amount mod 10) * unat order" by (simp only: div_mult_mod_eq)
    then show ?thesis by (simp only: distrib_right mult.assoc mult.commute [of 10] add.commute)
  qed
  show "unat (order * 10) = unat order * 10" if "amount div 10 \<noteq> 0"
  proof -
    have "1 \<le> unat amount div 10" using that d by (metis Suc_leI One_nat_def unat_gt_0)
    then have "unat order * 10 \<le> unat amount div 10 * (unat order * 10)" by simp
    then have "unat order * 10 < 2 ^ 64" using s assms(2) by linarith
    then have "unat order * unat (10 :: u64) < 2 ^ LENGTH(64)" by simp
    from unat_mult_exact [OF this] show ?thesis by simp
  qed
qed

lemma decompose_loop_sum:
  "unat amount * unat order + unat dust < 2 ^ 64 \<Longrightarrow> (amount \<noteq> 0 \<Longrightarrow> order \<noteq> 0) \<Longrightarrow>
   (amount \<noteq> 0 \<Longrightarrow> handled \<Longrightarrow> unat threshold < unat dust + unat order) \<Longrightarrow>
   parts_sum (decompose_loop threshold amount order dust handled)
     = unat amount * unat order + (if handled then 0 else unat dust)"
proof (induction threshold amount order dust handled rule: decompose_loop.induct)
  case (1 threshold amount order dust handled)
  show ?case
  proof (cases "amount = 0")
    case True
    then show ?thesis by (auto simp: decompose_loop.simps [of threshold 0])
  next
    case False
    let ?c = "amount mod 10 * order"
    have b: "unat amount * unat order < 2 ^ 64" using "1.prems"(1) by simp
    note d = digit_step [OF False b "1.prems"(2) [OF False]]
    have dc: "unat (dust + ?c) = unat dust + unat ?c" using "1.prems"(1) d by (intro unat_add_exact) simp
    have ord: "amount div 10 \<noteq> 0 \<Longrightarrow> order * 10 \<noteq> 0" using d(3) "1.prems"(2) [OF False] unat_eq_zero [of order] unat_eq_zero [of "order * 10"] by auto
    have bnd: "unat (amount div 10) * unat (order * 10) + unat dust + unat ?c < 2 ^ 64
        \<and> unat (amount div 10) * unat (order * 10) + unat ?c = unat amount * unat order"
      using d "1.prems"(1) by (cases "amount div 10 = 0") auto
    show ?thesis
    proof (cases "dust + ?c \<le> threshold")
      case True
      have z: "unat ?c = 0" if handled
      proof (rule ccontr)
        assume "unat ?c \<noteq> 0"
        then have "unat order \<le> unat ?c" using d(1) by simp
        then show False using "1.prems"(3) [OF False that] True dc by (simp add: word_le_nat_alt)
      qed
      have h: "unat threshold < unat (dust + ?c) + unat (order * 10)" if "amount div 10 \<noteq> 0" handled
        using "1.prems"(3) [OF False that(2)] dc d(3) [OF that(1)] by simp
      from "1.IH"(1) [OF False refl refl refl True _ ord h] bnd dc
      have "parts_sum (decompose_loop threshold (amount div 10) (order * 10) (dust + ?c) handled)
          = unat (amount div 10) * unat (order * 10) + (if handled then 0 else unat (dust + ?c))" by simp
      then have "parts_sum (decompose_loop threshold amount order dust handled)
          = unat (amount div 10) * unat (order * 10) + (if handled then 0 else unat dust + unat ?c)"
        using False True dc by (simp add: decompose_loop.simps [of threshold amount] Let_def)
      then show ?thesis using bnd z by (cases handled) auto
    next
      case F: False
      have h: "unat threshold < unat dust + unat (order * 10)" if "amount div 10 \<noteq> 0"
      proof -
        have "unat ?c \<le> unat (order * 10)" using d(1) d(3) [OF that] by (simp add: mult.commute mult_le_mono1)
        then show ?thesis using F dc by (simp add: word_le_nat_alt)
      qed
      from "1.IH"(2) [OF False refl refl refl F _ ord h] bnd
      have "parts_sum (decompose_loop threshold (amount div 10) (order * 10) dust (handled \<or> dust \<noteq> 0))
          = unat (amount div 10) * unat (order * 10) + (if handled \<or> dust \<noteq> 0 then 0 else unat dust)" by simp
      moreover have "parts_sum (decompose_loop threshold amount order dust handled)
          = (if handled then 0 else unat dust) + unat ?c
            + parts_sum (decompose_loop threshold (amount div 10) (order * 10) dust (handled \<or> dust \<noteq> 0))"
        using False F by (auto simp: decompose_loop.simps [of threshold amount] Let_def)
      ultimately show ?thesis using bnd by auto
    qed
  qed
qed

lemma decompose_sum: "parts_sum (decompose_amount_into_digits amount threshold) = unat amount"
  using decompose_loop_sum [of amount 1 0 False threshold] unat_u64_bound [of amount] by (simp add: decompose_amount_into_digits_def)

text \<open>Chunks are one nonzero digit times a power of ten, dust is at most the threshold.\<close>

definition good_part :: "u64 \<Rightarrow> amount_part \<Rightarrow> bool" where
  "good_part threshold p \<longleftrightarrow>
    (case p of Chunk c \<Rightarrow> \<exists>d k. 1 \<le> d \<and> d \<le> 9 \<and> unat c = d * 10 ^ k | Dust d \<Rightarrow> 0 < d \<and> d \<le> threshold)"

lemma decompose_loop_good:
  "unat amount * unat order < 2 ^ 64 \<Longrightarrow> (amount \<noteq> 0 \<Longrightarrow> unat order = 10 ^ k) \<Longrightarrow> dust \<le> threshold \<Longrightarrow>
   list_all (good_part threshold) (decompose_loop threshold amount order dust handled)"
proof (induction threshold amount order dust handled arbitrary: k rule: decompose_loop.induct)
  case (1 threshold amount order dust handled)
  have dust: "list_all (good_part threshold) (if \<not> handled \<and> dust \<noteq> 0 then [Dust dust] else [])"
    using "1.prems"(3) by (simp add: good_part_def word_neq_0_conv)
  show ?case
  proof (cases "amount = 0")
    case True
    then show ?thesis using dust by (simp add: decompose_loop.simps [of threshold 0])
  next
    case False
    let ?c = "amount mod 10 * order"
    have "order \<noteq> 0" using "1.prems"(2) [OF False] by auto
    note d = digit_step [OF False "1.prems"(1) this]
    have ord: "amount div 10 \<noteq> 0 \<Longrightarrow> unat (order * 10) = 10 ^ Suc k" using d(3) "1.prems"(2) [OF False] by simp
    have b: "unat (amount div 10) * unat (order * 10) < 2 ^ 64"
    proof (cases "amount div 10 = 0")
      case False
      then have "unat (amount div 10) * unat (order * 10) \<le> unat amount * unat order" using d by (metis le_add2)
      then show ?thesis using "1.prems"(1) by (rule le_less_trans)
    qed simp
    have c: "list_all (good_part threshold) (if ?c \<noteq> 0 then [Chunk ?c] else [])"
    proof (cases "?c = 0")
      case F: False
      then have "unat amount mod 10 \<noteq> 0" using d(1) by (metis mult_0 unat_eq_zero)
      then have "1 \<le> unat amount mod 10" "unat amount mod 10 \<le> 9" by auto
      then have "\<exists>d k. 1 \<le> d \<and> d \<le> 9 \<and> unat ?c = d * 10 ^ k" using d(1) "1.prems"(2) [OF False] by metis
      with F show ?thesis by (simp add: good_part_def)
    qed simp
    show ?thesis
    proof (cases "dust + ?c \<le> threshold")
      case True
      from "1.IH"(1) [OF False refl refl refl True b ord True] True False show ?thesis
        by (simp add: decompose_loop.simps [of threshold amount] Let_def)
    next
      case F: False
      from "1.IH"(2) [OF False refl refl refl F b ord "1.prems"(3)] F False dust c show ?thesis
        by (simp add: decompose_loop.simps [of threshold amount] Let_def)
    qed
  qed
qed

lemma decompose_good: "list_all (good_part threshold) (decompose_amount_into_digits amount threshold)"
  using decompose_loop_good [of amount 1 0 0 threshold False] unat_u64_bound [of amount] by (simp add: decompose_amount_into_digits_def)

section \<open>The checks of a transaction prefix\<close>

fun multisig_key :: "TransactionInput \<Rightarrow> (u64 \<times> u32) option" where
  "multisig_key (VMultisignatureInput i) = Some (mi_amount i, outputIndex i)"
| "multisig_key _ = None"

lemma multisignature_diff_iff:
  "multisignature_diff is used \<longleftrightarrow>
   distinct (List.map_filter multisig_key is) \<and> set (List.map_filter multisig_key is) \<inter> used = {}"
  by (induction "is" used rule: multisignature_diff.induct) (auto simp: map_filter_simps)

definition valid_out :: "crypto \<Rightarrow> TransactionOutput \<Rightarrow> bool" where
  "valid_out C out \<longleftrightarrow>
    (case to_target out of
       VKeyOutput k \<Rightarrow> to_amount out \<noteq> 0 \<and> check_key C (ko_key k)
     | VMultisignatureOutput m \<Rightarrow>
         unat (requiredSignatureCount m) \<le> length (mo_keys m) \<and> list_all (check_key C) (mo_keys m))"

lemma check_out_valid_iff: "check_out_valid (check_key C) out = None \<longleftrightarrow> valid_out C out"
  by (cases "to_target out") (auto simp: check_out_valid_def valid_out_def)

lemma check_outs_valid_iff: "check_outs_valid C tx = None \<longleftrightarrow> list_all (valid_out C) (outputs tx)"
proof -
  have "check_outs_loop (check_key C) outs = None \<longleftrightarrow> list_all (valid_out C) outs" for outs
    by (induction outs) (auto simp: check_out_valid_iff [symmetric] split: option.splits)
  then show ?thesis by (simp add: check_outs_valid_def)
qed

section \<open>Offsets\<close>

lemma rel_to_abs_nth:
  fixes off :: "u32 list"
  assumes "n \<le> length off"
  shows "length (fold (\<lambda>i res. res[i := res ! i + res ! (i - 1)]) [1..<n] off) = length off
    \<and> (\<forall>k < length off. fold (\<lambda>i res. res[i := res ! i + res ! (i - 1)]) [1..<n] off ! k
        = (if k < n then sum_list (take (Suc k) off) else off ! k))"
  using assms
proof (induction n)
  case 0
  then show ?case by simp
next
  case (Suc n)
  show ?case
  proof (cases "n = 0")
    case True
    then show ?thesis using Suc.prems by (auto simp: take_Suc_conv_app_nth)
  next
    case False
    let ?f = "fold (\<lambda>i res. res[i := res ! i + res ! (i - 1)]) [1..<n] off"
    have IH: "length ?f = length off" "\<And>k. k < length off \<Longrightarrow> ?f ! k = (if k < n then sum_list (take (Suc k) off) else off ! k)"
      using Suc by auto
    have "[1..<Suc n] = [1..<n] @ [n]" using False by simp
    moreover have "?f ! (n - 1) = sum_list (take n off)" using IH(2) [of "n - 1"] Suc.prems False by simp
    moreover have "sum_list (take (Suc n) off) = sum_list (take n off) + off ! n" using Suc.prems by (simp add: take_Suc_conv_app_nth)
    ultimately show ?thesis using IH Suc.prems by (auto simp: nth_list_update add.commute less_Suc_eq)
  qed
qed

lemma abs_to_rel_nth:
  fixes res :: "u32 list"
  assumes "n \<le> length res"
  shows "length (fold (\<lambda>i res. res[i := res ! i - res ! (i - 1)]) (rev [1..<n]) res) = length res
    \<and> (\<forall>k < length res. fold (\<lambda>i res. res[i := res ! i - res ! (i - 1)]) (rev [1..<n]) res ! k
        = (if 0 < k \<and> k < n then res ! k - res ! (k - 1) else res ! k))"
  using assms
proof (induction n arbitrary: res)
  case 0
  then show ?case by simp
next
  case (Suc n)
  show ?case
  proof (cases "n = 0")
    case False
    let ?r = "res[n := res ! n - res ! (n - 1)]"
    have "rev [1..<Suc n] = n # rev [1..<n]" using False by simp
    then show ?thesis using Suc.IH [of ?r] Suc.prems False by (auto simp: nth_list_update less_Suc_eq)
  qed (use Suc in auto)
qed

lemma relative_nth:
  assumes "off \<noteq> []"
  shows "length (absolute_output_offsets_to_relative off) = length off"
    "k < length off \<Longrightarrow> absolute_output_offsets_to_relative off ! k
      = (if k = 0 then sort off ! 0 else sort off ! k - sort off ! (k - 1))"
  using abs_to_rel_nth [of "length off" "sort off"] assms
  by (auto simp: absolute_output_offsets_to_relative_def Let_def)

lemma absolute_nth:
  shows "length (relative_output_offsets_to_absolute off) = length off"
    "k < length off \<Longrightarrow> relative_output_offsets_to_absolute off ! k = sum_list (take (Suc k) off)"
  using rel_to_abs_nth [of "length off" off] by (auto simp: relative_output_offsets_to_absolute_def)

text \<open>The differences add up to the offsets, also modulo \<open>2 ^ 32\<close>.\<close>

lemma telescope:
  assumes "off \<noteq> []" and "k < length off"
  shows "sum_list (take (Suc k) (absolute_output_offsets_to_relative off)) = sort off ! k"
  using assms(2)
proof (induction k)
  case 0
  then show ?case using relative_nth [OF assms(1)] by (simp add: take_Suc_conv_app_nth)
next
  case (Suc k)
  then show ?case using relative_nth [OF assms(1)] by (simp add: take_Suc_conv_app_nth [of "Suc k"])
qed

lemma offsets_roundtrip: "relative_output_offsets_to_absolute (absolute_output_offsets_to_relative off) = sort off"
proof (cases "off = []")
  case True
  then show ?thesis by (simp add: relative_output_offsets_to_absolute_def absolute_output_offsets_to_relative_def)
next
  case False
  show ?thesis
    using relative_nth(1) [OF False] absolute_nth telescope [OF False] by (intro nth_equalityI) simp_all
qed

section \<open>Transactions and blocks as bytes\<close>

text \<open>The hash of the received bytes is the hash of the transaction.\<close>

lemma parse_transaction_hash:
  assumes "parseAndValidateTransactionFromBinaryArray blob = Some (tx, h, ph)"
  shows "ok_Transaction tx \<and> blob = fmt_Transaction tx \<and> h = getObjectHash_value out_Transaction tx
    \<and> ph = cn_fast_hash (fmt_TransactionPrefix (TransactionPrefix.truncate tx))"
proof -
  from assms have f: "fromBinaryArray in_Transaction blob = Some tx" and h: "h = cn_fast_hash blob"
      "ph = getObjectHash_value out_TransactionPrefix (TransactionPrefix.truncate tx)"
    by (auto simp: parseAndValidateTransactionFromBinaryArray_def split: option.splits)
  from tx.from_sound [OF f] have ok: "ok_Transaction tx" "blob = fmt_Transaction tx" by auto
  then have "ok_TransactionPrefix (TransactionPrefix.truncate tx)" by (simp add: ok_Transaction_def)
  with ok h show ?thesis
    by (simp add: getObjectHash_value_def getObjectHash_def getBinaryArrayHash_def tx.toBinaryArray_fmt tx_prefix.toBinaryArray_fmt)
qed

lemma length_object_hash [simp]: "length (getObjectHash_value ser x) = 32"
  by (simp add: getObjectHash_value_def getObjectHash_def NULL_HASH_def getBinaryArrayHash_def split: option.split)

lemma length_tree_hash:
  "list_all (\<lambda>bs. length bs = 32) hs \<Longrightarrow> hs \<noteq> [] \<Longrightarrow> \<exists>h. tree_hash hs = Some h \<and> length h = 32"
  by (auto simp: tree_hash_def Let_def list_all_length)

lemma block_tree_hash:
  "ok_Block b \<Longrightarrow> \<exists>h. get_block_tx_tree_hash b = Some h \<and> length h = 32"
  using length_tree_hash [of "getObjectHash_value out_Transaction (baseTransaction b) # transactionHashes b"]
  by (simp add: get_block_tx_tree_hash_def get_tx_tree_hash_def ok_Block_def list_ok_def)

lemma hashing_blob:
  assumes "ok_Block b"
  obtains h where "get_block_tx_tree_hash b = Some h" and "length h = 32"
    and "get_block_hashing_blob b = Some (fmt_BlockHeader (BlockHeader.truncate b) @ h
      @ varint_bytes (unat (of_nat (length (transactionHashes b) + 1) :: u64)))"
proof -
  from block_tree_hash [OF assms] obtain h where h: "get_block_tx_tree_hash b = Some h" "length h = 32" by blast
  moreover have "toBinaryArray out_BlockHeader (BlockHeader.truncate b) = Some (fmt_BlockHeader (BlockHeader.truncate b))"
    using assms by (intro header.toBinaryArray_fmt) (simp add: ok_Block_def)
  ultimately show ?thesis
    using that [of h] by (simp add: get_block_hashing_blob_def get_varint_data_def write_varint_bytes)
qed

text \<open>
  What the proof of work and the hash of a block commit to: the header, the root of the tree of
  transaction hashes, and the number of transactions.
\<close>

lemma hashing_blob_commits:
  assumes ok: "ok_Block b" "ok_Block c" and eq: "get_block_hashing_blob b = get_block_hashing_blob c"
    and len: "length (transactionHashes b) + 1 < 2 ^ 64" "length (transactionHashes c) + 1 < 2 ^ 64"
  shows "BlockHeader.truncate b = BlockHeader.truncate c \<and> get_block_tx_tree_hash b = get_block_tx_tree_hash c
    \<and> length (transactionHashes b) = length (transactionHashes c)"
proof -
  define n where "n b = (of_nat (length (transactionHashes b) + 1) :: u64)" for b :: Block
  obtain hb where hb: "get_block_tx_tree_hash b = Some hb" "length hb = 32"
      "get_block_hashing_blob b = Some (fmt_BlockHeader (BlockHeader.truncate b) @ hb @ uint_fmt (n b))"
    using hashing_blob [OF ok(1)] unfolding n_def uint_fmt_def by blast
  obtain hc where hc: "get_block_tx_tree_hash c = Some hc" "length hc = 32"
      "get_block_hashing_blob c = Some (fmt_BlockHeader (BlockHeader.truncate c) @ hc @ uint_fmt (n c))"
    using hashing_blob [OF ok(2)] unfolding n_def uint_fmt_def by blast
  have "ok_BlockHeader (BlockHeader.truncate b)" "ok_BlockHeader (BlockHeader.truncate c)" using ok by (simp_all add: ok_Block_def)
  from header.fmt_prefix_free [OF this, of "hb @ uint_fmt (n b)" "hc @ uint_fmt (n c)"] hb(3) hc(3) eq
  have h: "BlockHeader.truncate b = BlockHeader.truncate c" "hb @ uint_fmt (n b) = hc @ uint_fmt (n c)" by auto
  with hb(2) hc(2) have e: "hb = hc" "uint_fmt (n b) = uint_fmt (n c)" by (auto simp: append_eq_append_conv)
  from c64.fmt_prefix_free [of "n b" "[]" "n c" "[]"] e(2) have "n b = n c" by simp
  then have "unat (n b) = unat (n c)" by simp
  with len have "length (transactionHashes b) = length (transactionHashes c)" unfolding n_def
    by (simp add: unat_of_nat del: of_nat_Suc of_nat_add)
  with h(1) e(1) hb(1) hc(1) show ?thesis by simp
qed

section \<open>Constructed transactions\<close>

lemma construct_inputs_some:
  "construct_inputs C keys srcs = Some ins \<Longrightarrow>
   list_all2 (\<lambda>src (i, kp). construct_input C keys src = Some (i, kp)) srcs ins"
  by (induction srcs arbitrary: ins) (auto simp: bind_eq_Some_conv)

lemma construct_input_some:
  "construct_input C keys src = Some (i, kp) \<Longrightarrow>
   ki_amount i = se_amount src \<and> outputIndexes i = absolute_output_offsets_to_relative (map fst (se_outputs src))
   \<and> realOutput src < length (se_outputs src) \<and> snd (se_outputs src ! realOutput src) = kp_publicKey kp"
  by (auto simp: construct_input_def split: if_splits option.splits)

lemma construct_outputs_some:
  "construct_outputs C txkey dsts n = Some outs \<Longrightarrow>
   map to_amount outs = map de_amount dsts \<and> list_all (\<lambda>d. de_amount d \<noteq> 0) dsts
   \<and> (\<forall>i < length dsts. \<exists>D k. generate_key_derivation C (viewPublicKey (addr (dsts ! i))) (kp_secretKey txkey) = Some D
        \<and> derive_public_key C D (n + i) (spendPublicKey (addr (dsts ! i))) = Some k
        \<and> to_target (outs ! i) = VKeyOutput \<lparr>ko_key = k\<rparr>)"
proof (induction dsts arbitrary: n outs)
  case Nil
  then show ?case by simp
next
  case (Cons d dsts)
  then obtain D k os where d: "de_amount d \<noteq> 0" "generate_key_derivation C (viewPublicKey (addr d)) (kp_secretKey txkey) = Some D"
      "derive_public_key C D n (spendPublicKey (addr d)) = Some k" "construct_outputs C txkey dsts (n + 1) = Some os"
      "outs = \<lparr>to_amount = de_amount d, to_target = VKeyOutput \<lparr>ko_key = k\<rparr>\<rparr> # os"
    by (auto simp: bind_eq_Some_conv split: if_splits)
  from Cons.IH [OF d(4)] d show ?case by (auto simp: nth_Cons split: nat.split)
qed

lemma construct_some:
  assumes "constructTransaction C txkey keys srcs dsts e u = Some tx"
  obtains ins outs where "construct_inputs C keys srcs = Some ins"
    and "construct_outputs C txkey (sort_key de_amount dsts) 0 = Some outs"
    and "sum_list (map de_amount dsts) \<le> sum_list (map se_amount srcs)"
    and "inputs tx = map (\<lambda>(i, _). VKeyInput i) ins" and "outputs tx = outs" and "unlockTime tx = u"
    and "version tx = CURRENT_TRANSACTION_VERSION"
    and "extra tx = addTransactionPublicKeyToExtra e (kp_publicKey txkey)"
    and "signatures tx = construct_signatures C
      (getObjectHash_value out_TransactionPrefix (TransactionPrefix.truncate tx)) (zip srcs ins)"
proof -
  from assms obtain ins outs where
      io: "construct_inputs C keys srcs = Some ins" "construct_outputs C txkey (sort_key de_amount dsts) 0 = Some outs"
    by (auto simp: constructTransaction_def Let_def bind_eq_Some_conv)
  have "mset (map de_amount (sort_key de_amount dsts)) = mset (map de_amount dsts)" by simp
  then have s: "sum_list (map de_amount (sort_key de_amount dsts)) = sum_list (map de_amount dsts)"
    by (metis sum_mset_sum_list)
  let ?p = "\<lparr>version = CURRENT_TRANSACTION_VERSION, unlockTime = u, inputs = map (\<lambda>(i, _). VKeyInput i) ins, outputs = outs,
      extra = addTransactionPublicKeyToExtra e (kp_publicKey txkey)\<rparr>"
  let ?sigs = "construct_signatures C (getObjectHash_value out_TransactionPrefix ?p) (zip srcs ins)"
  have "sum_list (map de_amount dsts) \<le> sum_list (map se_amount srcs) \<and> tx = TransactionPrefix.extend ?p (Transaction.fields ?sigs)"
    using assms by (simp add: constructTransaction_def Let_def io fold_plus s not_less split: if_splits)
  then have le: "sum_list (map de_amount dsts) \<le> sum_list (map se_amount srcs)"
    and t: "tx = TransactionPrefix.extend ?p (Transaction.fields ?sigs)" by blast+
  show ?thesis by (rule that [OF io le]) (simp_all add: t TransactionPrefix.defs Transaction.defs)
qed

text \<open>The money of a constructed transaction: what the sources have more than the destinations is the fee.\<close>

lemma construct_amounts:
  assumes "constructTransaction C txkey keys srcs dsts e u = Some tx"
  shows "map input_amount (inputs tx) = map (Some \<circ> se_amount) srcs"
    "map to_amount (outputs tx) = sort (map de_amount dsts)"
    "0 \<notin> set (map to_amount (outputs tx))"
    "get_tx_fee tx = Some (sum_list (map se_amount srcs) - sum_list (map de_amount dsts))"
proof -
  obtain ins where i: "construct_inputs C keys srcs = Some ins"
      "construct_outputs C txkey (sort_key de_amount dsts) 0 = Some (outputs tx)"
      "sum_list (map de_amount dsts) \<le> sum_list (map se_amount srcs)" "inputs tx = map (\<lambda>(i, _). VKeyInput i) ins"
    by (rule construct_some [OF assms]) (rule that, simp_all)
  have "map (\<lambda>p. input_amount (case p of (i, _) \<Rightarrow> VKeyInput i)) ins = map (Some \<circ> se_amount) srcs"
    using construct_inputs_some [OF i(1)] by (induction rule: list_all2_induct) (auto dest: construct_input_some)
  then show ia: "map input_amount (inputs tx) = map (Some \<circ> se_amount) srcs" unfolding i(4) by (simp add: comp_def)
  note o = construct_outputs_some [OF i(2)]
  have "sorted (map de_amount (sort_key de_amount dsts))" by simp
  moreover have "mset (map de_amount (sort_key de_amount dsts)) = mset (map de_amount dsts)" by simp
  ultimately have srt: "map de_amount (sort_key de_amount dsts) = sort (map de_amount dsts)" by (metis properties_for_sort)
  with o show oa: "map to_amount (outputs tx) = sort (map de_amount dsts)" by simp
  show "0 \<notin> set (map to_amount (outputs tx))" using o by (auto simp: list_all_iff oa)
  have "map (\<lambda>i. case input_amount i of None \<Rightarrow> 0 | Some a \<Rightarrow> a) (inputs tx) = map se_amount srcs"
    using arg_cong [OF ia, of "map (\<lambda>a. case a of None \<Rightarrow> 0 | Some a \<Rightarrow> a)"] by (simp add: comp_def)
  moreover have "sum_list (map to_amount (outputs tx)) = sum_list (map de_amount dsts)"
    unfolding oa by (metis mset_sort sum_mset_sum_list)
  ultimately show "get_tx_fee tx = Some (sum_list (map se_amount srcs) - sum_list (map de_amount dsts))"
    using i(3) by (simp add: get_tx_fee_def input_fold fold_plus)
qed

text \<open>An account looks through outputs with keys: it finds the ones whose key it derives.\<close>

definition mine :: "crypto \<Rightarrow> AccountKeys \<Rightarrow> KeyDerivation \<Rightarrow> TransactionOutput \<Rightarrow> nat \<Rightarrow> bool" where
  "mine C acc D out i \<longleftrightarrow>
    (case to_target out of
       VKeyOutput k \<Rightarrow> derive_public_key C D i (spendPublicKey (ak_address acc)) = Some (ko_key k)
     | VMultisignatureOutput _ \<Rightarrow> False)"

lemma lookup_loop_keys:
  assumes "\<forall>n. derive_public_key C D n (spendPublicKey (ak_address acc)) \<noteq> None"
    and "\<forall>out \<in> set os. \<exists>k. to_target out = VKeyOutput k"
  shows "lookup_loop C acc D os n j (outs, money) = Some
    (outs @ map (\<lambda>i. j + i) (filter (\<lambda>i. mine C acc D (os ! i) (n + i)) [0..<length os]),
     money + sum_list (map (\<lambda>i. to_amount (os ! i)) (filter (\<lambda>i. mine C acc D (os ! i) (n + i)) [0..<length os])))"
  using assms(2)
proof (induction os arbitrary: n j outs money)
  case Nil
  then show ?case by simp
next
  case (Cons out os)
  then obtain k where k: "to_target out = VKeyOutput k" by auto
  obtain pk where pk: "derive_public_key C D n (spendPublicKey (ak_address acc)) = Some pk" using assms(1) by blast
  have m: "mine C acc D out n \<longleftrightarrow> pk = ko_key k" using k pk by (simp add: mine_def)
  have u: "[0..<length (out # os)] = 0 # map Suc [0..<length os]" by (simp add: upt_conv_Cons map_Suc_upt del: upt_Suc)
  let ?f = "filter (\<lambda>i. mine C acc D (os ! i) (Suc n + i)) [0..<length os]"
  have f: "filter (\<lambda>i. mine C acc D ((out # os) ! i) (n + i)) [0..<length (out # os)]
      = (if pk = ko_key k then [0] else []) @ map Suc ?f"
    unfolding u using m by (simp add: filter_map comp_def)
  show ?case
    unfolding f using Cons.IH [of "Suc n" "Suc j"] Cons.prems k pk
    by (simp add: is_out_to_acc_derivation_def comp_def add.assoc)
qed

lemma receiver_finds_outputs:
  assumes tx: "constructTransaction C txkey keys srcs dsts [] u = Some tx"
    and key: "length (kp_publicKey txkey) = 32" "kp_publicKey txkey \<noteq> NULL_PUBLIC_KEY"
    and agree: "generate_key_derivation C (viewPublicKey (ak_address acc)) (kp_secretKey txkey) = Some D"
      "generate_key_derivation C (kp_publicKey txkey) (viewSecretKey acc) = Some D"
    and total: "\<forall>n. derive_public_key C D n (spendPublicKey (ak_address acc)) \<noteq> None"
  shows "\<exists>outs money. lookup_acc_outs C acc tx [] = Some (Some (outs, money))
    \<and> (\<forall>i < length dsts. addr (sort_key de_amount dsts ! i) = ak_address acc \<longrightarrow> i \<in> set outs)"
proof -
  from construct_some [OF tx] have o: "construct_outputs C txkey (sort_key de_amount dsts) 0 = Some (outputs tx)"
    and e: "extra tx = addTransactionPublicKeyToExtra [] (kp_publicKey txkey)" by auto
  note os = construct_outputs_some [OF o]
  from os have len: "length (outputs tx) = length dsts" by (metis length_map length_sort)
  have keys: "\<forall>out \<in> set (outputs tx). \<exists>k. to_target out = VKeyOutput k"
    using os len by (metis in_set_conv_nth length_sort)
  have pk: "getTransactionPublicKeyFromExtra (extra tx) = kp_publicKey txkey"
    using public_key_first [OF key(1), of "[]"] e by simp
  let ?outs = "filter (\<lambda>i. mine C acc D (outputs tx ! i) i) [0..<length (outputs tx)]"
  have "\<exists>money. lookup_acc_outs C acc tx [] = Some (Some (?outs, money))"
    using lookup_loop_keys [OF total keys, of 0 0 "[]" 0] pk key(2) agree(2)
    by (simp add: lookup_acc_outs_def lookup_acc_outs_key_def)
  moreover have "i \<in> set ?outs" if "i < length dsts" "addr (sort_key de_amount dsts ! i) = ak_address acc" for i
  proof -
    from os that agree(1) obtain k where "derive_public_key C D i (spendPublicKey (ak_address acc)) = Some k"
      "to_target (outputs tx ! i) = VKeyOutput \<lparr>ko_key = k\<rparr>" by (metis add_0 length_sort option.inject)
    with that len show ?thesis by (simp add: mine_def)
  qed
  ultimately show ?thesis by blast
qed

end
