(* ===== verification/OrbisBasicImpl.thy ===== *)
theory OrbisBasicImpl
  imports OrbisFormatUtils IntUtil
begin

text \<open>
  \<^verbatim>\<open>src/OrbisCore/OrbisBasicImpl.cpp\<close>: the penalty on amounts of large blocks, account addresses as
  text, and small helpers. Assertions are not part of the release build (\<^verbatim>\<open>-DNDEBUG\<close>); that they hold is
  shown where the penalty is used as intended.
\<close>

section \<open>Definitions\<close>

text \<open>\<^verbatim>\<open>getPenalizedAmount\<close>; \<open>None\<close> is a division by zero.\<close>

definition getPenalizedAmount :: "u64 \<Rightarrow> u64 \<Rightarrow> u64 \<Rightarrow> u64 option" where
  "getPenalizedAmount amount medianSize currentBlockSize =
    (if amount = 0 then Some 0
     else if currentBlockSize \<le> medianSize then Some amount
     else do {
       let (productLo, productHi) = mul128 amount (currentBlockSize * (2 * medianSize - currentBlockSize));
       (_, penalizedAmountHi, penalizedAmountLo) \<leftarrow> div128_32 productHi productLo (ucast medianSize);
       (_, penalizedAmountHi, penalizedAmountLo) \<leftarrow> div128_32 penalizedAmountHi penalizedAmountLo (ucast medianSize);
       Some penalizedAmountLo
     })"

definition getAccountAddressAsStr :: "u64 \<Rightarrow> AccountPublicAddress \<Rightarrow> blob" where
  "getAccountAddressAsStr prefix adr =
    (case toBinaryArray out_AccountPublicAddress adr of
       None \<Rightarrow> encode_addr prefix (asString [])
     | Some ba \<Rightarrow> encode_addr prefix (asString ba))"

definition is_coinbase :: "'a Transaction_scheme \<Rightarrow> bool" where
  "is_coinbase tx \<longleftrightarrow>
    (if length (inputs tx) \<noteq> 1 then False
     else case inputs tx ! 0 of VBaseInput _ \<Rightarrow> True | _ \<Rightarrow> False)"

definition parseAccountAddressString :: "crypto \<Rightarrow> blob \<Rightarrow> (u64 \<times> AccountPublicAddress) option" where
  "parseAccountAddressString C str =
    (case decode_addr str of
       None \<Rightarrow> None
     | Some (prefix, data) \<Rightarrow>
         (case fromBinaryArray in_AccountPublicAddress (asBinaryArray data) of
            None \<Rightarrow> None
          | Some adr \<Rightarrow>
              if check_key C (spendPublicKey adr) \<and> check_key C (viewPublicKey adr) then Some (prefix, adr) else None))"

definition transaction_eq :: "Transaction \<Rightarrow> Transaction \<Rightarrow> bool" where
  "transaction_eq a b \<longleftrightarrow> getObjectHash_value out_Transaction a = getObjectHash_value out_Transaction b"

definition block_eq :: "Block \<Rightarrow> Block \<Rightarrow> bool" where
  "block_eq a b \<longleftrightarrow> snd (get_block_hash a) = snd (get_block_hash b)"

definition parse_hash256 :: "blob \<Rightarrow> Hash option" where
  "parse_hash256 str_hash = podFromHex 32 str_hash"

section \<open>The penalty\<close>

text \<open>The penalty as a formula: the amount times \<open>cur * (2 * med - cur) / med\<^sup>2\<close>, rounded down.\<close>

definition penalized :: "nat \<Rightarrow> nat \<Rightarrow> nat \<Rightarrow> nat" where
  "penalized amount med cur = (if cur \<le> med then amount else amount * (cur * (2 * med - cur)) div (med * med))"

lemma penalty_factor:
  fixes m c :: nat
  assumes "m < c" and "c \<le> 2 * m"
  shows "c * (2 * m - c) < m * m"
proof -
  obtain d where d: "c = m + d" using assms(1) less_imp_add_positive by blast
  then have e: "2 * m - c = m - d" "0 < d" "d \<le> m" using assms by auto
  obtain f where f: "m = d + f" using e(3) le_Suc_ex by blast
  show ?thesis using e d f by (simp add: algebra_simps)
qed

lemma penalized_le: "cur \<le> 2 * med \<Longrightarrow> penalized amount med cur \<le> amount"
proof (cases "cur \<le> med")
  case False
  assume "cur \<le> 2 * med"
  with False have f: "cur * (2 * med - cur) < med * med" by (intro penalty_factor) simp_all
  then have "amount * (cur * (2 * med - cur)) \<le> amount * (med * med)" by (intro mult_left_mono) simp_all
  then have "amount * (cur * (2 * med - cur)) div (med * med) \<le> amount * (med * med) div (med * med)" by (rule div_le_mono)
  also have "\<dots> = amount" using f by (cases "med = 0") simp_all
  finally show ?thesis using False by (simp add: penalized_def)
qed (simp add: penalized_def)

lemma penalized_less:
  assumes "med < cur" and "cur \<le> 2 * med" and "0 < amount"
  shows "penalized amount med cur < amount"
proof -
  from penalty_factor [OF assms(1,2)] have "amount * (cur * (2 * med - cur)) < amount * (med * med)" using assms(3) by simp
  moreover have "0 < med * med" using assms by simp
  ultimately have "amount * (cur * (2 * med - cur)) div (med * med) < amount" by (simp only: div_less_iff_less_mult)
  then show ?thesis using assms(1) by (simp add: penalized_def)
qed

lemma word_32_of: "unat (m :: u64) < 2 ^ 32 \<Longrightarrow> unat (ucast m :: u32) = unat m"
  by (simp add: unat_ucast_eq)

lemma div_of_sum: "x = q * m + r \<Longrightarrow> r < m \<Longrightarrow> x div m = (q :: nat)"
  by (simp add: div_mult_self3)

lemma getPenalizedAmount_exact:
  assumes med: "0 < unat med" "unat med < 2 ^ 32" and cur: "unat cur < 2 ^ 32" "unat cur \<le> 2 * unat med"
  shows "\<exists>p. getPenalizedAmount amount med cur = Some p \<and> unat p = penalized (unat amount) (unat med) (unat cur)"
proof (cases "amount = 0 \<or> cur \<le> med")
  case True
  then show ?thesis by (auto simp: getPenalizedAmount_def penalized_def word_le_nat_alt)
next
  case False
  then have mc: "unat med < unat cur" by (auto simp: word_le_nat_alt)
  let ?f = "cur * (2 * med - cur)" and ?M = "ucast med :: u32"
  have two: "unat (2 * med) = 2 * unat med" using med(2) unat_mult_exact [of 2 med] by simp
  have dif: "unat (2 * med - cur) = 2 * unat med - unat cur"
    using cur(2) two by (simp add: unat_sub word_le_nat_alt)
  have f: "unat ?f = unat cur * (2 * unat med - unat cur)"
  proof -
    have "unat cur * unat (2 * med - cur) < 2 ^ 32 * 2 ^ 32"
      using mc cur(1) med(2) dif by (intro nat_mult_bound) auto
    then have "unat cur * unat (2 * med - cur) < 2 ^ LENGTH(64)" by simp
    from unat_mult_exact [OF this] dif show ?thesis by simp
  qed
  obtain lo hi where prod: "mul128 amount ?f = (lo, hi)" by fastforce
  note p = mul128_exact [OF prod]
  have M: "unat ?M = unat med" "?M \<noteq> 0" using word_32_of [OF med(2)] med(1) by auto
  obtain r1 h1 l1 where d1: "div128_32 hi lo ?M = Some (r1, h1, l1)"
      "unat hi * 2 ^ 64 + unat lo = (unat h1 * 2 ^ 64 + unat l1) * unat ?M + unat r1" "unat r1 < unat ?M"
    using div128_32_exact [OF M(2), of hi lo] by blast
  obtain r2 h2 l2 where d2: "div128_32 h1 l1 ?M = Some (r2, h2, l2)"
      "unat h1 * 2 ^ 64 + unat l1 = (unat h2 * 2 ^ 64 + unat l2) * unat ?M + unat r2" "unat r2 < unat ?M"
    using div128_32_exact [OF M(2), of h1 l1] by blast
  let ?x = "unat amount * (unat cur * (2 * unat med - unat cur))"
  have x: "?x = unat hi * 2 ^ 64 + unat lo" using p f by simp
  have "?x div unat med = unat h1 * 2 ^ 64 + unat l1" using div_of_sum [OF d1(2,3)] M(1) x by simp
  then have "?x div unat med div unat med = unat h2 * 2 ^ 64 + unat l2" using div_of_sum [OF d2(2,3)] M(1) by simp
  then have q: "penalized (unat amount) (unat med) (unat cur) = unat h2 * 2 ^ 64 + unat l2"
    using mc by (simp add: penalized_def div_mult2_eq)
  have "penalized (unat amount) (unat med) (unat cur) < 2 ^ 64"
    using penalized_le [OF cur(2), of "unat amount"] unat_u64_bound [of amount] by simp
  with q have "unat h2 = 0" by simp
  with q have "unat l2 = penalized (unat amount) (unat med) (unat cur)" by simp
  then show ?thesis using False d1(1) d2(1) prod by (simp add: getPenalizedAmount_def)
qed

section \<open>Addresses\<close>

lemma address_text: "ok_AccountPublicAddress adr \<Longrightarrow> getAccountAddressAsStr prefix adr = encode_addr prefix (fmt_AccountPublicAddress adr)"
  by (simp add: getAccountAddressAsStr_def address.toBinaryArray_fmt asString_def)

lemma address_roundtrip:
  assumes "ok_AccountPublicAddress adr" and "check_key C (spendPublicKey adr)" and "check_key C (viewPublicKey adr)"
  shows "parseAccountAddressString C (getAccountAddressAsStr prefix adr) = Some (prefix, adr)"
  using assms address.from_to [OF assms(1)]
  by (simp add: address_text parseAccountAddressString_def decode_addr_encode_addr asBinaryArray_def)

lemma address_unique:
  assumes "parseAccountAddressString C str = Some (prefix, adr)"
  shows "str = getAccountAddressAsStr prefix adr \<and> ok_AccountPublicAddress adr
    \<and> check_key C (spendPublicKey adr) \<and> check_key C (viewPublicKey adr)"
proof -
  from assms obtain data where d: "decode_addr str = Some (prefix, data)"
      "fromBinaryArray in_AccountPublicAddress data = Some adr"
      "check_key C (spendPublicKey adr)" "check_key C (viewPublicKey adr)"
    by (auto simp: parseAccountAddressString_def asBinaryArray_def split: option.splits if_splits)
  from address.from_sound [OF d(2)] have ok: "ok_AccountPublicAddress adr" "data = fmt_AccountPublicAddress adr" by auto
  then have "data \<noteq> []" by (auto simp: ok_AccountPublicAddress_def fmt_AccountPublicAddress_def)
  with decode_addr_sound [OF d(1)] have "str = encode_addr prefix data" by simp
  with ok d(3,4) show ?thesis by (simp add: address_text)
qed

lemma is_coinbase_iff: "is_coinbase tx \<longleftrightarrow> (\<exists>i. inputs tx = [VBaseInput i])"
  by (auto simp: is_coinbase_def length_Suc_conv split: if_splits TransactionInput.splits)

end
