(* ===== verification/Difficulty.thy ===== *)
theory Difficulty
  imports IntUtil Keccak
begin

text \<open>
  \<^verbatim>\<open>src/OrbisCore/Difficulty.cpp\<close>: the proof-of-work test. The code multiplies the four words of a hash
  by the difficulty and follows the carries; it is shown to decide whether the product of the two numbers
  stays below \<^verbatim>\<open>2 ^ 256\<close>.
\<close>

section \<open>The code\<close>

text \<open>The variant for compilers with 128 bit integers; the other one calls \<^verbatim>\<open>mul128\<close>.\<close>

definition mul :: "u64 \<Rightarrow> u64 \<Rightarrow> u64 \<times> u64" where
  "mul a b = (let res = ucast a * ucast b :: 128 word in (ucast res, ucast (drop_bit 64 res)))"

definition cadd :: "u64 \<Rightarrow> u64 \<Rightarrow> bool" where
  "cadd a b \<longleftrightarrow> a + b < a"

definition cadc :: "u64 \<Rightarrow> u64 \<Rightarrow> bool \<Rightarrow> bool" where
  "cadc a b c \<longleftrightarrow> a + b < a \<or> (c \<and> a + b = - 1)"

definition check_hash :: "blob \<Rightarrow> u64 \<Rightarrow> bool" where
  "check_hash hash difficulty =
    (let (top, high) = mul (word_at hash 3) difficulty in
     if high \<noteq> 0 then False
     else let (low, cur) = mul (word_at hash 0) difficulty;
              (low, high) = mul (word_at hash 1) difficulty;
              carry = cadd cur low;
              cur = high;
              (low, high) = mul (word_at hash 2) difficulty;
              carry = cadc cur low carry;
              carry = cadc high top carry
          in \<not> carry)"

section \<open>What it decides\<close>

text \<open>A hash as a little endian number of 256 bits.\<close>

definition hash_number :: "blob \<Rightarrow> nat" where
  "hash_number hash = unat (word_at hash 0) + unat (word_at hash 1) * 2 ^ 64 + unat (word_at hash 2) * 2 ^ 128
    + unat (word_at hash 3) * 2 ^ 192"

lemma mul_exact:
  assumes "mul a b = (lo, hi)"
  shows "unat a * unat b = unat lo + unat hi * 2 ^ 64"
proof -
  let ?r = "ucast a * ucast b :: 128 word"
  have "unat a * unat b < 2 ^ 64 * 2 ^ 64"
    using nat_mult_bound [of "unat a" "2 ^ 64" "unat b" "2 ^ 64"] unat_bound [of a] unat_bound [of b] by simp
  then have p: "unat a * unat b < 2 ^ 128" by simp
  have "unat (ucast a :: 128 word) = unat a" "unat (ucast b :: 128 word) = unat b"
    using unat_bound [of a] unat_bound [of b] by (simp_all add: unat_ucast_eq)
  then have r: "unat ?r = unat a * unat b" using p by (simp add: unat_mult_exact)
  have "unat lo = unat ?r mod 2 ^ 64" and "unat hi = unat ?r div 2 ^ 64 mod 2 ^ 64"
    using assms by (auto simp: mul_def Let_def unat_ucast_eq unat_drop_bit)
  moreover have "unat ?r div 2 ^ 64 < 2 ^ 64" using p r by (simp add: less_mult_imp_div_less)
  ultimately show ?thesis using r by (simp add: mod_div_mult_eq)
qed

lemma mul_hi_bound:
  assumes "mul a b = (lo, hi)"
  shows "unat hi \<le> 2 ^ 64 - 2"
proof (rule ccontr)
  assume "\<not> unat hi \<le> 2 ^ 64 - 2"
  then have hi: "2 ^ 64 - 1 \<le> unat hi" by simp
  have "unat a \<le> 2 ^ 64 - 1" "unat b \<le> 2 ^ 64 - 1" using unat_u64_bound [of a] unat_u64_bound [of b] by simp_all
  then have "unat a * unat b \<le> (2 ^ 64 - 1) * (2 ^ 64 - 1)" by (rule mult_le_mono)
  moreover have "(2 ^ 64 - 1) * 2 ^ 64 \<le> unat a * unat b"
    using mult_le_mono1 [OF hi, of "2 ^ 64"] mul_exact [OF assms] by linarith
  ultimately show False by simp
qed

text \<open>\<^verbatim>\<open>mul128\<close> is the same function.\<close>

lemma mul_eq_mul128: "mul a b = mul128 a b"
proof -
  obtain lo hi where m: "mul a b = (lo, hi)" by fastforce
  obtain lo' hi' where m': "mul128 a b = (lo', hi')" by fastforce
  have e: "unat lo + unat hi * 2 ^ 64 = unat hi' * 2 ^ 64 + unat lo'"
    using mul_exact [OF m] mul128_exact [OF m'] by simp
  have "unat lo = (unat lo + unat hi * 2 ^ 64) mod 2 ^ 64" "unat hi = (unat lo + unat hi * 2 ^ 64) div 2 ^ 64"
    using unat_u64_bound [of lo] by simp_all
  moreover have "unat lo' = (unat hi' * 2 ^ 64 + unat lo') mod 2 ^ 64" "unat hi' = (unat hi' * 2 ^ 64 + unat lo') div 2 ^ 64"
    using unat_u64_bound [of lo'] by simp_all
  ultimately have "unat lo = unat lo'" "unat hi = unat hi'" using e by metis+
  then show ?thesis using m m' by (simp add: word_unat_eq_iff)
qed

lemma cadd_iff: "cadd a b \<longleftrightarrow> 2 ^ 64 \<le> unat a + unat b"
  using wrapped_add_iff [of a b] by (simp add: cadd_def)

lemma cadc_iff: "cadc a b c \<longleftrightarrow> 2 ^ 64 \<le> unat a + unat b + of_bool c"
proof (cases "2 ^ 64 \<le> unat a + unat b")
  case True
  then show ?thesis using wrapped_add_iff [of a b] by (simp add: cadc_def)
next
  case False
  then have u: "unat (a + b) = unat a + unat b" and w: "\<not> a + b < a"
    using wrapped_add_iff [of a b] by (simp_all add: unat_add_exact)
  have "a + b = - 1 \<longleftrightarrow> unat (a + b) = 2 ^ 64 - 1"
    by (simp add: word_unat_eq_iff unsigned_minus_1_eq_mask mask_eq_exp_minus_1)
  then show ?thesis using False u w by (auto simp: cadc_def)
qed

text \<open>Four columns added with their carries.\<close>

lemma columns:
  fixes l0 h0 l1 h1 l2 h2 t X :: nat
  assumes "l0 < X" "h0 < X" "l1 < X" "h1 < X" "l2 < X" "h2 < X" "t < X"
    and "c1 = of_bool (X \<le> h0 + l1)" and "c2 = of_bool (X \<le> h1 + l2 + c1)"
  shows "l0 + (h0 + l1) * X + (h1 + l2) * X ^ 2 + (h2 + t) * X ^ 3 < X ^ 4 \<longleftrightarrow> h2 + t + c2 < X"
proof -
  define m1 where "m1 = h0 + l1 - c1 * X"
  define m2 where "m2 = h1 + l2 + c1 - c2 * X"
  have m1: "h0 + l1 = m1 + c1 * X" "m1 < X" using assms by (auto simp: m1_def of_bool_def)
  have m2: "h1 + l2 + c1 = m2 + c2 * X" "m2 < X" using assms by (auto simp: m2_def of_bool_def)
  let ?low = "l0 + m1 * X + m2 * X ^ 2"
  have "l0 + m1 * X < X ^ 2"
  proof -
    have "l0 + m1 * X < (m1 + 1) * X" using assms(1) by simp
    also have "\<dots> \<le> X * X" using m1(2) by (intro mult_le_mono1) simp
    finally show ?thesis by (simp add: power2_eq_square)
  qed
  then have "?low < (m2 + 1) * X ^ 2" by simp
  also have "\<dots> \<le> X * X ^ 2" using m2(2) by (intro mult_le_mono1) simp
  finally have low: "?low < X ^ 3" by (simp add: power3_eq_cube power2_eq_square)
  have "(h0 + l1) * X + (h1 + l2) * X ^ 2 = m1 * X + (h1 + l2 + c1) * X ^ 2"
    unfolding m1(1) by (simp add: algebra_simps power2_eq_square)
  also have "\<dots> = m1 * X + m2 * X ^ 2 + c2 * X ^ 3"
    unfolding m2(1) by (simp add: algebra_simps power2_eq_square power3_eq_cube)
  finally have sum: "l0 + (h0 + l1) * X + (h1 + l2) * X ^ 2 + (h2 + t) * X ^ 3 = ?low + (h2 + t + c2) * X ^ 3"
    by (simp add: algebra_simps)
  have X4: "X ^ 4 = X * X ^ 3" by (simp add: eval_nat_numeral)
  have "?low + (h2 + t + c2) * X ^ 3 < X ^ 4 \<longleftrightarrow> h2 + t + c2 < X"
  proof
    assume "?low + (h2 + t + c2) * X ^ 3 < X ^ 4"
    then have "(h2 + t + c2) * X ^ 3 < X * X ^ 3" unfolding X4 by linarith
    then show "h2 + t + c2 < X" by (metis mult_less_cancel2)
  next
    assume "h2 + t + c2 < X"
    then have "h2 + t + c2 + 1 \<le> X" by simp
    then have "(h2 + t + c2 + 1) * X ^ 3 \<le> X * X ^ 3" by (rule mult_le_mono1)
    then have "(h2 + t + c2) * X ^ 3 + X ^ 3 \<le> X * X ^ 3" by simp
    then show "?low + (h2 + t + c2) * X ^ 3 < X ^ 4" using low unfolding X4 by linarith
  qed
  then show ?thesis unfolding sum .
qed

lemma check_hash_iff: "check_hash hash difficulty \<longleftrightarrow> hash_number hash * unat difficulty < 2 ^ 256"
proof -
  obtain l0 h0 where 0: "mul (word_at hash 0) difficulty = (l0, h0)" by fastforce
  obtain l1 h1 where 1: "mul (word_at hash 1) difficulty = (l1, h1)" by fastforce
  obtain l2 h2 where 2: "mul (word_at hash 2) difficulty = (l2, h2)" by fastforce
  obtain top h3 where 3: "mul (word_at hash 3) difficulty = (top, h3)" by fastforce
  let ?X = "2 ^ 64 :: nat"
  let ?s = "unat l0 + (unat h0 + unat l1) * ?X + (unat h1 + unat l2) * ?X ^ 2 + (unat h2 + unat top) * ?X ^ 3"
  have "hash_number hash * unat difficulty
      = unat (word_at hash 0) * unat difficulty + unat (word_at hash 1) * unat difficulty * ?X
        + unat (word_at hash 2) * unat difficulty * ?X ^ 2 + unat (word_at hash 3) * unat difficulty * ?X ^ 3"
    by (simp add: hash_number_def algebra_simps)
  also have "\<dots> = ?s + unat h3 * ?X ^ 4"
    unfolding mul_exact [OF 0] mul_exact [OF 1] mul_exact [OF 2] mul_exact [OF 3] by (simp add: algebra_simps)
  finally have total: "hash_number hash * unat difficulty = ?s + unat h3 * ?X ^ 4" .
  show ?thesis
  proof (cases "h3 = 0")
    case False
    then have "1 \<le> unat h3" by (simp add: Suc_le_eq unat_gt_0)
    then have "?X ^ 4 \<le> unat h3 * ?X ^ 4" by simp
    moreover have "?X ^ 4 = 2 ^ 256" by (simp add: power_mult [symmetric])
    ultimately have "\<not> hash_number hash * unat difficulty < 2 ^ 256" using total by linarith
    then show ?thesis using False 3 by (simp add: check_hash_def)
  next
    case True
    define c1 :: nat where "c1 = of_bool (?X \<le> unat h0 + unat l1)"
    define c2 :: nat where "c2 = of_bool (?X \<le> unat h1 + unat l2 + c1)"
    have "?s < ?X ^ 4 \<longleftrightarrow> unat h2 + unat top + c2 < ?X"
      by (rule columns [OF _ _ _ _ _ _ _ c1_def c2_def]) (use unat_bound [where 'a = 64] in simp_all)
    moreover have "check_hash hash difficulty \<longleftrightarrow> unat h2 + unat top + c2 < ?X"
      using 0 1 2 3 True by (simp add: check_hash_def cadd_iff cadc_iff c1_def c2_def not_le)
    moreover have "?X ^ 4 = 2 ^ 256" by (simp add: power_mult [symmetric])
    ultimately show ?thesis using total True by simp
  qed
qed

end
