(* ===== verification/Currency.thy ===== *)
theory Currency
  imports OrbisBasicImpl Difficulty
begin

text \<open>
  \<^verbatim>\<open>src/OrbisCore/Currency.{h,cpp}\<close>: the parameters of the coin as a record, the block reward, the
  construction of the coinbase transaction, fusion transactions, amounts as text, and the next
  difficulty. The two parameters without a value in \<^verbatim>\<open>OrbisConfig.h\<close> are arguments of \<open>CurrencyBuilder\<close>.
\<close>

section \<open>The currency\<close>

record currency =
  m_maxBlockHeight :: u64
  m_maxBlockBlobSize :: nat
  m_maxTxSize :: nat
  m_publicAddressBase58Prefix :: u64
  m_minedMoneyUnlockWindow :: u64
  m_timestampCheckWindow :: nat
  m_blockFutureTimeLimit :: u64
  m_moneySupply :: u64
  m_emissionSpeedFactor :: nat
  m_rewardBlocksWindow :: nat
  m_blockGrantedFullRewardZone :: u64
  m_minerTxBlobReservedSize :: nat
  m_numberOfDecimalPlaces :: nat
  m_coin :: u64
  m_mininumFee :: u64
  m_defaultDustThreshold :: u64
  m_difficultyTarget :: u64
  m_difficultyWindow :: nat
  m_difficultyLag :: nat
  m_difficultyCut :: nat
  m_maxBlockSizeInitial :: u64
  m_maxBlockSizeGrowthSpeedNumerator :: u64
  m_maxBlockSizeGrowthSpeedDenominator :: u64
  m_lockedTxAllowedDeltaSeconds :: u64
  m_lockedTxAllowedDeltaBlocks :: nat
  m_mempoolTxLiveTime :: u64
  m_mempoolTxFromAltBlockLiveTime :: u64
  m_numberOfPeriodsToForgetTxDeletedFromPool :: u64
  m_fusionTxMaxSize :: nat
  m_fusionTxMinInputCount :: nat
  m_fusionTxMinInOutCountRatio :: nat
  m_blocksFileName :: string
  m_blocksCacheFileName :: string
  m_blockIndexesFileName :: string
  m_txPoolFileName :: string
  m_blockchinIndicesFileName :: string
  m_testnet :: bool
  m_genesisBlock :: Block
  m_genesisBlockHash :: Hash

text \<open>The setters of \<^verbatim>\<open>CurrencyBuilder\<close> that do more than store their argument.\<close>

definition set_emissionSpeedFactor :: "nat \<Rightarrow> currency \<Rightarrow> currency result" where
  "set_emissionSpeedFactor val c =
    (if val = 0 \<or> 8 * 8 < val then Inl (Failed ''val at emissionSpeedFactor()'') else Inr (c\<lparr>m_emissionSpeedFactor := val\<rparr>))"

definition set_numberOfDecimalPlaces :: "nat \<Rightarrow> currency \<Rightarrow> currency" where
  "set_numberOfDecimalPlaces val c =
    c\<lparr>m_numberOfDecimalPlaces := val, m_coin := fold (\<lambda>i coin. coin * 10) [0..<val] 1\<rparr>"

definition set_difficultyWindow :: "nat \<Rightarrow> currency \<Rightarrow> currency result" where
  "set_difficultyWindow val c =
    (if val < 2 then Inl (Failed ''val at difficultyWindow()'') else Inr (c\<lparr>m_difficultyWindow := val\<rparr>))"

text \<open>Values that \<^verbatim>\<open>boost::value_initialized\<close> gives.\<close>

definition empty_Transaction :: Transaction where
  "empty_Transaction = \<lparr>version = 0, unlockTime = 0, inputs = [], outputs = [], extra = [], signatures = []\<rparr>"

definition empty_Block :: Block where
  "empty_Block = \<lparr>majorVersion = 0, minorVersion = 0, nonce = 0, timestamp = 0, previousBlockHash = NULL_HASH,
    baseTransaction = empty_Transaction, transactionHashes = []\<rparr>"

definition CurrencyBuilder :: "u64 \<Rightarrow> u64 \<Rightarrow> currency result" where
  "CurrencyBuilder ORBIS_PUBLIC_ADDRESS_BASE58_PREFIX MINIMUM_FEE =
    (let c = \<lparr>
      m_maxBlockHeight = ORBIS_MAX_BLOCK_NUMBER,
      m_maxBlockBlobSize = ORBIS_MAX_BLOCK_BLOB_SIZE,
      m_maxTxSize = ORBIS_MAX_TX_SIZE,
      m_publicAddressBase58Prefix = ORBIS_PUBLIC_ADDRESS_BASE58_PREFIX,
      m_minedMoneyUnlockWindow = of_nat ORBIS_MINED_MONEY_UNLOCK_WINDOW,
      m_timestampCheckWindow = BLOCKCHAIN_TIMESTAMP_CHECK_WINDOW,
      m_blockFutureTimeLimit = ORBIS_BLOCK_FUTURE_TIME_LIMIT,
      m_moneySupply = MONEY_SUPPLY,
      m_emissionSpeedFactor = 0,
      m_rewardBlocksWindow = ORBIS_REWARD_BLOCKS_WINDOW,
      m_blockGrantedFullRewardZone = of_nat ORBIS_BLOCK_GRANTED_FULL_REWARD_ZONE,
      m_minerTxBlobReservedSize = ORBIS_COINBASE_BLOB_RESERVED_SIZE,
      m_numberOfDecimalPlaces = 0,
      m_coin = 0,
      m_mininumFee = MINIMUM_FEE,
      m_defaultDustThreshold = MINIMUM_FEE,
      m_difficultyTarget = DIFFICULTY_TARGET,
      m_difficultyWindow = 0,
      m_difficultyLag = DIFFICULTY_LAG,
      m_difficultyCut = DIFFICULTY_CUT,
      m_maxBlockSizeInitial = of_nat MAX_BLOCK_SIZE_INITIAL,
      m_maxBlockSizeGrowthSpeedNumerator = MAX_BLOCK_SIZE_GROWTH_SPEED_NUMERATOR,
      m_maxBlockSizeGrowthSpeedDenominator = MAX_BLOCK_SIZE_GROWTH_SPEED_DENOMINATOR,
      m_lockedTxAllowedDeltaSeconds = ORBIS_LOCKED_TX_ALLOWED_DELTA_SECONDS,
      m_lockedTxAllowedDeltaBlocks = unat ORBIS_LOCKED_TX_ALLOWED_DELTA_BLOCKS,
      m_mempoolTxLiveTime = ORBIS_MEMPOOL_TX_LIVETIME,
      m_mempoolTxFromAltBlockLiveTime = ORBIS_MEMPOOL_TX_FROM_ALT_BLOCK_LIVETIME,
      m_numberOfPeriodsToForgetTxDeletedFromPool = ORBIS_NUMBER_OF_PERIODS_TO_FORGET_TX_DELETED_FROM_POOL,
      m_fusionTxMaxSize = FUSION_TX_MAX_SIZE,
      m_fusionTxMinInputCount = FUSION_TX_MIN_INPUT_COUNT,
      m_fusionTxMinInOutCountRatio = FUSION_TX_MIN_IN_OUT_COUNT_RATIO,
      m_blocksFileName = ORBIS_BLOCKS_FILENAME,
      m_blocksCacheFileName = ORBIS_BLOCKSCACHE_FILENAME,
      m_blockIndexesFileName = ORBIS_BLOCKINDEXES_FILENAME,
      m_txPoolFileName = ORBIS_POOLDATA_FILENAME,
      m_blockchinIndicesFileName = ORBIS_BLOCKCHAIN_INDICES_FILENAME,
      m_testnet = False,
      m_genesisBlock = empty_Block,
      m_genesisBlockHash = NULL_HASH\<rparr>
     in bindR (set_emissionSpeedFactor EMISSION_SPEED_FACTOR c) (\<lambda>c.
        set_difficultyWindow DIFFICULTY_WINDOW (set_numberOfDecimalPlaces ORBIS_DISPLAY_DECIMAL_POINT c)))"

text \<open>
  \<^verbatim>\<open>generateGenesisBlock\<close> with the hexadecimal text of the coinbase transaction as an argument; \<open>None\<close> is
  \<^verbatim>\<open>return false\<close>.
\<close>

definition generateGenesisBlock :: "string \<Rightarrow> currency \<Rightarrow> currency option" where
  "generateGenesisBlock genesisCoinbaseTxHex c =
    (let (ok, minerTxBlob) = fromHex (bytes_of_string genesisCoinbaseTxHex) [] in
     if \<not> ok then None
     else case fromBinaryArray in_Transaction minerTxBlob of
         None \<Rightarrow> None
       | Some tx \<Rightarrow>
           Some (c\<lparr>m_genesisBlock := empty_Block\<lparr>baseTransaction := tx, majorVersion := BLOCK_MAJOR_VERSION_1,
             minorVersion := BLOCK_MINOR_VERSION_0, timestamp := 0,
             nonce := (if m_testnet c then 70 + 1 else 70)\<rparr>\<rparr>))"

definition init :: "string \<Rightarrow> currency \<Rightarrow> currency option" where
  "init genesisCoinbaseTxHex c =
    (case generateGenesisBlock genesisCoinbaseTxHex c of
       None \<Rightarrow> None
     | Some c \<Rightarrow>
         let (ok, h) = get_block_hash (m_genesisBlock c) in
         if \<not> ok then None
         else
           let c = c\<lparr>m_genesisBlockHash := h\<rparr> in
           if m_testnet c
           then Some (c\<lparr>m_blocksFileName := ''testnet_'' @ m_blocksFileName c,
             m_blocksCacheFileName := ''testnet_'' @ m_blocksCacheFileName c,
             m_blockIndexesFileName := ''testnet_'' @ m_blockIndexesFileName c,
             m_txPoolFileName := ''testnet_'' @ m_txPoolFileName c,
             m_blockchinIndicesFileName := ''testnet_'' @ m_blockchinIndicesFileName c\<rparr>)
           else Some c)"

section \<open>Rewards\<close>

text \<open>
  \<^verbatim>\<open>getBlockReward\<close>: \<open>Some None\<close> is \<^verbatim>\<open>return false\<close>, \<open>Some (Some (reward, emissionChange))\<close> is success, and
  \<open>None\<close> is undefined behaviour (a shift by the width of the type, a division by zero). The signed
  \<^verbatim>\<open>emissionChange\<close> is kept as the 64 bits it is stored in.
\<close>

definition getBlockReward :: "currency \<Rightarrow> u64 \<Rightarrow> u64 \<Rightarrow> u64 \<Rightarrow> u64 \<Rightarrow> (u64 \<times> u64) option option" where
  "getBlockReward c medianSize currentBlockSize alreadyGeneratedCoins fee =
    (if 64 \<le> m_emissionSpeedFactor c then None
     else
       let baseReward = drop_bit (m_emissionSpeedFactor c) (m_moneySupply c - alreadyGeneratedCoins);
           medianSize = max medianSize (m_blockGrantedFullRewardZone c) in
       if currentBlockSize > 2 * medianSize then Some None
       else do {
         penalizedBaseReward \<leftarrow> getPenalizedAmount baseReward medianSize currentBlockSize;
         penalizedFee \<leftarrow> getPenalizedAmount fee medianSize currentBlockSize;
         Some (Some (penalizedBaseReward + penalizedFee, penalizedBaseReward - (fee - penalizedFee)))
       })"

text \<open>\<open>None\<close> is a division by zero.\<close>

definition maxBlockCumulativeSize :: "currency \<Rightarrow> u64 \<Rightarrow> u64 option" where
  "maxBlockCumulativeSize c height =
    (if m_maxBlockSizeGrowthSpeedDenominator c = 0 then None
     else Some (m_maxBlockSizeInitial c
       + (height * m_maxBlockSizeGrowthSpeedNumerator c) div m_maxBlockSizeGrowthSpeedDenominator c))"

text \<open>The loop that joins the last amounts until there are at most \<^verbatim>\<open>maxOuts\<close>.\<close>

function join_amounts :: "nat \<Rightarrow> u64 list \<Rightarrow> u64 list" where
  "join_amounts maxOuts outAmounts =
    (if 1 \<le> maxOuts \<and> maxOuts < length outAmounts
     then join_amounts maxOuts (butlast
       (outAmounts[length outAmounts - 2 := outAmounts ! (length outAmounts - 2) + last outAmounts]))
     else outAmounts)"
  by pat_completeness auto
termination
  by (relation "measure (\<lambda>(_, outAmounts). length outAmounts)") auto

declare join_amounts.simps [simp del]

fun miner_outputs :: "crypto \<Rightarrow> AccountPublicAddress \<Rightarrow> KeyPair \<Rightarrow> u64 list \<Rightarrow> nat \<Rightarrow> TransactionOutput list option" where
  "miner_outputs C minerAddress txkey [] no = Some []"
| "miner_outputs C minerAddress txkey (a # outAmounts) no =
    do {
      derivation \<leftarrow> generate_key_derivation C (viewPublicKey minerAddress) (kp_secretKey txkey);
      outEphemeralPubKey \<leftarrow> derive_public_key C derivation no (spendPublicKey minerAddress);
      outs \<leftarrow> miner_outputs C minerAddress txkey outAmounts (no + 1);
      Some (\<lparr>to_amount = a, to_target = VKeyOutput \<lparr>ko_key = outEphemeralPubKey\<rparr>\<rparr> # outs)
    }"

text \<open>
  \<^verbatim>\<open>constructMinerTx\<close>, with the random key pair \<open>txkey\<close> and the transaction \<open>tx\<close> that is filled in as
  arguments. The outer \<open>None\<close> is undefined behaviour as for \<open>getBlockReward\<close>, \<open>Some None\<close> is \<^verbatim>\<open>return false\<close>.
\<close>

definition constructMinerTx :: "crypto \<Rightarrow> KeyPair \<Rightarrow> currency \<Rightarrow> u32 \<Rightarrow> u64 \<Rightarrow> u64 \<Rightarrow> u64 \<Rightarrow> u64 \<Rightarrow> AccountPublicAddress
    \<Rightarrow> Transaction \<Rightarrow> blob \<Rightarrow> nat \<Rightarrow> Transaction option option" where
  "constructMinerTx C txkey c height medianSize alreadyGeneratedCoins currentBlockSize fee minerAddress tx extraNonce maxOuts =
    (let ex = addTransactionPublicKeyToExtra [] (kp_publicKey txkey) in
     case (if extraNonce \<noteq> [] then addExtraNonceToTransactionExtra ex extraNonce else Some ex) of
       None \<Rightarrow> Some None
     | Some ex \<Rightarrow>
         (case getBlockReward c medianSize currentBlockSize alreadyGeneratedCoins fee of
            None \<Rightarrow> None
          | Some None \<Rightarrow> Some None
          | Some (Some (blockReward, emissionChange)) \<Rightarrow>
              if \<not> 1 \<le> maxOuts then Some None
              else
                let outAmounts = join_amounts maxOuts
                      (map part_amount (decompose_amount_into_digits blockReward (m_defaultDustThreshold c))) in
                (case miner_outputs C minerAddress txkey outAmounts 0 of
                   None \<Rightarrow> Some None
                 | Some outs \<Rightarrow>
                     let summaryAmounts = fold (\<lambda>out s. s + to_amount out) outs 0 in
                     if summaryAmounts \<noteq> blockReward then Some None
                     else Some (Some (tx\<lparr>version := CURRENT_TRANSACTION_VERSION,
                       unlockTime := ucast height + m_minedMoneyUnlockWindow c,
                       inputs := [VBaseInput \<lparr>blockIndex = height\<rparr>], outputs := outs, extra := ex\<rparr>)))))"

definition generateGenesisTransaction :: "crypto \<Rightarrow> KeyPair \<Rightarrow> currency \<Rightarrow> Transaction option option" where
  "generateGenesisTransaction C txkey c =
    constructMinerTx C txkey c 0 0 0 0 0 \<lparr>spendPublicKey = NULL_PUBLIC_KEY, viewPublicKey = NULL_PUBLIC_KEY\<rparr>
      empty_Transaction [] 1"

section \<open>Fusion transactions\<close>

definition isFusionAmounts :: "currency \<Rightarrow> u64 list \<Rightarrow> u64 list \<Rightarrow> nat \<Rightarrow> bool" where
  "isFusionAmounts c inputsAmounts outputsAmounts sz =
    (if m_fusionTxMaxSize c < sz then False
     else if length inputsAmounts < m_fusionTxMinInputCount c then False
     else if length inputsAmounts < length outputsAmounts * m_fusionTxMinInOutCountRatio c then False
     else if \<exists>amount \<in> set inputsAmounts. amount < m_defaultDustThreshold c then False
     else let inputAmount = fold (\<lambda>amount s. s + amount) inputsAmounts 0;
              expectedOutputsAmounts = sort (decomposeAmount inputAmount (m_defaultDustThreshold c) [])
          in expectedOutputsAmounts = outputsAmounts)"

definition isFusionTransaction_size :: "currency \<Rightarrow> Transaction \<Rightarrow> nat \<Rightarrow> bool" where
  "isFusionTransaction_size c transaction sz =
    isFusionAmounts c (getInputsAmounts transaction) (map to_amount (outputs transaction)) sz"

definition isFusionTransaction :: "currency \<Rightarrow> Transaction \<Rightarrow> bool" where
  "isFusionTransaction c transaction =
    isFusionTransaction_size c transaction (getObjectBinarySize out_Transaction transaction)"

definition PRETTY_AMOUNTS :: "u64 list" where
  "PRETTY_AMOUNTS = [
    1, 2, 3, 4, 5, 6, 7, 8, 9,
    10, 20, 30, 40, 50, 60, 70, 80, 90,
    100, 200, 300, 400, 500, 600, 700, 800, 900,
    1000, 2000, 3000, 4000, 5000, 6000, 7000, 8000, 9000,
    10000, 20000, 30000, 40000, 50000, 60000, 70000, 80000, 90000,
    100000, 200000, 300000, 400000, 500000, 600000, 700000, 800000, 900000,
    1000000, 2000000, 3000000, 4000000, 5000000, 6000000, 7000000, 8000000, 9000000,
    10000000, 20000000, 30000000, 40000000, 50000000, 60000000, 70000000, 80000000, 90000000,
    100000000, 200000000, 300000000, 400000000, 500000000, 600000000, 700000000, 800000000, 900000000,
    1000000000, 2000000000, 3000000000, 4000000000, 5000000000, 6000000000, 7000000000, 8000000000, 9000000000,
    10000000000, 20000000000, 30000000000, 40000000000, 50000000000, 60000000000, 70000000000, 80000000000, 90000000000,
    100000000000, 200000000000, 300000000000, 400000000000, 500000000000, 600000000000, 700000000000, 800000000000, 900000000000,
    1000000000000, 2000000000000, 3000000000000, 4000000000000, 5000000000000, 6000000000000, 7000000000000, 8000000000000, 9000000000000,
    10000000000000, 20000000000000, 30000000000000, 40000000000000, 50000000000000, 60000000000000, 70000000000000, 80000000000000, 90000000000000,
    100000000000000, 200000000000000, 300000000000000, 400000000000000, 500000000000000, 600000000000000, 700000000000000, 800000000000000, 900000000000000,
    1000000000000000, 2000000000000000, 3000000000000000, 4000000000000000, 5000000000000000, 6000000000000000, 7000000000000000, 8000000000000000, 9000000000000000,
    10000000000000000, 20000000000000000, 30000000000000000, 40000000000000000, 50000000000000000, 60000000000000000, 70000000000000000, 80000000000000000, 90000000000000000,
    100000000000000000, 200000000000000000, 300000000000000000, 400000000000000000, 500000000000000000, 600000000000000000, 700000000000000000, 800000000000000000, 900000000000000000,
    1000000000000000000, 2000000000000000000, 3000000000000000000, 4000000000000000000, 5000000000000000000, 6000000000000000000, 7000000000000000000, 8000000000000000000, 9000000000000000000,
    10000000000000000000]"

text \<open>\<^verbatim>\<open>std::lower_bound\<close> on a sorted vector: the position of the first element that is not smaller.\<close>

definition lower_bound :: "'a::linorder list \<Rightarrow> 'a \<Rightarrow> nat" where
  "lower_bound xs x = length (takeWhile (\<lambda>y. y < x) xs)"

text \<open>The result is \<^verbatim>\<open>amountPowerOfTen\<close>.\<close>

definition isAmountApplicableInFusionTransactionInput :: "currency \<Rightarrow> u64 \<Rightarrow> u64 \<Rightarrow> u8 option" where
  "isAmountApplicableInFusionTransactionInput c amount threshold =
    (if threshold \<le> amount then None
     else if amount < m_defaultDustThreshold c then None
     else let it = lower_bound PRETTY_AMOUNTS amount in
       if it = length PRETTY_AMOUNTS \<or> amount \<noteq> PRETTY_AMOUNTS ! it then None
       else Some (of_nat (it div 9)))"

section \<open>Addresses and amounts as text\<close>

definition accountAddressAsString :: "currency \<Rightarrow> AccountPublicAddress \<Rightarrow> blob" where
  "accountAddressAsString c accountPublicAddress =
    getAccountAddressAsStr (m_publicAddressBase58Prefix c) accountPublicAddress"

definition currency_parseAccountAddressString :: "crypto \<Rightarrow> currency \<Rightarrow> blob \<Rightarrow> AccountPublicAddress option" where
  "currency_parseAccountAddressString C c str =
    (case parseAccountAddressString C str of
       None \<Rightarrow> None
     | Some (prefix, adr) \<Rightarrow> if prefix \<noteq> m_publicAddressBase58Prefix c then None else Some adr)"

definition formatAmount :: "currency \<Rightarrow> u64 \<Rightarrow> blob" where
  "formatAmount c amount =
    (let p = m_numberOfDecimalPlaces c;
         s = to_string (unat amount);
         s = (if length s < p + 1 then replicate (p + 1 - length s) 48 @ s else s)
     in take (length s - p) s @ bytes_of_string ''.'' @ drop (length s - p) s)"

text \<open>The overload for \<^verbatim>\<open>int64_t\<close>.\<close>

definition formatAmount_signed :: "currency \<Rightarrow> int \<Rightarrow> blob" where
  "formatAmount_signed c amount =
    (let s = formatAmount c (of_int (abs amount)) in if amount < 0 then bytes_of_string ''-'' @ s else s)"

definition is_space :: "u8 \<Rightarrow> bool" where
  "is_space b \<longleftrightarrow> b = 32 \<or> 9 \<le> b \<and> b \<le> 13"

definition is_digit :: "u8 \<Rightarrow> bool" where
  "is_digit b \<longleftrightarrow> 48 \<le> b \<and> b \<le> 57"

definition trim :: "blob \<Rightarrow> blob" where
  "trim str = rev (dropWhile is_space (rev (dropWhile is_space str)))"

text \<open>The loop that drops zeros behind the last decimal place.\<close>

fun drop_zeros :: "nat \<Rightarrow> blob \<Rightarrow> nat \<Rightarrow> blob \<times> nat" where
  "drop_zeros places strAmount 0 = (strAmount, 0)"
| "drop_zeros places strAmount (Suc fractionSize) =
    (if places < Suc fractionSize \<and> last strAmount = 48 then drop_zeros places (butlast strAmount) fractionSize
     else (strAmount, Suc fractionSize))"

definition dec_value :: "blob \<Rightarrow> nat" where
  "dec_value str = foldl (\<lambda>n b. n * 10 + (unat b - 48)) 0 str"

text \<open>\<^verbatim>\<open>Common::fromString<uint64_t>\<close> on a text of digits: the stream fails when the value does not fit.\<close>

definition fromString_u64 :: "blob \<Rightarrow> u64 option" where
  "fromString_u64 str = (let n = dec_value str in if n < 2 ^ 64 then Some (of_nat n) else None)"

definition parseAmount :: "currency \<Rightarrow> blob \<Rightarrow> u64 option" where
  "parseAmount c str =
    (let places = m_numberOfDecimalPlaces c;
         strAmount = trim str in
     case (case find_from strAmount 46 0 of
         Some pointIndex \<Rightarrow>
           let (strAmount, fractionSize) = drop_zeros places strAmount (length strAmount - pointIndex - 1) in
           if places < fractionSize then None
           else Some (take pointIndex strAmount @ drop (pointIndex + 1) strAmount, fractionSize)
       | None \<Rightarrow> Some (strAmount, 0)) of
       None \<Rightarrow> None
     | Some (strAmount, fractionSize) \<Rightarrow>
         if strAmount = [] then None
         else if \<not> list_all is_digit strAmount then None
         else fromString_u64 (if fractionSize < places then strAmount @ replicate (places - fractionSize) 48 else strAmount))"

section \<open>Difficulty\<close>

text \<open>
  \<^verbatim>\<open>nextDifficulty\<close>; \<open>None\<close> where an assertion on the two vectors or on the window fails. \<open>cut_range\<close> is the
  part of the sorted timestamps that is used.
\<close>

definition cut_range :: "currency \<Rightarrow> nat \<Rightarrow> nat \<times> nat" where
  "cut_range c len =
    (let keep = m_difficultyWindow c - 2 * m_difficultyCut c in
     if len \<le> keep then (0, len)
     else let cutBegin = (len - keep + 1) div 2 in (cutBegin, cutBegin + keep))"

definition nextDifficulty :: "currency \<Rightarrow> u64 list \<Rightarrow> u64 list \<Rightarrow> u64 option" where
  "nextDifficulty c timestamps cumulativeDifficulties =
    (let w = m_difficultyWindow c;
         cumulativeDifficulties =
           (if length timestamps > w then take w (cumulativeDifficulties @ replicate w 0) else cumulativeDifficulties);
         timestamps = (if length timestamps > w then take w timestamps else timestamps);
         len = length timestamps in
     if len \<noteq> length cumulativeDifficulties then None
     else if len \<le> 1 then Some 1
     else if \<not> 2 * m_difficultyCut c + 2 \<le> w then None
     else
       let timestamps = sort timestamps;
           (cutBegin, cutEnd) = cut_range c len;
           timeSpan = timestamps ! (cutEnd - 1) - timestamps ! cutBegin;
           timeSpan = (if timeSpan = 0 then 1 else timeSpan);
           totalWork = cumulativeDifficulties ! (cutEnd - 1) - cumulativeDifficulties ! cutBegin;
           (low, high) = mul128 totalWork (m_difficultyTarget c) in
       if high \<noteq> 0 \<or> low + timeSpan - 1 < low then Some 0
       else Some ((low + timeSpan - 1) div timeSpan))"

definition checkProofOfWork :: "(blob \<Rightarrow> Hash) \<Rightarrow> Block \<Rightarrow> u64 \<Rightarrow> bool" where
  "checkProofOfWork cn_slow_hash block currentDiffic =
    (case get_block_longhash cn_slow_hash block of
       None \<Rightarrow> False
     | Some proofOfWork \<Rightarrow> check_hash proofOfWork currentDiffic)"

definition getApproximateMaximumInputCount :: "u64 \<Rightarrow> u64 \<Rightarrow> u64 \<Rightarrow> u64 option" where
  "getApproximateMaximumInputCount transactionSize outputCount mixinCount =
    (let KEY_IMAGE_SIZE = 32; OUTPUT_KEY_SIZE = 32; AMOUNT_SIZE = 8 + 2; GLOBAL_INDEXES_VECTOR_SIZE_SIZE = 1;
         GLOBAL_INDEXES_INITIAL_VALUE_SIZE = 4; GLOBAL_INDEXES_DIFFERENCE_SIZE = 4; SIGNATURE_SIZE = 64;
         EXTRA_TAG_SIZE = 1; INPUT_TAG_SIZE = 1; OUTPUT_TAG_SIZE = 1; PUBLIC_KEY_SIZE = 32;
         TRANSACTION_VERSION_SIZE = 1; TRANSACTION_UNLOCK_TIME_SIZE = 8;
         outputsSize = outputCount * (OUTPUT_TAG_SIZE + OUTPUT_KEY_SIZE + AMOUNT_SIZE);
         headerSize = TRANSACTION_VERSION_SIZE + TRANSACTION_UNLOCK_TIME_SIZE + EXTRA_TAG_SIZE + PUBLIC_KEY_SIZE;
         inputSize = INPUT_TAG_SIZE + AMOUNT_SIZE + KEY_IMAGE_SIZE + SIGNATURE_SIZE + GLOBAL_INDEXES_VECTOR_SIZE_SIZE
           + GLOBAL_INDEXES_INITIAL_VALUE_SIZE + mixinCount * (GLOBAL_INDEXES_DIFFERENCE_SIZE + SIGNATURE_SIZE)
     in if inputSize = 0 then None else Some ((transactionSize - headerSize - outputsSize) div inputSize))"

section \<open>The parameters\<close>

lemma builder_values:
  "\<exists>c. CurrencyBuilder prefix fee = Inr c \<and> m_publicAddressBase58Prefix c = prefix \<and> m_defaultDustThreshold c = fee
    \<and> m_moneySupply c = 11110000000000000000 \<and> m_emissionSpeedFactor c = 21 \<and> m_blockGrantedFullRewardZone c = 10000
    \<and> m_difficultyWindow c = 778 \<and> m_difficultyCut c = 60 \<and> m_difficultyTarget c = 111
    \<and> m_numberOfDecimalPlaces c = 8 \<and> m_coin c = 100000000 \<and> m_minedMoneyUnlockWindow c = 60"
  by (simp add: CurrencyBuilder_def set_emissionSpeedFactor_def set_difficultyWindow_def set_numberOfDecimalPlaces_def
      EMISSION_SPEED_FACTOR_def difficulty_window_value ORBIS_DISPLAY_DECIMAL_POINT_def MONEY_SUPPLY_def
      ORBIS_BLOCK_GRANTED_FULL_REWARD_ZONE_def DIFFICULTY_CUT_def DIFFICULTY_TARGET_def ORBIS_MINED_MONEY_UNLOCK_WINDOW_def
      upt_rec Let_def)

lemma fmt_TransactionPrefix_nonempty: "fmt_Transaction tx \<noteq> []"
  by (simp add: fmt_Transaction_def fmt_TransactionPrefix_def uint_fmt_def)

text \<open>The repository has no genesis transaction, and without one the currency cannot be initialized.\<close>

lemma genesis_missing: "init GENESIS_COINBASE_TX_HEX c = None"
proof -
  have "fromBinaryArray in_Transaction [] = None"
    using tx.from_sound [of "[]"] fmt_TransactionPrefix_nonempty by (metis not_Some_eq)
  then show ?thesis
    by (simp add: init_def generateGenesisBlock_def GENESIS_COINBASE_TX_HEX_def bytes_of_string_def fromHex_def)
qed

section \<open>Block reward\<close>

lemma getBlockReward_too_big:
  assumes "m_emissionSpeedFactor c < 64" and "2 * max median (m_blockGrantedFullRewardZone c) < cur"
  shows "getBlockReward c median cur gen fee = Some None"
  using assms by (simp add: getBlockReward_def Let_def)

definition base_reward :: "currency \<Rightarrow> u64 \<Rightarrow> nat" where
  "base_reward c gen = (unat (m_moneySupply c) - unat gen) div 2 ^ m_emissionSpeedFactor c"

text \<open>
  The reward of a block that is not too big: the penalized base reward and fee, and the coins that
  the block emits never take the coins in circulation beyond the supply.
\<close>

lemma block_reward:
  fixes c :: currency and median cur gen fee :: u64
  defines "med \<equiv> max (unat median) (unat (m_blockGrantedFullRewardZone c))"
  assumes factor: "m_emissionSpeedFactor c < 64" and gen: "gen \<le> m_moneySupply c" and fee: "fee \<le> gen"
    and med: "0 < med" "med < 2 ^ 32" and cur: "unat cur < 2 ^ 32" "unat cur \<le> 2 * med"
  shows "\<exists>reward emission. getBlockReward c median cur gen fee = Some (Some (reward, emission))
    \<and> unat reward = penalized (base_reward c gen) med (unat cur) + penalized (unat fee) med (unat cur)
    \<and> reward = fee + emission
    \<and> unat (gen + emission) + unat fee = unat gen + unat reward
    \<and> unat (gen + emission) \<le> unat (m_moneySupply c)"
proof -
  define M where "M = max median (m_blockGrantedFullRewardZone c)"
  have uM: "unat M = med" by (simp add: M_def med_def max_def word_le_nat_alt)
  let ?base = "drop_bit (m_emissionSpeedFactor c) (m_moneySupply c - gen)"
  have base: "unat ?base = base_reward c gen"
    using gen by (simp add: unat_drop_bit base_reward_def unat_sub)
  have base_le: "base_reward c gen \<le> unat (m_moneySupply c) - unat gen" by (simp add: base_reward_def)
  have two: "unat (2 * M) = 2 * med" using med(2) unat_mult_exact [of 2 M] uM by simp
  have notbig: "\<not> 2 * M < cur" using cur(2) two by (simp add: word_less_nat_alt)
  note pen = getPenalizedAmount_exact [of M cur, unfolded uM, OF med cur]
  obtain pb where pb: "getPenalizedAmount ?base M cur = Some pb" "unat pb = penalized (base_reward c gen) med (unat cur)"
    using pen [of ?base] unfolding base by blast
  obtain pf where pf: "getPenalizedAmount fee M cur = Some pf" "unat pf = penalized (unat fee) med (unat cur)"
    using pen [of fee] by blast
  have le: "unat pb \<le> base_reward c gen" "unat pf \<le> unat fee"
    using pb(2) pf(2) penalized_le [OF cur(2)] by simp_all
  have g: "unat gen \<le> unat (m_moneySupply c)" "unat fee \<le> unat gen" using gen fee by (simp_all add: word_le_nat_alt)
  have sum: "unat pb + unat pf + (unat gen - unat fee) \<le> unat (m_moneySupply c)" using le g base_le by linarith
  then have "unat pb + unat pf < 2 ^ LENGTH(64)" using unat_bound [of "m_moneySupply c"] by linarith
  then have r: "unat (pb + pf) = unat pb + unat pf" by (rule unat_add_exact)
  let ?e = "pb - (fee - pf)"
  have ge: "gen + ?e = (gen - fee) + (pb + pf)" by simp
  have gf: "unat (gen - fee) = unat gen - unat fee" using fee by (rule unat_sub)
  have "unat (gen - fee) + unat (pb + pf) < 2 ^ LENGTH(64)"
    unfolding gf r using sum unat_bound [of "m_moneySupply c"] by linarith
  from unat_add_exact [OF this] have e: "unat (gen + ?e) = unat gen - unat fee + (unat pb + unat pf)"
    unfolding ge gf r .
  have "getBlockReward c median cur gen fee = Some (Some (pb + pf, ?e))"
    using factor notbig pb(1) pf(1) by (simp add: getBlockReward_def Let_def flip: M_def)
  moreover have "pb + pf = fee + ?e" by simp
  moreover have "unat (gen + ?e) + unat fee = unat gen + unat (pb + pf)" unfolding e r using g by linarith
  moreover have "unat (gen + ?e) \<le> unat (m_moneySupply c)" unfolding e using sum by linarith
  moreover have "unat (pb + pf) = penalized (base_reward c gen) med (unat cur) + penalized (unat fee) med (unat cur)"
    unfolding r pb(2) pf(2) ..
  ultimately show ?thesis by blast
qed

section \<open>The coinbase transaction\<close>

lemma sum_list_butlast_add:
  fixes as :: "u64 list"
  assumes "2 \<le> length as"
  shows "sum_list (butlast (as[length as - 2 := as ! (length as - 2) + last as])) = sum_list as"
proof -
  obtain xs b where x: "as = xs @ [b]" using assms by (cases as rule: rev_cases) auto
  with assms obtain ys a where y: "xs = ys @ [a]" by (cases xs rule: rev_cases) auto
  show ?thesis by (simp add: x y list_update_append nth_append butlast_append)
qed

lemma join_amounts_sum: "sum_list (join_amounts maxOuts as) = sum_list as"
proof (induction maxOuts as rule: join_amounts.induct)
  case (1 maxOuts as)
  show ?case
  proof (cases "1 \<le> maxOuts \<and> maxOuts < length as")
    case True
    with "1.IH" sum_list_butlast_add [of as] show ?thesis by (simp add: join_amounts.simps [of maxOuts as])
  next
    case False
    then show ?thesis by (simp only: join_amounts.simps [of maxOuts as] if_False)
  qed
qed

lemma join_amounts_length: "1 \<le> maxOuts \<Longrightarrow> length (join_amounts maxOuts as) = min maxOuts (length as)"
proof (induction maxOuts as rule: join_amounts.induct)
  case (1 maxOuts as)
  then show ?case by (cases "maxOuts < length as") (auto simp: join_amounts.simps [of maxOuts as])
qed

lemma miner_outputs_some:
  assumes "generate_key_derivation C (viewPublicKey a) (kp_secretKey txkey) = Some D"
    and "\<forall>n. derive_public_key C D n (spendPublicKey a) \<noteq> None"
  shows "\<exists>outs. miner_outputs C a txkey as n = Some outs \<and> map to_amount outs = as"
proof (induction as arbitrary: n)
  case Nil
  then show ?case by simp
next
  case (Cons x as)
  obtain k where "derive_public_key C D n (spendPublicKey a) = Some k" using assms(2) by blast
  moreover obtain outs where "miner_outputs C a txkey as (n + 1) = Some outs" "map to_amount outs = as" using Cons by blast
  ultimately show ?case using assms(1) by simp
qed

lemma decompose_word_sum: "sum_list (map part_amount (decompose_amount_into_digits r d)) = r"
proof -
  let ?ps = "map part_amount (decompose_amount_into_digits r d)"
  have "sum_list (map unat ?ps) = unat r" using decompose_sum [of r d] by (simp add: parts_sum_def comp_def)
  moreover have "unat (sum_list ?ps) = sum_list (map unat ?ps)"
    using calculation unat_u64_bound [of r] by (intro sum_list_exact) simp
  ultimately have "unat (sum_list ?ps) = unat r" by simp
  then show ?thesis by (simp only: word_unat_eq_iff)
qed

text \<open>
  The coinbase transaction pays the reward, in at most \<^verbatim>\<open>maxOuts\<close> outputs, locked for the maturity
  period. The test \<^verbatim>\<open>summaryAmounts == blockReward\<close> always succeeds.
\<close>

lemma miner_tx:
  assumes reward: "getBlockReward c median cur gen fee = Some (Some (reward, emission))"
    and outs: "1 \<le> maxOuts" and nonce: "length extraNonce \<le> 255"
    and keys: "generate_key_derivation C (viewPublicKey a) (kp_secretKey txkey) = Some D"
      "\<forall>n. derive_public_key C D n (spendPublicKey a) \<noteq> None"
  shows "\<exists>t. constructMinerTx C txkey c height median gen cur fee a tx extraNonce maxOuts = Some (Some t)
    \<and> inputs t = [VBaseInput \<lparr>blockIndex = height\<rparr>] \<and> getOutputAmount t = reward \<and> length (outputs t) \<le> maxOuts
    \<and> unlockTime t = ucast height + m_minedMoneyUnlockWindow c \<and> version t = CURRENT_TRANSACTION_VERSION"
proof -
  let ?as = "join_amounts maxOuts (map part_amount (decompose_amount_into_digits reward (m_defaultDustThreshold c)))"
  obtain os where os: "miner_outputs C a txkey ?as 0 = Some os" "map to_amount os = ?as" using miner_outputs_some [OF keys] by blast
  have s: "fold (\<lambda>out s. s + to_amount out) os 0 = reward"
    by (simp add: fold_plus os(2) join_amounts_sum decompose_word_sum)
  have l: "length os \<le> maxOuts" using arg_cong [OF os(2), of length] join_amounts_length [OF outs] by simp
  obtain e where e: "(if extraNonce \<noteq> [] then addExtraNonceToTransactionExtra (addTransactionPublicKeyToExtra [] (kp_publicKey txkey)) extraNonce
      else Some (addTransactionPublicKeyToExtra [] (kp_publicKey txkey))) = Some e"
    using nonce by (cases "extraNonce = []") (simp_all add: addExtraNonceToTransactionExtra_def TX_EXTRA_NONCE_MAX_COUNT_def)
  show ?thesis using e os(1) s l outs reward by (simp add: constructMinerTx_def Let_def getOutputAmount_def)
qed

section \<open>Fusion transactions\<close>

lemma fusion_amounts_conserve:
  assumes "isFusionAmounts c ins outs sz"
  shows "sum_list outs = sum_list ins"
proof -
  have "outs = sort (map part_amount (decompose_amount_into_digits (sum_list ins) (m_defaultDustThreshold c)))"
    using assms fold_plus [of "\<lambda>x. x" ins 0] by (auto simp: isFusionAmounts_def decomposeAmount_def Let_def split: if_splits)
  then have "mset outs = mset (map part_amount (decompose_amount_into_digits (sum_list ins) (m_defaultDustThreshold c)))" by simp
  then show ?thesis by (metis decompose_word_sum sum_mset_sum_list)
qed

lemma sum_map_filter:
  "sum_list (List.map_filter f xs) = sum_list (map (\<lambda>x. case f x of None \<Rightarrow> 0 | Some a \<Rightarrow> a) xs)"
  for f :: "'b \<Rightarrow> 'a::comm_monoid_add option"
  by (induction xs) (auto simp: map_filter_simps split: option.splits)

text \<open>A fusion transaction pays no fee.\<close>

lemma fusion_size_no_fee:
  assumes "isFusionTransaction_size c tx sz"
  shows "get_tx_fee tx = Some 0"
proof -
  from assms have "sum_list (map to_amount (outputs tx)) = sum_list (getInputsAmounts tx)"
    by (simp add: isFusionTransaction_size_def fusion_amounts_conserve)
  then show ?thesis
    by (simp add: get_tx_fee_def input_fold fold_plus getInputsAmounts_eq sum_map_filter)
qed

lemma pretty_table: "PRETTY_AMOUNTS = map (\<lambda>i. of_nat (i mod 9 + 1) * 10 ^ (i div 9)) [0..<172]"
  by code_simp

lemma pretty_ascending: "list_all (\<lambda>i. PRETTY_AMOUNTS ! i < PRETTY_AMOUNTS ! Suc i) [0..<171]"
  by code_simp

lemma length_pretty [simp]: "length PRETTY_AMOUNTS = 172"
  by (simp add: pretty_table)

lemma pretty_sorted: "sorted_wrt (<) PRETTY_AMOUNTS"
proof -
  have "PRETTY_AMOUNTS ! i < PRETTY_AMOUNTS ! Suc i" if "Suc i < 172" for i
    using pretty_ascending that by (simp add: list_all_iff)
  then show ?thesis by (simp add: sorted_wrt_iff_nth_Suc_transp)
qed

lemma lower_bound_nth:
  assumes "sorted_wrt (<) xs" and "i < length xs"
  shows "lower_bound xs (xs ! i) = i"
proof -
  have "takeWhile (\<lambda>y. y < xs ! i) xs = take i xs"
    using assms by (intro takeWhile_eq_take_P_nth) (auto simp: sorted_wrt_iff_nth_less)
  then show ?thesis using assms(2) by (simp add: lower_bound_def)
qed

lemma pretty_value:
  assumes "i < 172"
  shows "unat (PRETTY_AMOUNTS ! i) = (i mod 9 + 1) * 10 ^ (i div 9)"
proof -
  have b: "(i mod 9 + 1) * 10 ^ (i div 9) \<le> (10 :: nat) ^ 19"
  proof (cases "i div 9 \<le> 18")
    case True
    then have "(10 :: nat) ^ (i div 9) \<le> 10 ^ 18" by (intro power_increasing) simp_all
    moreover have "i mod 9 + 1 \<le> 10" using mod_less_divisor [of 9 i] by simp
    ultimately have "(i mod 9 + 1) * 10 ^ (i div 9) \<le> 10 * 10 ^ 18" by (intro mult_le_mono)
    then show ?thesis by simp
  next
    case False
    then have "i = 171" using assms by simp
    then show ?thesis by simp
  qed
  then have b': "(i mod 9 + 1) * 10 ^ (i div 9) < (2 :: nat) ^ LENGTH(64)" by simp
  have "PRETTY_AMOUNTS ! i = of_nat ((i mod 9 + 1) * 10 ^ (i div 9))"
    using assms by (simp add: pretty_table algebra_simps)
  then show ?thesis using b' by (simp only: unat_of_nat mod_less)
qed

text \<open>The amounts that may be fused: one digit and zeros, not below the dust threshold, below the given one.\<close>

lemma fusion_input_iff:
  "isAmountApplicableInFusionTransactionInput c amount threshold = Some p \<longleftrightarrow>
   amount < threshold \<and> m_defaultDustThreshold c \<le> amount \<and> (\<exists>d. 1 \<le> d \<and> d \<le> 9 \<and> unat amount = d * 10 ^ unat p)"
  (is "?l \<longleftrightarrow> ?r")
proof
  assume l: ?l
  define i where "i = lower_bound PRETTY_AMOUNTS amount"
  from l have i: "i \<noteq> 172" "amount = PRETTY_AMOUNTS ! i" "p = of_nat (i div 9)" "amount < threshold" "m_defaultDustThreshold c \<le> amount"
    by (auto simp: isAmountApplicableInFusionTransactionInput_def Let_def i_def split: if_splits)
  have "i \<le> 172" using length_takeWhile_le [of _ PRETTY_AMOUNTS] unfolding i_def lower_bound_def length_pretty .
  with i(1) have "i < 172" by simp
  then have "unat amount = (i mod 9 + 1) * 10 ^ (i div 9)" using pretty_value i(2) by simp
  moreover have "unat p = i div 9" using i(3) \<open>i < 172\<close> by (simp add: unat_of_nat_u8)
  ultimately have "1 \<le> i mod 9 + 1 \<and> i mod 9 + 1 \<le> 9 \<and> unat amount = (i mod 9 + 1) * 10 ^ unat p"
    using mod_less_divisor [of 9 i] by simp
  with i(4,5) show ?r by blast
next
  assume ?r
  then obtain d where d: "1 \<le> d" "d \<le> 9" "unat amount = d * 10 ^ unat p"
    and a: "amount < threshold" "m_defaultDustThreshold c \<le> amount" by blast
  let ?i = "9 * unat p + (d - 1)"
  have "unat p \<le> 19"
  proof (rule ccontr)
    assume "\<not> unat p \<le> 19"
    then have "(10 :: nat) ^ 20 \<le> 10 ^ unat p" by (intro power_increasing) simp_all
    also have "\<dots> \<le> unat amount" using d by simp
    finally show False using unat_u64_bound [of amount] by simp
  qed
  moreover have "d = 1" if "unat p = 19"
    using d(1) d(3) that unat_u64_bound [of amount] by simp
  ultimately have i: "?i < 172" using d(2) by (cases "unat p = 19") auto
  have "d - 1 < 9" using d(2) by simp
  then have m: "?i div 9 = unat p" "?i mod 9 = d - 1" by (simp_all only: div_mult_self4 mod_mult_self4 div_less mod_less add_0_right)
  have "unat (PRETTY_AMOUNTS ! ?i) = unat amount" unfolding pretty_value [OF i] m using d by simp
  then have e: "PRETTY_AMOUNTS ! ?i = amount" by (simp only: word_unat_eq_iff)
  have "lower_bound PRETTY_AMOUNTS amount = ?i" using lower_bound_nth [OF pretty_sorted, of ?i] i e by simp
  then show ?l using a e i m by (simp add: isAmountApplicableInFusionTransactionInput_def Let_def not_less not_le)
qed

section \<open>Amounts as text\<close>

lemma dec_value_append: "dec_value (a @ b) = dec_value a * 10 ^ length b + dec_value b"
proof -
  have f: "foldl (\<lambda>n b. n * 10 + (unat b - 48)) n b = n * 10 ^ length b + dec_value b" for n and b :: blob
    by (induction b rule: rev_induct) (simp_all add: dec_value_def algebra_simps)
  show ?thesis using f [of "dec_value a" b] by (simp add: dec_value_def)
qed

lemma dec_value_zeros: "dec_value (replicate k 48) = 0"
  by (induction k) (simp_all add: dec_value_def)

lemma to_string_digits: "to_string n \<noteq> [] \<and> list_all is_digit (to_string n) \<and> dec_value (to_string n) = n"
proof (induction n rule: to_string.induct)
  case (1 n)
  have d: "is_digit (of_nat (48 + k)) \<and> dec_value [of_nat (48 + k)] = k" if "k < 10" for k
    using that by (simp add: is_digit_def dec_value_def word_le_nat_alt unat_of_nat_u8 del: of_nat_add)
  show ?case
  proof (cases "n < 10")
    case True
    then show ?thesis using d [of n] by (simp add: to_string.simps [of n])
  next
    case False
    have e: "to_string n = to_string (n div 10) @ [of_nat (48 + n mod 10)]" using False by (simp only: to_string.simps [of n] if_False)
    show ?thesis unfolding e using "1.IH" [OF False] d [of "n mod 10"] by (simp add: dec_value_append del: of_nat_add)
  qed
qed

lemma find_from_app:
  assumes "b \<notin> set pre"
  shows "find_from (pre @ b # rest) b 0 = Some (length pre)"
  using assms by (auto simp: find_from_def find_Some_iff nth_append intro!: exI [of _ "length pre"])

lemma digit_not_space: "is_digit b \<Longrightarrow> \<not> is_space b" "\<not> is_space 46"
  by (auto simp: is_digit_def is_space_def word_le_nat_alt)

lemma trim_id: "str \<noteq> [] \<Longrightarrow> \<not> is_space (hd str) \<Longrightarrow> \<not> is_space (last str) \<Longrightarrow> trim str = str"
proof -
  assume "str \<noteq> []" and hd: "\<not> is_space (hd str)" and last: "\<not> is_space (last str)"
  then have "dropWhile is_space str = str" by (cases str) auto
  moreover have "dropWhile is_space (rev str) = rev str"
    using \<open>str \<noteq> []\<close> last by (cases str rule: rev_cases) auto
  ultimately show ?thesis by (simp add: trim_def)
qed

text \<open>An amount that is printed and read again is the same, for any number of decimal places.\<close>

lemma amount_roundtrip: "parseAmount c (formatAmount c amount) = Some amount"
proof -
  let ?p = "m_numberOfDecimalPlaces c"
  define s where "s = replicate (?p + 1 - length (to_string (unat amount))) 48 @ to_string (unat amount)"
  define i where "i = length s - ?p"
  have s: "list_all is_digit s" "dec_value s = unat amount" "?p < length s"
    using to_string_digits [of "unat amount"]
    by (auto simp: s_def dec_value_append dec_value_zeros is_digit_def list_all_iff)
  have f: "formatAmount c amount = take i s @ 46 # drop i s"
    by (auto simp: formatAmount_def Let_def s_def i_def bytes_of_string_def)
  have i: "0 < i" "i \<le> length s" "length (drop i s) = ?p" using s(3) by (auto simp: i_def)
  have dig: "list_all is_digit (take i s)" "list_all is_digit (drop i s)"
    using s(1) by (auto simp: list_all_iff dest: in_set_takeD in_set_dropD)
  have "trim (take i s @ 46 # drop i s) = take i s @ 46 # drop i s"
  proof (rule trim_id)
    show "\<not> is_space (hd (take i s @ 46 # drop i s))"
      using i(1,2) dig(1) s(3) by (cases s) (auto simp: digit_not_space take_Cons')
    show "\<not> is_space (last (take i s @ 46 # drop i s))"
      using dig(2) by (cases "drop i s" rule: rev_cases) (auto simp: digit_not_space)
  qed simp
  moreover have "(46 :: u8) \<notin> set (take i s)" using dig(1) by (auto simp: list_all_iff is_digit_def)
  from find_from_app [OF this] have "find_from (take i s @ 46 # drop i s) 46 0 = Some i" using i(2) by simp
  moreover have "drop_zeros ?p (take i s @ 46 # drop i s) ?p = (take i s @ 46 # drop i s, ?p)" by (cases ?p) simp_all
  ultimately have "parseAmount c (formatAmount c amount) = fromString_u64 s"
    using s(1,3) i by (auto simp: f parseAmount_def Let_def min_def)
  then show ?thesis using s(2) unat_u64_bound [of amount] by (simp add: fromString_u64_def Let_def)
qed

section \<open>The next difficulty\<close>

lemma cut_range_ok:
  assumes "cut_range c len = (b, e)" and "2 \<le> len" and "len \<le> m_difficultyWindow c" and "2 * m_difficultyCut c + 2 \<le> m_difficultyWindow c"
  shows "b + 2 \<le> e" "e \<le> len"
proof -
  define keep where "keep = m_difficultyWindow c - 2 * m_difficultyCut c"
  have keep: "2 \<le> keep" "keep \<le> m_difficultyWindow c" using assms(4) by (auto simp: keep_def)
  have r: "(b, e) = (if len \<le> keep then (0, len) else ((len - keep + 1) div 2, (len - keep + 1) div 2 + keep))"
    using assms(1) unfolding cut_range_def Let_def keep_def [symmetric] by simp
  show "b + 2 \<le> e" using r keep assms(2) by (auto split: if_splits)
  show "e \<le> len"
  proof (cases "len \<le> keep")
    case False
    then have "(len - keep + 1) div 2 \<le> len - keep" by simp
    then show ?thesis using r False by simp
  qed (use r in simp)
qed

text \<open>
  The quotient of the total work in the window, times the target time, by the time it took, rounded
  up; zero if this does not fit into 64 bits.
\<close>

lemma next_difficulty:
  fixes c :: currency and ts cd :: "u64 list"
  assumes w: "2 * m_difficultyCut c + 2 \<le> m_difficultyWindow c"
    and len: "2 \<le> length ts" "length ts \<le> m_difficultyWindow c" "length cd = length ts"
    and cut: "cut_range c (length ts) = (b, e)"
  defines "span \<equiv> max 1 (unat (sort ts ! (e - 1)) - unat (sort ts ! b))"
    and "work \<equiv> unat (cd ! (e - 1) - cd ! b) * unat (m_difficultyTarget c)"
  shows "\<exists>d. nextDifficulty c ts cd = Some d
    \<and> unat d = (if work + span - 1 < 2 ^ 64 then (work + span - 1) div span else 0)"
proof -
  note be = cut_range_ok [OF cut len(1,2) w]
  let ?T = "sort ts ! (e - 1) - sort ts ! b" and ?W = "cd ! (e - 1) - cd ! b"
  define T where "T = (if ?T = 0 then 1 else ?T)"
  have "sort ts ! b \<le> sort ts ! (e - 1)" using be by (intro sorted_nth_mono) auto
  then have "unat ?T = unat (sort ts ! (e - 1)) - unat (sort ts ! b)" by (simp add: unat_sub)
  then have T: "unat T = span" by (auto simp: T_def span_def unat_eq_zero [symmetric] max_def)
  then have T1: "1 \<le> unat T" by (simp add: span_def)
  obtain lo hi where lh: "mul128 ?W (m_difficultyTarget c) = (lo, hi)" by fastforce
  note prod = mul128_exact [OF lh]
  have nd: "nextDifficulty c ts cd = (if hi \<noteq> 0 \<or> lo + T - 1 < lo then Some 0 else Some ((lo + T - 1) div T))"
    using w len cut lh be by (simp add: nextDifficulty_def Let_def T_def)
  show ?thesis
  proof (cases "hi = 0")
    case True
    then have lo: "unat lo = work" using prod by (simp add: work_def)
    have T': "lo + T - 1 = lo + (T - 1)" "unat (T - 1) = span - 1" using T T1 by (simp_all add: unat_sub word_le_nat_alt)
    have wrap: "lo + T - 1 < lo \<longleftrightarrow> 2 ^ LENGTH(64) \<le> work + (span - 1)"
      unfolding T'(1) wrapped_add_iff T'(2) lo ..
    show ?thesis
    proof (cases "lo + T - 1 < lo")
      case F: True
      with wrap have "\<not> work + span - 1 < 2 ^ 64" using T T1 by simp
      then show ?thesis using nd F by simp
    next
      case F: False
      with wrap have b: "unat lo + unat (T - 1) < 2 ^ LENGTH(64)" using lo T' by simp
      have "unat (lo + T - 1) = work + span - 1" unfolding T'(1) unat_add_exact [OF b] using T' lo T T1 by simp
      moreover have "work + span - 1 < 2 ^ 64" using b lo T T1 T' by simp
      ultimately show ?thesis using nd True F T by (simp add: unat_div)
    qed
  next
    case False
    then have "1 \<le> unat hi" by (simp add: Suc_leI unat_gt_0)
    then have "2 ^ 64 \<le> work" using prod by (simp add: work_def flip: prod)
    then have "\<not> work + span - 1 < 2 ^ 64" using T T1 by simp
    then show ?thesis using nd False by simp
  qed
qed

lemma proof_of_work_iff:
  "checkProofOfWork slow b d \<longleftrightarrow> (\<exists>blob. get_block_hashing_blob b = Some blob \<and> hash_number (slow blob) * unat d < 2 ^ 256)"
  by (auto simp: checkProofOfWork_def get_block_longhash_def check_hash_iff split: option.splits)

end
