(* ===== verification/Checkpoints.thy ===== *)
theory Checkpoints
  imports StringTools OrbisTypes
begin

text \<open>
  \<^verbatim>\<open>src/OrbisCore/Checkpoints.cpp\<close>. The ordered map \<^verbatim>\<open>m_points\<close> is the list of its entries in ascending
  order of the height. The operations are shown to implement the partial function from heights to
  hashes that the list stands for.
\<close>

record Checkpoints =
  m_points :: "(u32 \<times> Hash) list"

definition empty_Checkpoints :: Checkpoints where
  "empty_Checkpoints = \<lparr>m_points = []\<rparr>"

definition add_checkpoint :: "Checkpoints \<Rightarrow> u32 \<Rightarrow> blob \<Rightarrow> bool \<times> Checkpoints" where
  "add_checkpoint c height hash_str =
    (case podFromHex 32 hash_str of
       None \<Rightarrow> (False, c)
     | Some h \<Rightarrow>
         if map_of (m_points c) height \<noteq> None then (False, c)
         else (True, c\<lparr>m_points := insort_key fst (height, h) (m_points c)\<rparr>))"

definition is_in_checkpoint_zone :: "Checkpoints \<Rightarrow> u32 \<Rightarrow> bool" where
  "is_in_checkpoint_zone c height \<longleftrightarrow> m_points c \<noteq> [] \<and> height \<le> fst (last (m_points c))"

text \<open>The result is the returned value and \<^verbatim>\<open>is_a_checkpoint\<close>.\<close>

definition check_block_flag :: "Checkpoints \<Rightarrow> u32 \<Rightarrow> Hash \<Rightarrow> bool \<times> bool" where
  "check_block_flag c height h =
    (case map_of (m_points c) height of
       None \<Rightarrow> (True, False)
     | Some p \<Rightarrow> if p = h then (True, True) else (False, True))"

definition check_block :: "Checkpoints \<Rightarrow> u32 \<Rightarrow> Hash \<Rightarrow> bool" where
  "check_block c height h = fst (check_block_flag c height h)"

definition is_alternative_block_allowed :: "Checkpoints \<Rightarrow> u32 \<Rightarrow> u32 \<Rightarrow> bool" where
  "is_alternative_block_allowed c blockchain_height block_height =
    (if block_height = 0 then False
     else let before = takeWhile (\<lambda>p. fst p \<le> blockchain_height) (m_points c) in
       if before = [] then True
       else let checkpoint_height = fst (last before) in checkpoint_height < block_height)"

text \<open>The entries are in strictly ascending order and every hash has its size.\<close>

definition checkpoints_ok :: "Checkpoints \<Rightarrow> bool" where
  "checkpoints_ok c \<longleftrightarrow> sorted_wrt (<) (map fst (m_points c)) \<and> (\<forall>p \<in> set (m_points c). length (snd p) = 32)"

definition checkpoints_abs :: "Checkpoints \<Rightarrow> u32 \<rightharpoonup> Hash" where
  "checkpoints_abs c = map_of (m_points c)"

lemma map_of_insort:
  "k \<notin> fst ` set ps \<Longrightarrow> map_of (insort_key fst (k, h) ps) = (map_of ps)(k \<mapsto> h)"
  by (induction ps) (auto simp: fun_eq_iff)

lemma sorted_wrt_insort:
  "sorted_wrt (<) (map fst ps) \<Longrightarrow> k \<notin> fst ` set ps \<Longrightarrow> sorted_wrt (<) (map fst (insort_key fst (k, h) ps))"
  for k :: "'k::linorder"
  by (induction ps) (auto simp: set_insort_key)

text \<open>Adding a checkpoint fails and changes nothing, or it extends the map at a new height.\<close>

lemma add_checkpoint_cases:
  assumes "checkpoints_ok c" and "add_checkpoint c height str = (r, c')"
  shows "checkpoints_ok c' \<and>
    (if r then \<exists>h. podFromHex 32 str = Some h \<and> checkpoints_abs c height = None \<and> checkpoints_abs c' = (checkpoints_abs c)(height \<mapsto> h)
     else c' = c \<and> (podFromHex 32 str = None \<or> checkpoints_abs c height \<noteq> None))"
proof (cases "podFromHex 32 str")
  case None
  with assms show ?thesis by (auto simp: add_checkpoint_def)
next
  case (Some h)
  show ?thesis
  proof (cases "map_of (m_points c) height")
    case None
    then have n: "height \<notin> fst ` set (m_points c)" by (simp add: map_of_eq_None_iff)
    from assms(2) Some None have r: "r" "c' = c\<lparr>m_points := insort_key fst (height, h) (m_points c)\<rparr>"
      by (auto simp: add_checkpoint_def)
    have "length h = 32" using podFromHex_length [OF Some] by simp
    with r n assms(1) Some None show ?thesis
      by (auto simp: checkpoints_ok_def checkpoints_abs_def set_insort_key map_of_insort sorted_wrt_insort)
  next
    case (Some p)
    with assms \<open>podFromHex 32 str = _\<close> show ?thesis by (auto simp: add_checkpoint_def checkpoints_abs_def)
  qed
qed

lemma sorted_last:
  "sorted_wrt (<) (map fst ps) \<Longrightarrow> p \<in> set ps \<Longrightarrow> fst p \<le> fst (last ps)" for ps :: "('k::linorder \<times> 'v) list"
proof (induction ps rule: rev_induct)
  case (snoc q ps)
  then show ?case by (auto simp: sorted_wrt_append)
qed simp

lemma checkpoint_zone_iff:
  assumes "checkpoints_ok c"
  shows "is_in_checkpoint_zone c height \<longleftrightarrow> (\<exists>cp \<in> dom (checkpoints_abs c). height \<le> cp)"
proof -
  have s: "sorted_wrt (<) (map fst (m_points c))" using assms by (simp add: checkpoints_ok_def)
  have d: "dom (checkpoints_abs c) = fst ` set (m_points c)" by (simp add: checkpoints_abs_def dom_map_of_conv_image_fst)
  show ?thesis unfolding is_in_checkpoint_zone_def d
    using sorted_last [OF s] by (auto dest: last_in_set intro: order_trans)
qed

lemma takeWhile_sorted:
  "sorted_wrt (<) (map fst ps) \<Longrightarrow> p \<in> set ps \<Longrightarrow> fst p \<le> b \<Longrightarrow> p \<in> set (takeWhile (\<lambda>p. fst p \<le> b) ps)"
  for ps :: "('k::linorder \<times> 'v) list"
  by (induction ps) auto

text \<open>
  A block of an alternative chain is allowed exactly when no checkpoint that the main chain has
  passed is at its height or above it.
\<close>

lemma alternative_allowed_iff:
  assumes "checkpoints_ok c"
  shows "is_alternative_block_allowed c bh h \<longleftrightarrow> h \<noteq> 0 \<and> (\<forall>cp \<in> dom (checkpoints_abs c). cp \<le> bh \<longrightarrow> cp < h)"
proof -
  let ?b = "takeWhile (\<lambda>p. fst p \<le> bh) (m_points c)"
  have s: "sorted_wrt (<) (map fst (m_points c))" using assms by (simp add: checkpoints_ok_def)
  have d: "dom (checkpoints_abs c) = fst ` set (m_points c)" by (simp add: checkpoints_abs_def dom_map_of_conv_image_fst)
  have before: "(\<forall>cp \<in> fst ` set (m_points c). cp \<le> bh \<longrightarrow> cp < h) \<longleftrightarrow> (\<forall>p \<in> set ?b. fst p < h)"
    using takeWhile_sorted [OF s] set_takeWhileD by (auto dest!: set_takeWhileD)
  have "sorted_wrt (<) (map fst ?b)"
    using s by (metis map_append sorted_wrt_append takeWhile_dropWhile_id)
  then have "(\<forall>p \<in> set ?b. fst p < h) \<longleftrightarrow> ?b = [] \<or> fst (last ?b) < h"
    using sorted_last [of ?b] by (auto dest: last_in_set intro: le_less_trans)
  then show ?thesis unfolding d before by (simp add: is_alternative_block_allowed_def Let_def)
qed

lemma check_block_iff: "check_block c height h \<longleftrightarrow> (\<forall>p. checkpoints_abs c height = Some p \<longrightarrow> p = h)"
  by (auto simp: check_block_def check_block_flag_def checkpoints_abs_def split: option.splits)

end
