(* ===== verification/SerializationOverloads.thy ===== *)
theory SerializationOverloads
  imports Serializer
begin

text \<open>
  The rest of \<^verbatim>\<open>src/Serialization/SerializationOverloads.{h,cpp}\<close>: sequences behind iterators, sets and maps,
  pairs, enumerations and block heights. A set or map is the list of its elements in the order of
  iteration; a reader inserts one element after the other.
\<close>

section \<open>Sequences, pairs, sets and maps\<close>

definition writeSequence :: "(blob \<Rightarrow> 'a \<Rightarrow> blob result) \<Rightarrow> blob \<Rightarrow> 'a list \<Rightarrow> blob result" where
  "writeSequence ser out xs = bindR (out_beginArray out (length xs)) (\<lambda>out. out_items ser out xs)"

text \<open>\<open>ins\<close> is what an assignment through the output iterator does to the container.\<close>

fun readSequence_loop :: "(memory_input_stream \<Rightarrow> ('a \<times> memory_input_stream) result) \<Rightarrow> ('a \<Rightarrow> 'c \<Rightarrow> 'c)
    \<Rightarrow> nat \<Rightarrow> 'c \<Rightarrow> memory_input_stream \<Rightarrow> ('c \<times> memory_input_stream) result" where
  "readSequence_loop des ins 0 c s = Inr (c, s)"
| "readSequence_loop des ins (Suc n) c s = bindR (des s) (\<lambda>(e, s). readSequence_loop des ins n (ins e c) s)"

definition readSequence :: "(memory_input_stream \<Rightarrow> ('a \<times> memory_input_stream) result) \<Rightarrow> ('a \<Rightarrow> 'c \<Rightarrow> 'c)
    \<Rightarrow> 'c \<Rightarrow> memory_input_stream \<Rightarrow> ('c \<times> memory_input_stream) result" where
  "readSequence des ins c s = bindR (in_beginArray s) (\<lambda>(n, s). readSequence_loop des ins n c s)"

definition out_pair :: "(blob \<Rightarrow> 'a \<Rightarrow> blob result) \<Rightarrow> (blob \<Rightarrow> 'b \<Rightarrow> blob result) \<Rightarrow> blob \<Rightarrow> 'a \<times> 'b \<Rightarrow> blob result" where
  "out_pair ser1 ser2 out p = bindR (ser1 out (fst p)) (\<lambda>out. ser2 out (snd p))"

definition in_pair :: "(memory_input_stream \<Rightarrow> ('a \<times> memory_input_stream) result)
    \<Rightarrow> (memory_input_stream \<Rightarrow> ('b \<times> memory_input_stream) result) \<Rightarrow> memory_input_stream \<Rightarrow> (('a \<times> 'b) \<times> memory_input_stream) result" where
  "in_pair des1 des2 s = bindR (des1 s) (\<lambda>(a, s). bindR (des2 s) (\<lambda>(b, s). Inr ((a, b), s)))"

text \<open>\<^verbatim>\<open>serializeSet\<close> and \<^verbatim>\<open>serializeMap\<close>; \<^verbatim>\<open>insert\<close> does nothing when the key is there already.\<close>

definition set_insert :: "'a \<Rightarrow> 'a list \<Rightarrow> 'a list" where
  "set_insert x xs = (if x \<in> set xs then xs else xs @ [x])"

definition map_insert :: "'k \<times> 'v \<Rightarrow> ('k \<times> 'v) list \<Rightarrow> ('k \<times> 'v) list" where
  "map_insert kv kvs = (if fst kv \<in> fst ` set kvs then kvs else kvs @ [kv])"

definition out_set :: "(blob \<Rightarrow> 'a \<Rightarrow> blob result) \<Rightarrow> blob \<Rightarrow> 'a list \<Rightarrow> blob result" where
  "out_set ser out xs = bindR (out_beginArray out (length xs)) (\<lambda>out. out_items ser out xs)"

definition in_set :: "(memory_input_stream \<Rightarrow> ('a \<times> memory_input_stream) result) \<Rightarrow> 'a list
    \<Rightarrow> memory_input_stream \<Rightarrow> ('a list \<times> memory_input_stream) result" where
  "in_set des value0 s = bindR (in_beginArray s) (\<lambda>(n, s). readSequence_loop des set_insert n value0 s)"

definition out_map :: "(blob \<Rightarrow> 'k \<Rightarrow> blob result) \<Rightarrow> (blob \<Rightarrow> 'v \<Rightarrow> blob result) \<Rightarrow> blob \<Rightarrow> ('k \<times> 'v) list \<Rightarrow> blob result" where
  "out_map serk serv out kvs =
    bindR (out_beginArray out (length kvs)) (\<lambda>out.
      out_items (\<lambda>out kv. bindR (serk out (fst kv)) (\<lambda>out. serv out (snd kv))) out kvs)"

definition in_map :: "(memory_input_stream \<Rightarrow> ('k \<times> memory_input_stream) result)
    \<Rightarrow> (memory_input_stream \<Rightarrow> ('v \<times> memory_input_stream) result) \<Rightarrow> ('k \<times> 'v) list
    \<Rightarrow> memory_input_stream \<Rightarrow> (('k \<times> 'v) list \<times> memory_input_stream) result" where
  "in_map desk desv value0 s =
    bindR (in_beginArray s) (\<lambda>(n, s).
      readSequence_loop (\<lambda>s. bindR (desk s) (\<lambda>(k, s). bindR (desv s) (\<lambda>(v, s). Inr ((k, v), s)))) map_insert n value0 s)"

section \<open>Block heights\<close>

definition out_serializeBlockHeight :: "blob \<Rightarrow> u32 \<Rightarrow> blob result" where
  "out_serializeBlockHeight out blockHeight = out_uint out blockHeight"

definition in_serializeBlockHeight :: "memory_input_stream \<Rightarrow> (u32 \<times> memory_input_stream) result" where
  "in_serializeBlockHeight s =
    bindR (in_uint s) (\<lambda>(height :: u64, s).
      if height = - 1 then Inr (- 1, s)
      else if 0xffffffff < height \<and> height < - 1 then Inl WrongValue
      else Inr (ucast height, s))"

definition out_serializeGlobalOutputIndex :: "blob \<Rightarrow> u32 \<Rightarrow> blob result" where
  "out_serializeGlobalOutputIndex out globalOutputIndex = out_serializeBlockHeight out globalOutputIndex"

definition in_serializeGlobalOutputIndex :: "memory_input_stream \<Rightarrow> (u32 \<times> memory_input_stream) result" where
  "in_serializeGlobalOutputIndex s = in_serializeBlockHeight s"

section \<open>Contracts\<close>

lemma readSequence_loop_items:
  "readSequence_loop des ins n c s = bindR (in_items des n s) (\<lambda>(xs, s). Inr (fold ins xs c, s))"
proof (induction n arbitrary: c s)
  case 0
  then show ?case by simp
next
  case (Suc n)
  show ?case
  proof (cases "des s")
    case (Inr r)
    with Suc [of "ins (fst r) c" "snd r"] show ?thesis
      by (cases r; cases "in_items des n (snd r)") (auto split: prod.splits)
  qed simp
qed

lemma writeSequence_container: "writeSequence ser out xs = out_container ser out xs"
  by (simp add: writeSequence_def out_container_def)

lemma readSequence_container:
  "readSequence des ins c s = bindR (in_container des s) (\<lambda>(xs, s). Inr (fold ins xs c, s))"
  by (cases "in_beginArray s") (auto simp: readSequence_def in_container_def readSequence_loop_items split: prod.splits)

lemma fold_set_insert: "distinct (acc @ xs) \<Longrightarrow> fold set_insert xs acc = acc @ xs"
  by (induction xs arbitrary: acc) (auto simp: set_insert_def)

lemma fold_map_insert: "distinct (map fst (acc @ xs)) \<Longrightarrow> fold map_insert xs acc = acc @ xs"
proof (induction xs arbitrary: acc)
  case (Cons x xs)
  then have "fst x \<notin> fst ` set acc" by auto
  with Cons show ?case by (simp add: map_insert_def)
qed simp

text \<open>A pair of codecs is a codec.\<close>

lemma pair_codec:
  assumes "codec ser1 des1 fmt1 ok1" and "codec ser2 des2 fmt2 ok2"
  shows "codec (out_pair ser1 ser2) (in_pair des1 des2) (\<lambda>p. fmt1 (fst p) @ fmt2 (snd p)) (\<lambda>p. ok1 (fst p) \<and> ok2 (snd p))"
proof
  fix out and x :: "'a \<times> 'b" assume "ok1 (fst x) \<and> ok2 (snd x)"
  then show "out_pair ser1 ser2 out x = Inr (out @ fmt1 (fst x) @ fmt2 (snd x))"
    by (simp add: out_pair_def codec.ser_fmt [OF assms(1)] codec.ser_fmt [OF assms(2)])
next
  fix s and x :: "'a \<times> 'b" assume "ok1 (fst x) \<and> ok2 (snd x)" "at_bytes s (fmt1 (fst x) @ fmt2 (snd x))"
  then show "in_pair des1 des2 s = Inr (x, advance s (length (fmt1 (fst x) @ fmt2 (snd x))))"
    by (auto simp: in_pair_def at_bytes_append codec.des_at [OF assms(1)] codec.des_at [OF assms(2)])
next
  fix s s' and x :: "'a \<times> 'b" assume "mis_ok s" "in_pair des1 des2 s = Inr (x, s')"
  then show "(ok1 (fst x) \<and> ok2 (snd x)) \<and> at_bytes s (fmt1 (fst x) @ fmt2 (snd x))
      \<and> s' = advance s (length (fmt1 (fst x) @ fmt2 (snd x)))"
    unfolding in_pair_def
    by (elim codec.bind_sound [OF assms(1)]) (auto elim!: codec.bind_sound [OF assms(2)] simp: at_bytes_append)
qed

lemma block_height_fmt: "out_serializeBlockHeight out h = Inr (out @ uint_fmt h)"
  by (simp add: out_serializeBlockHeight_def c32.ser_fmt)

lemma block_height_read:
  assumes "at_bytes s (uint_fmt h)"
  shows "in_serializeBlockHeight s = Inr (h, advance s (length (uint_fmt h)))"
proof -
  have u: "uint_fmt (ucast h :: u64) = uint_fmt h" using unat_u32_bound [of h] by (simp add: uint_fmt_def unat_ucast_eq)
  have b: "(ucast h :: u64) \<le> 0xffffffff" using unat_u32_bound [of h] by (simp add: word_le_nat_alt unat_ucast_eq)
  then have "(ucast h :: u64) \<noteq> - 1" by (auto simp: word_le_nat_alt unsigned_minus_1_eq_mask mask_eq_exp_minus_1)
  moreover have "ucast (ucast h :: u64) = h" by (intro bit_word_eqI) (simp add: bit_simps)
  ultimately show ?thesis
    using c64.des_at [of s "ucast h"] assms b unfolding u by (simp add: in_serializeBlockHeight_def not_less)
qed

end
