(* ===== verification/BlockIndex.thy ===== *)
theory BlockIndex
  imports SerializationOverloads OrbisSerialization
begin

text \<open>
  \<^verbatim>\<open>src/OrbisCore/BlockIndex.{h,cpp}\<close>: the hashes of the main chain in order, with a unique index from hash
  to height. The multi-index container is the list of its elements, without repetition; \<open>None\<close> stands
  for an access outside the container.
\<close>

record BlockIndex =
  m_container :: "Hash list"

definition empty_BlockIndex :: BlockIndex where
  "empty_BlockIndex = \<lparr>m_container = []\<rparr>"

definition pop :: "BlockIndex \<Rightarrow> BlockIndex option" where
  "pop b = (if m_container b = [] then None else Some (b\<lparr>m_container := butlast (m_container b)\<rparr>))"

text \<open>\<^verbatim>\<open>push_back\<close> on the container fails when the second index has the hash already.\<close>

definition push :: "BlockIndex \<Rightarrow> Hash \<Rightarrow> bool \<times> BlockIndex" where
  "push b h = (if h \<in> set (m_container b) then (False, b) else (True, b\<lparr>m_container := m_container b @ [h]\<rparr>))"

definition hasBlock :: "BlockIndex \<Rightarrow> Hash \<Rightarrow> bool" where
  "hasBlock b h \<longleftrightarrow> h \<in> set (m_container b)"

definition getBlockHeight :: "BlockIndex \<Rightarrow> Hash \<Rightarrow> u32 option" where
  "getBlockHeight b h =
    (if h \<notin> set (m_container b) then None else Some (of_nat (length (takeWhile (\<lambda>x. x \<noteq> h) (m_container b)))))"

definition blockIndex_size :: "BlockIndex \<Rightarrow> u32" where
  "blockIndex_size b = of_nat (length (m_container b))"

definition clear :: "BlockIndex \<Rightarrow> BlockIndex" where
  "clear b = b\<lparr>m_container := []\<rparr>"

definition getBlockId :: "BlockIndex \<Rightarrow> u32 \<Rightarrow> Hash option" where
  "getBlockId b height = (if unat height < length (m_container b) then Some (m_container b ! unat height) else None)"

definition getBlockIds :: "BlockIndex \<Rightarrow> u32 \<Rightarrow> u32 \<Rightarrow> Hash list" where
  "getBlockIds b startBlockIndex maxCount =
    (if length (m_container b) \<le> unat startBlockIndex then []
     else let count = min (unat maxCount) (length (m_container b) - unat startBlockIndex) in
       map (\<lambda>i. m_container b ! (unat startBlockIndex + i)) [0..<count])"

fun findSupplement :: "BlockIndex \<Rightarrow> Hash list \<Rightarrow> u32 option" where
  "findSupplement b [] = None"
| "findSupplement b (h # ids) = (case getBlockHeight b h of Some offset \<Rightarrow> Some offset | None \<Rightarrow> findSupplement b ids)"

text \<open>The loop of \<^verbatim>\<open>buildSparseChain\<close>; \<open>i\<close> starts at one and doubles.\<close>

function sparse_loop :: "Hash list \<Rightarrow> nat \<Rightarrow> nat \<Rightarrow> Hash list" where
  "sparse_loop container sparseChainEnd i =
    (if 0 < i \<and> i \<le> sparseChainEnd
     then container ! (sparseChainEnd - i) # sparse_loop container sparseChainEnd (i * 2) else [])"
  by pat_completeness auto
termination
  by (relation "measure (\<lambda>(_, e, i). Suc e - i)") auto

declare sparse_loop.simps [simp del]

definition buildSparseChain :: "BlockIndex \<Rightarrow> Hash \<Rightarrow> Hash list option" where
  "buildSparseChain b startBlockId =
    (case getBlockHeight b startBlockId of
       None \<Rightarrow> None
     | Some startBlockHeight \<Rightarrow>
         let sparseChainEnd = unat (startBlockHeight + 1);
             result = sparse_loop (m_container b) sparseChainEnd 1 in
         if result = [] then None
         else if last result \<noteq> m_container b ! 0 then Some (result @ [m_container b ! 0])
         else Some result)"

definition getTailId :: "BlockIndex \<Rightarrow> Hash option" where
  "getTailId b = (if m_container b = [] then None else Some (last (m_container b)))"

definition out_BlockIndex :: "blob \<Rightarrow> BlockIndex \<Rightarrow> blob result" where
  "out_BlockIndex out b = writeSequence out_pod out (m_container b)"

definition in_BlockIndex :: "BlockIndex \<Rightarrow> memory_input_stream \<Rightarrow> (BlockIndex \<times> memory_input_stream) result" where
  "in_BlockIndex b s = readSequence (in_pod 32) (\<lambda>h b. snd (push b h)) b s"

section \<open>Invariant and lookup\<close>

text \<open>No hash occurs twice, and heights fit into their type.\<close>

definition index_ok :: "BlockIndex \<Rightarrow> bool" where
  "index_ok b \<longleftrightarrow> distinct (m_container b) \<and> length (m_container b) < 2 ^ 32"

lemma push_ok: "index_ok b \<Longrightarrow> length (m_container b) + 1 < 2 ^ 32 \<Longrightarrow> push b h = (r, b') \<Longrightarrow>
   index_ok b' \<and> hasBlock b' h \<and> (r \<longleftrightarrow> \<not> hasBlock b h) \<and> (r \<longrightarrow> pop b' = Some b \<and> getTailId b' = Some h) \<and> (\<not> r \<longrightarrow> b' = b)"
  by (auto simp: push_def index_ok_def hasBlock_def pop_def getTailId_def split: if_splits)

lemma pop_ok: "index_ok b \<Longrightarrow> pop b = Some b' \<Longrightarrow> index_ok b'"
  by (auto simp: pop_def index_ok_def distinct_butlast split: if_splits)

lemma takeWhile_neq_nth: "distinct xs \<Longrightarrow> n < length xs \<Longrightarrow> length (takeWhile (\<lambda>x. x \<noteq> xs ! n) xs) = n"
proof -
  assume "distinct xs" "n < length xs"
  then have "takeWhile (\<lambda>x. x \<noteq> xs ! n) xs = take n xs"
    by (intro takeWhile_eq_take_P_nth) (auto simp: nth_eq_iff_index_eq)
  with \<open>n < length xs\<close> show ?thesis by simp
qed

lemma height_of_nth:
  assumes "index_ok b" and "n < length (m_container b)"
  shows "getBlockHeight b (m_container b ! n) = Some (of_nat n)"
  using assms takeWhile_neq_nth [of "m_container b" n] by (simp add: getBlockHeight_def index_ok_def)

lemma unat_height:
  assumes "index_ok b" and "n < length (m_container b)"
  shows "unat (of_nat n :: u32) = n"
  using assms by (simp add: index_ok_def unat_of_nat)

text \<open>Heights and hashes determine each other.\<close>

lemma height_iff_id:
  assumes "index_ok b"
  shows "getBlockHeight b h = Some n \<longleftrightarrow> getBlockId b n = Some h"
proof
  assume l: "getBlockHeight b h = Some n"
  then have "h \<in> set (m_container b)" by (auto simp: getBlockHeight_def split: if_splits)
  then obtain k where k: "k < length (m_container b)" "m_container b ! k = h" by (auto simp: in_set_conv_nth)
  with height_of_nth [OF assms k(1)] l have "n = of_nat k" by simp
  with k unat_height [OF assms k(1)] show "getBlockId b n = Some h" by (simp add: getBlockId_def)
next
  assume "getBlockId b n = Some h"
  then have "unat n < length (m_container b)" "h = m_container b ! unat n" by (auto simp: getBlockId_def split: if_splits)
  with height_of_nth [OF assms this(1)] show "getBlockHeight b h = Some n" by simp
qed

lemma getBlockIds_eq: "getBlockIds b start maxCount = take (unat maxCount) (drop (unat start) (m_container b))"
proof (cases "length (m_container b) \<le> unat start")
  case False
  then show ?thesis by (intro nth_equalityI) (auto simp: getBlockIds_def Let_def)
qed (simp add: getBlockIds_def)

lemma findSupplement_first:
  "findSupplement b ids = Some n \<Longrightarrow> \<exists>pre h post. ids = pre @ h # post \<and> getBlockHeight b h = Some n \<and> (\<forall>p \<in> set pre. \<not> hasBlock b p)"
proof (induction ids)
  case (Cons i ids)
  show ?case
  proof (cases "getBlockHeight b i")
    case None
    then have "\<not> hasBlock b i" by (auto simp: getBlockHeight_def hasBlock_def split: if_splits)
    moreover from Cons None obtain pre h post where
      "ids = pre @ h # post" "getBlockHeight b h = Some n" "\<forall>p \<in> set pre. \<not> hasBlock b p" by auto
    ultimately show ?thesis by (intro exI [of _ "i # pre"]) auto
  next
    case (Some m)
    with Cons.prems have "i # ids = [] @ i # ids \<and> getBlockHeight b i = Some n \<and> (\<forall>p \<in> set []. \<not> hasBlock b p)" by simp
    then show ?thesis by blast
  qed
qed simp

lemma findSupplement_total: "(\<exists>n. findSupplement b ids = Some n) \<longleftrightarrow> (\<exists>h \<in> set ids. hasBlock b h)"
  by (induction ids) (auto simp: getBlockHeight_def hasBlock_def split: option.splits if_splits)

section \<open>Sparse chains\<close>

lemma sparse_loop_eq:
  "0 < i \<Longrightarrow> sparse_loop c e i = map (\<lambda>k. c ! (e - i * 2 ^ k)) (filter (\<lambda>k. i * 2 ^ k \<le> e) [0..<Suc e])"
proof (induction c e i rule: sparse_loop.induct)
  case (1 c e i)
  show ?case
  proof (cases "i \<le> e")
    case True
    have f: "filter (\<lambda>k. i * 2 ^ k \<le> e) [0..<Suc e] = 0 # map Suc (filter (\<lambda>k. i * 2 * 2 ^ k \<le> e) [0..<Suc e])"
    proof -
      have "2 ^ e \<le> i * 2 * 2 ^ e" using "1.prems" by simp
      with less_exp [of e] have l: "e < i * 2 * 2 ^ e" by (rule less_le_trans)
      have "[0..<Suc e] = 0 # map Suc [0..<e]" by (simp add: upt_conv_Cons map_Suc_upt del: upt_Suc)
      then have "filter (\<lambda>k. i * 2 ^ k \<le> e) [0..<Suc e] = 0 # map Suc (filter (\<lambda>k. i * 2 * 2 ^ k \<le> e) [0..<e])"
        using True by (simp add: filter_map comp_def mult.assoc)
      also have "filter (\<lambda>k. i * 2 * 2 ^ k \<le> e) [0..<e] = filter (\<lambda>k. i * 2 * 2 ^ k \<le> e) [0..<Suc e]" using l by simp
      finally show ?thesis .
    qed
    show ?thesis unfolding f using "1.IH" True "1.prems" by (simp add: sparse_loop.simps [of c e i] mult.assoc)
  next
    case False
    then have "\<not> i * 2 ^ k \<le> e" for k by (metis le_trans mult.commute mult_le_mono1 nat_mult_1 one_le_numeral one_le_power)
    with False show ?thesis by (simp add: sparse_loop.simps [of c e i] del: upt_Suc)
  qed
qed

lemma sparse_loop_Cons: "0 < e \<Longrightarrow> sparse_loop c e 1 = c ! (e - 1) # sparse_loop c e 2"
  by (subst sparse_loop.simps) simp

text \<open>
  The sparse chain from a block of the index: it starts with that block, has only blocks of the chain
  up to it, at distances that double, and ends with the first block of the chain.
\<close>

lemma sparse_chain:
  assumes ok: "index_ok b" and n: "n < length (m_container b)"
  shows "\<exists>chain. buildSparseChain b (m_container b ! n) = Some chain \<and> hd chain = m_container b ! n
    \<and> last chain = m_container b ! 0 \<and> set chain \<subseteq> set (take (Suc n) (m_container b))
    \<and> (\<forall>k. 2 ^ k \<le> n + 1 \<longrightarrow> m_container b ! (n + 1 - 2 ^ k) \<in> set chain)"
proof -
  let ?c = "m_container b" and ?r = "sparse_loop (m_container b) (n + 1) 1"
  have e: "unat ((of_nat n :: u32) + 1) = n + 1"
  proof -
    have "unat (of_nat (n + 1) :: u32) = n + 1" using ok n by (simp add: index_ok_def unat_of_nat del: of_nat_add of_nat_Suc)
    then show ?thesis by (simp add: add.commute)
  qed
  have r: "?r = ?c ! n # sparse_loop ?c (n + 1) 2" using sparse_loop_Cons [of "n + 1" ?c] by simp
  let ?chain = "if last ?r \<noteq> ?c ! 0 then ?r @ [?c ! 0] else ?r"
  have b: "buildSparseChain b (?c ! n) = Some ?chain"
    using height_of_nth [OF ok n] e r by (simp add: buildSparseChain_def Let_def)
  have hl: "hd ?chain = ?c ! n" "last ?chain = ?c ! 0" using r by auto
  have s: "set ?r = {?c ! (n + 1 - 2 ^ k) | k. 2 ^ k \<le> n + 1}"
  proof -
    have "k < Suc (n + 1)" if "2 ^ k \<le> n + 1" for k using that less_exp [of k] by linarith
    then show ?thesis by (auto simp: sparse_loop_eq simp del: upt_Suc)
  qed
  have "?c ! k \<in> set (take (Suc n) ?c)" if "k \<le> n" for k using that n by (auto simp: in_set_conv_nth intro!: exI [of _ k])
  moreover have "n + 1 - 2 ^ k \<le> n" for k :: nat using one_le_power [of "2 :: nat" k] by linarith
  ultimately have "set ?r \<subseteq> set (take (Suc n) ?c)" "?c ! 0 \<in> set (take (Suc n) ?c)" unfolding s by auto
  moreover have "\<forall>k. 2 ^ k \<le> n + 1 \<longrightarrow> ?c ! (n + 1 - 2 ^ k) \<in> set ?chain" using s by auto
  ultimately show ?thesis using b hl by (intro exI [of _ ?chain]) auto
qed

text \<open>
  Two nodes that agree on the first block find a common block: the sparse chain that one sends has
  a hash that the other knows, and the offset found is the height of a block on both chains.
\<close>

lemma supplement_common:
  assumes ok: "index_ok b" "index_ok remote" and n: "n < length (m_container remote)"
    and genesis: "m_container b \<noteq> []" "m_container b ! 0 = m_container remote ! 0"
  shows "\<exists>chain offset h. buildSparseChain remote (m_container remote ! n) = Some chain \<and> findSupplement b chain = Some offset
    \<and> getBlockId b offset = Some h \<and> hasBlock remote h"
proof -
  from sparse_chain [OF ok(2) n] obtain chain where c: "buildSparseChain remote (m_container remote ! n) = Some chain"
      "hd chain = m_container remote ! n" "last chain = m_container remote ! 0" "set chain \<subseteq> set (take (Suc n) (m_container remote))"
    by blast
  have "chain \<noteq> []" using c(1) by (auto simp: buildSparseChain_def Let_def split: option.splits if_splits)
  then have "last chain \<in> set chain" by simp
  moreover have "hasBlock b (last chain)" using genesis c(3) by (simp add: hasBlock_def flip: genesis(2))
  ultimately obtain off where f: "findSupplement b chain = Some off" using findSupplement_total [of b chain] by blast
  from findSupplement_first [OF f] obtain h where h: "h \<in> set chain" "getBlockHeight b h = Some off"
    by (metis in_set_conv_decomp)
  with height_iff_id [OF ok(1)] c(4) have "getBlockId b off = Some h" "hasBlock remote h"
    by (auto simp: hasBlock_def dest: in_set_takeD)
  with c(1) f show ?thesis by blast
qed

section \<open>Storage\<close>

lemma fold_push:
  "distinct (m_container b @ hs) \<Longrightarrow> fold (\<lambda>h b. snd (push b h)) hs b = b\<lparr>m_container := m_container b @ hs\<rparr>"
  by (induction hs arbitrary: b) (auto simp: push_def)

lemma blockIndex_roundtrip:
  assumes ok: "index_ok b" and hashes: "\<forall>h \<in> set (m_container b). length h = 32"
  shows "\<exists>bytes. out_BlockIndex [] b = Inr bytes
    \<and> in_BlockIndex empty_BlockIndex (MemoryInputStream bytes) = Inr (b, advance (MemoryInputStream bytes) (length bytes))"
proof -
  have l: "list_ok (\<lambda>bs. length bs = 32) (m_container b)" using assms by (simp add: list_ok_def list_all_iff index_ok_def)
  let ?bytes = "list_fmt (\<lambda>bs. bs) (m_container b)" and ?s = "MemoryInputStream (list_fmt (\<lambda>bs. bs) (m_container b))"
  have "out_BlockIndex [] b = Inr ?bytes" using hashes.ser_fmt [OF l, of "[]"] by (simp add: out_BlockIndex_def writeSequence_container)
  moreover have "in_container (in_pod 32) ?s = Inr (m_container b, advance ?s (length ?bytes))"
    by (rule hashes.des_fmt [OF l hashes.at_memory])
  then have "in_BlockIndex empty_BlockIndex ?s = Inr (b, advance ?s (length ?bytes))"
    using fold_push [of empty_BlockIndex "m_container b"] ok
    by (simp add: in_BlockIndex_def readSequence_container empty_BlockIndex_def index_ok_def)
  ultimately show ?thesis by blast
qed

end
