(* ===== verification/BlockchainIndices.thy ===== *)
theory BlockchainIndices
  imports OrbisFormatUtils SerializationOverloads
begin

text \<open>
  \<^verbatim>\<open>src/OrbisCore/BlockchainIndices.{h,cpp}\<close>: the indices by payment id, by time, by height and of orphaned
  blocks, and the number of transactions up to a height. A multimap is the list of its entries, in the
  order of its keys where the container is ordered. The four multimaps share the contract \<open>entry_index\<close>;
  the number of transactions is a refinement of the list of the blocks' transaction counts.
\<close>

section \<open>Multimaps\<close>

text \<open>\<^verbatim>\<open>emplace\<close> of \<^verbatim>\<open>std::multimap\<close> puts an entry behind the entries with the same key.\<close>

definition multimap_emplace :: "'k::linorder \<Rightarrow> 'v \<Rightarrow> ('k \<times> 'v) list \<Rightarrow> ('k \<times> 'v) list" where
  "multimap_emplace k v xs = takeWhile (\<lambda>p. fst p \<le> k) xs @ (k, v) # dropWhile (\<lambda>p. fst p \<le> k) xs"

text \<open>The search through \<^verbatim>\<open>equal_range\<close> for an entry with a given value, which is erased.\<close>

fun erase_entry :: "'k \<Rightarrow> 'v \<Rightarrow> ('k \<times> 'v) list \<Rightarrow> bool \<times> ('k \<times> 'v) list" where
  "erase_entry k v [] = (False, [])"
| "erase_entry k v (p # ps) =
    (if fst p = k \<and> snd p = v then (True, ps) else let (r, ps) = erase_entry k v ps in (r, p # ps))"

fun equal_range :: "'k \<Rightarrow> ('k \<times> 'v) list \<Rightarrow> 'v list" where
  "equal_range k [] = []"
| "equal_range k (p # ps) = (if fst p = k then snd p # equal_range k ps else equal_range k ps)"

section \<open>Payment ids\<close>

text \<open>\<^verbatim>\<open>BlockchainExplorerDataBuilder::getPaymentId\<close>; the result of the parser is ignored.\<close>

definition getPaymentId :: "Transaction \<Rightarrow> Hash option" where
  "getPaymentId transaction =
    (case find_nonce (snd (parseTransactionExtra (extra transaction))) of
       None \<Rightarrow> None
     | Some extraNonce \<Rightarrow> getPaymentIdFromTransactionExtraNonce extraNonce)"

record PaymentIdIndex =
  pi_index :: "(Hash \<times> Hash) list"

definition payment_add :: "Transaction \<Rightarrow> PaymentIdIndex \<Rightarrow> bool \<times> PaymentIdIndex" where
  "payment_add transaction i =
    (let transactionHash = getObjectHash_value out_Transaction transaction in
     case getPaymentId transaction of
       None \<Rightarrow> (False, i)
     | Some paymentId \<Rightarrow> (True, i\<lparr>pi_index := pi_index i @ [(paymentId, transactionHash)]\<rparr>))"

definition payment_remove :: "Transaction \<Rightarrow> PaymentIdIndex \<Rightarrow> bool \<times> PaymentIdIndex" where
  "payment_remove transaction i =
    (let transactionHash = getObjectHash_value out_Transaction transaction in
     case getPaymentId transaction of
       None \<Rightarrow> (False, i)
     | Some paymentId \<Rightarrow> let (r, es) = erase_entry paymentId transactionHash (pi_index i) in (r, i\<lparr>pi_index := es\<rparr>))"

definition payment_find :: "Hash \<Rightarrow> PaymentIdIndex \<Rightarrow> Hash list \<Rightarrow> bool \<times> Hash list" where
  "payment_find paymentId i hashes =
    (let range = equal_range paymentId (pi_index i) in (range \<noteq> [], hashes @ range))"

definition payment_clear :: "PaymentIdIndex \<Rightarrow> PaymentIdIndex" where
  "payment_clear i = i\<lparr>pi_index := []\<rparr>"

section \<open>Timestamps\<close>

text \<open>
  \<^verbatim>\<open>TimestampBlocksIndex\<close> and \<^verbatim>\<open>TimestampTransactionsIndex\<close> have the same code but for the types of the limit
  and of the count.
\<close>

record TimestampIndex =
  ti_index :: "(u64 \<times> Hash) list"

definition timestamp_add :: "u64 \<Rightarrow> Hash \<Rightarrow> TimestampIndex \<Rightarrow> bool \<times> TimestampIndex" where
  "timestamp_add t hash i = (True, i\<lparr>ti_index := multimap_emplace t hash (ti_index i)\<rparr>)"

definition timestamp_remove :: "u64 \<Rightarrow> Hash \<Rightarrow> TimestampIndex \<Rightarrow> bool \<times> TimestampIndex" where
  "timestamp_remove t hash i = (let (r, es) = erase_entry t hash (ti_index i) in (r, i\<lparr>ti_index := es\<rparr>))"

definition timestamp_range :: "u64 \<Rightarrow> u64 \<Rightarrow> TimestampIndex \<Rightarrow> (u64 \<times> Hash) list" where
  "timestamp_range timestampBegin timestampEnd i =
    takeWhile (\<lambda>p. fst p \<le> timestampEnd) (dropWhile (\<lambda>p. fst p < timestampBegin) (ti_index i))"

text \<open>The result is the returned value, the hashes, and the number of hashes within the times where it is set.\<close>

definition timestamp_blocks_find :: "u64 \<Rightarrow> u64 \<Rightarrow> u32 \<Rightarrow> TimestampIndex \<Rightarrow> Hash list \<Rightarrow> bool \<times> Hash list \<times> u32 option" where
  "timestamp_blocks_find timestampBegin timestampEnd hashesNumberLimit i hashes =
    (if timestampEnd < timestampBegin then (False, hashes, None)
     else let range = timestamp_range timestampBegin timestampEnd i;
              found = map snd (take (unat hashesNumberLimit) range)
          in (found \<noteq> [], hashes @ found, Some (of_nat (length range))))"

definition timestamp_transactions_find :: "u64 \<Rightarrow> u64 \<Rightarrow> u64 \<Rightarrow> TimestampIndex \<Rightarrow> Hash list \<Rightarrow> bool \<times> Hash list \<times> u64 option" where
  "timestamp_transactions_find timestampBegin timestampEnd hashesNumberLimit i hashes =
    (if timestampEnd < timestampBegin then (False, hashes, None)
     else let range = timestamp_range timestampBegin timestampEnd i;
              found = map snd (take (unat hashesNumberLimit) range)
          in (found \<noteq> [], hashes @ found, Some (ucast (of_nat (length range) :: u32))))"

definition timestamp_clear :: "TimestampIndex \<Rightarrow> TimestampIndex" where
  "timestamp_clear i = i\<lparr>ti_index := []\<rparr>"

section \<open>Number of transactions\<close>

text \<open>\<^verbatim>\<open>boost::get<BaseInput>(inputs.front()).blockIndex\<close>; \<open>None\<close> where this throws or there is no input.\<close>

definition base_height :: "Block \<Rightarrow> u32 option" where
  "base_height block =
    (case inputs (baseTransaction block) of VBaseInput i # _ \<Rightarrow> Some (blockIndex i) | _ \<Rightarrow> None)"

record GeneratedTransactionsIndex =
  gt_index :: "(u32 \<times> u64) list"
  lastGeneratedTxNumber :: u64

definition empty_GeneratedTransactionsIndex :: GeneratedTransactionsIndex where
  "empty_GeneratedTransactionsIndex = \<lparr>gt_index = [], lastGeneratedTxNumber = 0\<rparr>"

definition generated_add :: "Block \<Rightarrow> GeneratedTransactionsIndex \<Rightarrow> (bool \<times> GeneratedTransactionsIndex) option" where
  "generated_add block i =
    (case base_height block of
       None \<Rightarrow> None
     | Some blockHeight \<Rightarrow>
         if length (gt_index i) \<noteq> unat blockHeight then Some (False, i)
         else if blockHeight \<in> fst ` set (gt_index i) then Some (False, i)
         else let n = lastGeneratedTxNumber i + (of_nat (length (transactionHashes block)) + 1) in
           Some (True, i\<lparr>gt_index := gt_index i @ [(blockHeight, n)], lastGeneratedTxNumber := n\<rparr>))"

definition generated_remove :: "Block \<Rightarrow> GeneratedTransactionsIndex \<Rightarrow> (bool \<times> GeneratedTransactionsIndex) option" where
  "generated_remove block i =
    (case base_height block of
       None \<Rightarrow> None
     | Some blockHeight \<Rightarrow>
         if gt_index i = [] \<or> unat blockHeight \<noteq> length (gt_index i) - 1 then Some (False, i)
         else let es = filter (\<lambda>p. fst p \<noteq> blockHeight) (gt_index i) in
           if blockHeight \<noteq> 0
           then (case map_of es (blockHeight - 1) of
               None \<Rightarrow> None
             | Some n \<Rightarrow> Some (True, i\<lparr>gt_index := es, lastGeneratedTxNumber := n\<rparr>))
           else Some (True, i\<lparr>gt_index := es, lastGeneratedTxNumber := 0\<rparr>))"

definition generated_find :: "u32 \<Rightarrow> GeneratedTransactionsIndex \<Rightarrow> u64 option" where
  "generated_find height i = map_of (gt_index i) height"

definition generated_clear :: "GeneratedTransactionsIndex \<Rightarrow> GeneratedTransactionsIndex" where
  "generated_clear i = i\<lparr>gt_index := []\<rparr>"

section \<open>Orphaned blocks\<close>

record OrphanBlocksIndex =
  ob_index :: "(u32 \<times> Hash) list"

definition orphan_add :: "Block \<Rightarrow> OrphanBlocksIndex \<Rightarrow> (bool \<times> OrphanBlocksIndex) option" where
  "orphan_add block i =
    (case base_height block of
       None \<Rightarrow> None
     | Some blockHeight \<Rightarrow> Some (True, i\<lparr>ob_index := ob_index i @ [(blockHeight, snd (get_block_hash block))]\<rparr>))"

definition orphan_remove :: "Block \<Rightarrow> OrphanBlocksIndex \<Rightarrow> (bool \<times> OrphanBlocksIndex) option" where
  "orphan_remove block i =
    (case base_height block of
       None \<Rightarrow> None
     | Some blockHeight \<Rightarrow>
         let (r, es) = erase_entry blockHeight (snd (get_block_hash block)) (ob_index i) in Some (r, i\<lparr>ob_index := es\<rparr>))"

definition orphan_find :: "u32 \<Rightarrow> OrphanBlocksIndex \<Rightarrow> Hash list \<Rightarrow> bool \<times> Hash list" where
  "orphan_find height i blockHashes =
    (let range = equal_range height (ob_index i) in (range \<noteq> [], blockHashes @ range))"

definition orphan_clear :: "OrphanBlocksIndex \<Rightarrow> OrphanBlocksIndex" where
  "orphan_clear i = i\<lparr>ob_index := []\<rparr>"

section \<open>The contract of an index\<close>

text \<open>
  An index stands for a multiset of entries. \<open>entry\<close> is the entry that an item (a transaction, a block,
  a time and a hash) has, if it has one.
\<close>

locale entry_index =
  fixes add remove :: "'item \<Rightarrow> 'idx \<Rightarrow> bool \<times> 'idx"
    and entry :: "'item \<Rightarrow> ('k \<times> 'v) option"
    and entries :: "'idx \<Rightarrow> ('k \<times> 'v) multiset"
    and hits :: "'k \<Rightarrow> 'idx \<Rightarrow> 'v list"
  assumes add_entry: "entry x = Some e \<Longrightarrow> fst (add x i) \<and> entries (snd (add x i)) = add_mset e (entries i)"
    and add_none: "entry x = None \<Longrightarrow> add x i = (False, i)"
    and remove_entry: "entry x = Some e \<Longrightarrow>
      (fst (remove x i) \<longleftrightarrow> e \<in># entries i) \<and> entries (snd (remove x i)) = entries i - {#e#}"
    and remove_none: "entry x = None \<Longrightarrow> remove x i = (False, i)"
    and hits_entries: "mset (hits k i) = image_mset snd {#e \<in># entries i. fst e = k#}"
begin

lemma add_remove: "entries (snd (remove x (snd (add x i)))) = entries i"
  by (cases "entry x") (auto simp: add_none remove_none add_entry remove_entry)

lemma found_after_add:
  assumes "entry x = Some (k, v)"
  shows "v \<in> set (hits k (snd (add x i)))"
proof -
  have "v \<in># mset (hits k (snd (add x i)))" unfolding hits_entries using add_entry [OF assms, of i] by force
  then show ?thesis by simp
qed

lemma hits_iff: "v \<in> set (hits k i) \<longleftrightarrow> (k, v) \<in># entries i"
proof -
  have "v \<in> set (hits k i) \<longleftrightarrow> v \<in># mset (hits k i)" by simp
  then show ?thesis unfolding hits_entries by force
qed

text \<open>Items that are added and later removed in any order leave the entries as they were.\<close>

lemma entries_fold_add:
  "entries (fold (\<lambda>x i. snd (add x i)) xs i) = entries i + mset (List.map_filter entry xs)"
proof (induction xs arbitrary: i)
  case (Cons x xs)
  then show ?case by (cases "entry x") (auto simp: map_filter_simps add_none add_entry)
qed (simp add: map_filter_simps)

lemma entries_fold_remove:
  "entries (fold (\<lambda>x i. snd (remove x i)) xs i) = entries i - mset (List.map_filter entry xs)"
proof (induction xs arbitrary: i)
  case (Cons x xs)
  then show ?case by (cases "entry x") (auto simp: map_filter_simps remove_none remove_entry)
qed (simp add: map_filter_simps)

lemma undo_any_order:
  assumes "mset ys = mset xs"
  shows "entries (fold (\<lambda>x i. snd (remove x i)) ys (fold (\<lambda>x i. snd (add x i)) xs i)) = entries i"
proof -
  have "mset (List.map_filter entry ys) = mset (List.map_filter entry xs)"
    using assms by (simp add: map_filter_def)
  then show ?thesis by (simp add: entries_fold_add entries_fold_remove)
qed

end

lemma erase_entry_found [simp]: "fst (erase_entry k v es) \<longleftrightarrow> (k, v) \<in> set es"
  by (induction es) (auto simp: split_beta Let_def)

lemma erase_entry_mset [simp]: "mset (snd (erase_entry k v es)) = mset es - {#(k, v)#}"
  by (induction es) (auto simp: split_beta Let_def)

lemma equal_range_mset: "mset (equal_range k es) = image_mset snd {#e \<in># mset es. fst e = k#}"
  by (induction es) auto

lemma multimap_emplace_mset: "mset (multimap_emplace k v es) = add_mset (k, v) (mset es)"
  by (simp add: multimap_emplace_def) (metis mset_append takeWhile_dropWhile_id)

interpretation pay: entry_index payment_add payment_remove
    "\<lambda>t. map_option (\<lambda>p. (p, getObjectHash_value out_Transaction t)) (getPaymentId t)"
    "\<lambda>i. mset (pi_index i)" "\<lambda>k i. snd (payment_find k i [])"
  by unfold_locales (auto simp: payment_add_def payment_remove_def payment_find_def equal_range_mset Let_def split_beta
      split: option.splits)

interpretation time: entry_index "\<lambda>(t, h). timestamp_add t h" "\<lambda>(t, h). timestamp_remove t h" Some
    "\<lambda>i. mset (ti_index i)" "\<lambda>k i. equal_range k (ti_index i)"
  by unfold_locales (auto simp: timestamp_add_def timestamp_remove_def multimap_emplace_mset equal_range_mset Let_def split_beta)

text \<open>Blocks whose first input is no base input have no entry; the code throws on them.\<close>

interpretation orphan: entry_index "\<lambda>b i. case orphan_add b i of None \<Rightarrow> (False, i) | Some r \<Rightarrow> r"
    "\<lambda>b i. case orphan_remove b i of None \<Rightarrow> (False, i) | Some r \<Rightarrow> r"
    "\<lambda>b. map_option (\<lambda>h. (h, snd (get_block_hash b))) (base_height b)"
    "\<lambda>i. mset (ob_index i)" "\<lambda>k i. snd (orphan_find k i [])"
  by unfold_locales (auto simp: orphan_add_def orphan_remove_def orphan_find_def equal_range_mset Let_def split_beta
      split: option.splits)

section \<open>Time ranges\<close>

definition timestamps_ok :: "TimestampIndex \<Rightarrow> bool" where
  "timestamps_ok i \<longleftrightarrow> sorted (map fst (ti_index i))"

lemma multimap_emplace_sorted: "sorted (map fst es) \<Longrightarrow> sorted (map fst (multimap_emplace k v es))"
proof -
  assume s: "sorted (map fst es)"
  let ?t = "takeWhile (\<lambda>p. fst p \<le> k) es" and ?d = "dropWhile (\<lambda>p. fst p \<le> k) es"
  have "sorted (map fst ?t @ map fst ?d)" using s by (simp flip: map_append)
  then have td: "sorted (map fst ?t)" "sorted (map fst ?d)" by (auto simp: sorted_append)
  have t: "\<forall>p \<in> set ?t. fst p \<le> k" by (auto dest: set_takeWhileD)
  have d: "\<forall>p \<in> set ?d. k \<le> fst p"
  proof (cases ?d)
    case (Cons q qs)
    then have "k < fst q" using hd_dropWhile [of "\<lambda>p. fst p \<le> k" es] by (simp add: not_le)
    then show ?thesis using td(2) Cons by (auto intro: order_trans less_imp_le)
  next
    case Nil
    then show ?thesis by (simp only: Nil list.set ball_empty)
  qed
  show ?thesis using td t d by (auto simp: multimap_emplace_def sorted_append intro: order_trans)
qed

lemma erase_entry_set: "set (snd (erase_entry k v es)) \<subseteq> set es"
  by (induction es) (auto simp: split_beta Let_def)

lemma erase_entry_sorted: "sorted (map fst es) \<Longrightarrow> sorted (map fst (snd (erase_entry k v es)))"
  by (induction es) (auto simp: split_beta Let_def dest: subsetD [OF erase_entry_set])

lemma timestamp_add_ok: "timestamps_ok i \<Longrightarrow> timestamps_ok (snd (timestamp_add t h i))"
  by (simp add: timestamps_ok_def timestamp_add_def multimap_emplace_sorted)

lemma timestamp_remove_ok: "timestamps_ok i \<Longrightarrow> timestamps_ok (snd (timestamp_remove t h i))"
  by (simp add: timestamps_ok_def timestamp_remove_def erase_entry_sorted Let_def split_beta)

lemma sorted_range:
  "sorted (map fst es) \<Longrightarrow> takeWhile (\<lambda>p. fst p \<le> b) (dropWhile (\<lambda>p. fst p < a) es) = filter (\<lambda>p. a \<le> fst p \<and> fst p \<le> b) es"
  for a b :: "'k::linorder"
proof (induction es)
  case (Cons p es)
  show ?case
  proof (cases "fst p < a")
    case False
    have "takeWhile (\<lambda>p. fst p \<le> b) (p # es) = filter (\<lambda>p. a \<le> fst p \<and> fst p \<le> b) (p # es)"
    proof (cases "fst p \<le> b")
      case True
      have "dropWhile (\<lambda>q. fst q < a) es = es" using Cons.prems False by (cases es) (auto intro: dropWhile_eq_self_iff [THEN iffD2])
      with Cons True False show ?thesis by simp
    next
      case F: False
      then have "filter (\<lambda>p. a \<le> fst p \<and> fst p \<le> b) es = []" using Cons.prems by (auto simp: filter_empty_conv)
      with F show ?thesis by simp
    qed
    with False show ?thesis by simp
  next
    case True
    then have "\<not> a \<le> fst p" by simp
    with Cons True show ?thesis by simp
  qed
qed simp

text \<open>
  A search by time gives the hashes with a time in the closed interval, in the order of time, at most
  as many as asked for, and counts all of them.
\<close>

lemma timestamp_find:
  assumes "timestamps_ok i" and "b \<le> e"
  shows "timestamp_blocks_find b e limit i hashes =
    (let hs = filter (\<lambda>p. b \<le> fst p \<and> fst p \<le> e) (ti_index i)
     in (hs \<noteq> [] \<and> limit \<noteq> 0, hashes @ map snd (take (unat limit) hs), Some (of_nat (length hs))))"
  using assms sorted_range [of "ti_index i" e b]
  by (auto simp: timestamp_blocks_find_def timestamp_range_def timestamps_ok_def Let_def unat_gt_0)

section \<open>The number of transactions refines the list of counts\<close>

text \<open>\<open>counts\<close> are the numbers of transactions of the blocks of the chain, without the coinbase transaction.\<close>

definition generated_total :: "nat list \<Rightarrow> u64" where
  "generated_total counts = of_nat (sum_list (map Suc counts))"

definition generated_rel :: "nat list \<Rightarrow> GeneratedTransactionsIndex \<Rightarrow> bool" where
  "generated_rel counts i \<longleftrightarrow> length counts < 2 ^ 32
    \<and> gt_index i = map (\<lambda>h. (of_nat h, generated_total (take (Suc h) counts))) [0..<length counts]
    \<and> lastGeneratedTxNumber i = generated_total counts"

lemma unat_u32_of_nat: "n < 2 ^ 32 \<Longrightarrow> unat (of_nat n :: u32) = n"
  by (simp add: unat_of_nat)

lemma of_nat_u32_inj: "a < 2 ^ 32 \<Longrightarrow> b < 2 ^ 32 \<Longrightarrow> of_nat a = (of_nat b :: u32) \<longleftrightarrow> a = b"
  by (metis unat_u32_of_nat)

lemma generated_empty: "generated_rel [] empty_GeneratedTransactionsIndex"
  by (simp add: generated_rel_def empty_GeneratedTransactionsIndex_def generated_total_def)

lemma map_of_heights:
  assumes "n < 2 ^ 32"
  shows "map_of (map (\<lambda>h. (of_nat h :: u32, f h)) [0..<n]) k = (if unat k < n then Some (f (unat k)) else None)"
proof -
  have inj: "inj_on (\<lambda>h. of_nat h :: u32) {0..<n}" using assms by (auto simp: inj_on_def of_nat_u32_inj)
  have "distinct (map fst (map (\<lambda>h. (of_nat h :: u32, f h)) [0..<n]))"
    using inj by (simp add: comp_def distinct_map)
  moreover have "(k, f (unat k)) \<in> set (map (\<lambda>h. (of_nat h :: u32, f h)) [0..<n])" if "unat k < n"
    using that by (force intro: image_eqI [of _ _ "unat k"])
  moreover have "k \<notin> fst ` set (map (\<lambda>h. (of_nat h :: u32, f h)) [0..<n])" if "\<not> unat k < n"
    using that assms by (auto simp: unat_u32_of_nat)
  ultimately show ?thesis by (auto simp: map_of_eq_None_iff)
qed

lemma generated_find_rel:
  "generated_rel counts i \<Longrightarrow>
   generated_find h i = (if unat h < length counts then Some (generated_total (take (Suc (unat h)) counts)) else None)"
  by (simp add: generated_find_def generated_rel_def map_of_heights)

lemma generated_add_rel:
  assumes rel: "generated_rel counts i" and h: "base_height b = Some h" and len: "length counts + 1 < 2 ^ 32"
  shows "if unat h = length counts
    then \<exists>i'. generated_add b i = Some (True, i') \<and> generated_rel (counts @ [length (transactionHashes b)]) i'
    else generated_add b i = Some (False, i)"
proof (cases "unat h = length counts")
  case True
  have l: "length (gt_index i) = length counts" using rel by (simp add: generated_rel_def)
  have "map_of (gt_index i) h = None" using generated_find_rel [OF rel, of h] True by (simp add: generated_find_def)
  then have n: "h \<notin> fst ` set (gt_index i)" by (simp add: map_of_eq_None_iff)
  have t: "generated_total (counts @ [k]) = generated_total counts + (of_nat k + 1)" for k by (simp add: generated_total_def)
  have "h = of_nat (length counts)" using True len unat_u32_of_nat [of "length counts"] by (simp add: word_unat_eq_iff)
  then show ?thesis using True h l n rel len
    by (auto simp: generated_add_def generated_rel_def t Let_def)
next
  case False
  moreover have "length (gt_index i) = length counts" using rel by (simp add: generated_rel_def)
  ultimately show ?thesis using h by (simp add: generated_add_def)
qed

lemma generated_remove_rel:
  assumes rel: "generated_rel counts i" and h: "base_height b = Some h"
  shows "if counts \<noteq> [] \<and> unat h = length counts - 1
    then \<exists>i'. generated_remove b i = Some (True, i') \<and> generated_rel (butlast counts) i'
    else generated_remove b i = Some (False, i)"
proof (cases "counts \<noteq> [] \<and> unat h = length counts - 1")
  case True
  define n where "n = length counts - 1"
  define es where "es = filter (\<lambda>p. fst p \<noteq> h) (gt_index i)"
  have len: "length counts < 2 ^ 32" "length counts = Suc n" using rel True by (auto simp: generated_rel_def n_def)
  have un: "unat h = n" using True by (simp add: n_def)
  have hn: "h = of_nat n" using un len unat_u32_of_nat [of n] by (simp add: word_unat_eq_iff)
  have u: "[0..<length counts] = [0..<n] @ [n]" using len(2) by (metis upt_Suc_append zero_le)
  have "filter (\<lambda>k. of_nat k \<noteq> h) [0..<n] = [0..<n]"
    using len of_nat_u32_inj [of _ n] unfolding hn by (auto simp: filter_id_conv)
  then have es: "es = map (\<lambda>k. (of_nat k, generated_total (take (Suc k) counts))) [0..<n]"
    using rel hn u by (simp add: es_def generated_rel_def filter_map comp_def)
  have tk: "take (Suc k) counts = take (Suc k) (butlast counts)" if "k < n" for k
    using that len(2) by (simp add: butlast_conv_take min_def)
  have es': "es = map (\<lambda>k. (of_nat k, generated_total (take (Suc k) (butlast counts)))) [0..<length (butlast counts)]"
    unfolding es using tk len(2) by simp
  have l: "gt_index i \<noteq> []" "length (gt_index i) = length counts" using rel True by (auto simp: generated_rel_def)
  show ?thesis
  proof (cases "h = 0")
    case z: True
    then have "n = 0" using un by simp
    then have "butlast counts = []" using len(2) by (cases counts) auto
    moreover from this es' have "filter (\<lambda>p. fst p \<noteq> 0) (gt_index i) = []" using z by (simp add: es_def)
    ultimately show ?thesis using True h l z len
      by (simp add: generated_remove_def Let_def generated_rel_def generated_total_def)
  next
    case nz: False
    then have n0: "0 < n" using un by (metis gr0I unat_eq_zero)
    have p: "unat (h - 1) = n - 1" using nz un by (simp add: unat_minus_one)
    have "map_of es (h - 1) = Some (generated_total (take (Suc (n - 1)) (butlast counts)))"
    proof -
      have "length (butlast counts) < 2 ^ 32" "unat (h - 1) < length (butlast counts)" using p n0 len by simp_all
      then show ?thesis unfolding es' map_of_heights [OF \<open>length (butlast counts) < 2 ^ 32\<close>] p by simp
    qed
    moreover have "take (Suc (n - 1)) (butlast counts) = butlast counts" using n0 len(2) by simp
    ultimately show ?thesis using True h l nz es' len
      by (simp add: generated_remove_def Let_def es_def [symmetric] generated_rel_def)
  qed
next
  case False
  moreover have "length (gt_index i) = length counts" using rel by (simp add: generated_rel_def)
  ultimately show ?thesis using h by (auto simp: generated_remove_def)
qed

text \<open>
  \<^verbatim>\<open>clear\<close> empties the map and keeps the number of transactions: a block that is added as the first one
  afterwards is counted on top of the blocks that were there before.
\<close>

lemma generated_clear_stale:
  assumes "base_height b = Some 0"
  shows "\<exists>i'. generated_add b (generated_clear i) = Some (True, i')
    \<and> generated_find 0 i' = Some (lastGeneratedTxNumber i + (of_nat (length (transactionHashes b)) + 1))"
  using assms by (simp add: generated_add_def generated_clear_def generated_find_def Let_def)

end
