(* ===== verification/IntrusiveLinkedList.thy ===== *)
theory IntrusiveLinkedList
  imports Prelude "HOL-Library.Monad_Syntax"
begin

text \<open>
  \<^verbatim>\<open>src/OrbisCore/IntrusiveLinkedList.h\<close>: a doubly linked list through hooks in the values. The heap is a
  function from the values (their addresses) to their hooks; a null pointer is \<open>None\<close>. The operations
  return \<open>None\<close> where they would follow a null pointer or not return. They are shown to implement a
  plain list without repetition.
\<close>

record 'v hook =
  prev :: "'v option"
  "next" :: "'v option"
  used :: bool

record 'v linked_list =
  head :: "'v option"
  tail :: "'v option"
  hooks :: "'v \<Rightarrow> 'v hook"

definition new_hook :: "'v hook" where
  "new_hook = \<lparr>prev = None, next = None, used = False\<rparr>"

definition empty_list :: "('v \<Rightarrow> 'v hook) \<Rightarrow> 'v linked_list" where
  "empty_list h = \<lparr>head = None, tail = None, hooks = h\<rparr>"

definition set_prev :: "'v \<Rightarrow> 'v option \<Rightarrow> 'v linked_list \<Rightarrow> 'v linked_list" where
  "set_prev v p l = l\<lparr>hooks := (hooks l)(v := (hooks l v)\<lparr>prev := p\<rparr>)\<rparr>"

definition set_next :: "'v \<Rightarrow> 'v option \<Rightarrow> 'v linked_list \<Rightarrow> 'v linked_list" where
  "set_next v n l = l\<lparr>hooks := (hooks l)(v := (hooks l v)\<lparr>next := n\<rparr>)\<rparr>"

definition set_used :: "'v \<Rightarrow> bool \<Rightarrow> 'v linked_list \<Rightarrow> 'v linked_list" where
  "set_used v u l = l\<lparr>hooks := (hooks l)(v := (hooks l v)\<lparr>used := u\<rparr>)\<rparr>"

definition list_insert :: "'v \<Rightarrow> 'v linked_list \<Rightarrow> (bool \<times> 'v linked_list) option" where
  "list_insert v l =
    (if \<not> used (hooks l v)
     then do {
       l \<leftarrow> (if head l = None
             then let l = l\<lparr>head := Some v\<rparr>; l = l\<lparr>tail := head l\<rparr> in Some (set_prev v None l)
             else do {
               t \<leftarrow> tail l;
               let l = set_next t (Some v) l;
               let l = set_prev v (Some t) l;
               Some (l\<lparr>tail := Some v\<rparr>)
             });
       let l = set_next v None l;
       let l = set_used v True l;
       Some (True, l)
     }
     else Some (False, l))"

text \<open>The search of \<^verbatim>\<open>remove\<close>; on hooks that form a cycle it does not return.\<close>

partial_function (option) list_search :: "('v \<Rightarrow> 'v hook) \<Rightarrow> 'v \<Rightarrow> 'v \<Rightarrow> 'v option" where
  "list_search h toRemove current =
    (case next (h current) of
       None \<Rightarrow> Some current
     | Some n \<Rightarrow> if toRemove = current then Some current else list_search h toRemove n)"

declare list_search.simps [code]

definition list_remove :: "'v \<Rightarrow> 'v linked_list \<Rightarrow> (bool \<times> 'v linked_list) option" where
  "list_remove v l =
    (if used (hooks l v) \<and> head l \<noteq> None
     then do {
       first \<leftarrow> head l;
       current \<leftarrow> list_search (hooks l) v first;
       if v = current
       then do {
         let l = (case prev (hooks l current) of
             None \<Rightarrow>
               (let l = l\<lparr>head := next (hooks l current)\<rparr> in
                case head l of
                  Some f \<Rightarrow> set_prev f None l
                | None \<Rightarrow> l\<lparr>tail := None\<rparr>)
           | Some p \<Rightarrow>
               (let l = set_next p (next (hooks l current)) l in
                case next (hooks l current) of
                  Some n \<Rightarrow> set_prev n (prev (hooks l current)) l
                | None \<Rightarrow> l\<lparr>tail := prev (hooks l current)\<rparr>));
         let l = set_prev current None l;
         let l = set_next current None l;
         let l = set_used current False l;
         Some (True, l)
       }
       else Some (False, l)
     }
     else Some (False, l))"

definition list_empty :: "'v linked_list \<Rightarrow> bool" where
  "list_empty l \<longleftrightarrow> head l = None"

text \<open>An iterator is a pointer; \<^verbatim>\<open>end()\<close> is the null pointer. \<open>None\<close> is a failed assertion.\<close>

definition list_begin :: "'v linked_list \<Rightarrow> 'v option" where
  "list_begin l = head l"

definition list_end :: "'v linked_list \<Rightarrow> 'v option" where
  "list_end l = None"

definition iterator_inc :: "'v linked_list \<Rightarrow> 'v option \<Rightarrow> 'v option option" where
  "iterator_inc l it = map_option (\<lambda>v. next (hooks l v)) it"

definition iterator_dec :: "'v linked_list \<Rightarrow> 'v option \<Rightarrow> 'v option option" where
  "iterator_dec l it = map_option (\<lambda>v. prev (hooks l v)) it"

section \<open>Representation\<close>

text \<open>The hooks of the values of a list point to the neighbours; \<open>p\<close> is before the list and \<open>q\<close> behind it.\<close>

fun chain :: "('v \<Rightarrow> 'v hook) \<Rightarrow> 'v option \<Rightarrow> 'v list \<Rightarrow> 'v option \<Rightarrow> bool" where
  "chain h p [] q \<longleftrightarrow> True"
| "chain h p (x # xs) q \<longleftrightarrow>
    used (h x) \<and> prev (h x) = p \<and> next (h x) = (if xs = [] then q else Some (hd xs)) \<and> chain h (Some x) xs q"

definition list_rep :: "'v linked_list \<Rightarrow> 'v list \<Rightarrow> bool" where
  "list_rep l xs \<longleftrightarrow> distinct xs \<and> chain (hooks l) None xs None
    \<and> head l = (if xs = [] then None else Some (hd xs)) \<and> tail l = (if xs = [] then None else Some (last xs))"

lemma chain_append:
  "chain h p (xs @ ys) q \<longleftrightarrow>
   chain h p xs (if ys = [] then q else Some (hd ys)) \<and> chain h (if xs = [] then p else Some (last xs)) ys q"
  by (induction xs arbitrary: p) auto

lemma chain_cong: "(\<And>x. x \<in> set xs \<Longrightarrow> h x = h' x) \<Longrightarrow> chain h p xs q \<longleftrightarrow> chain h' p xs q"
  by (induction xs arbitrary: p) auto

lemma chain_other [simp]: "v \<notin> set xs \<Longrightarrow> chain (h(v := k)) p xs q \<longleftrightarrow> chain h p xs q"
  by (rule chain_cong) auto

lemma chain_used: "chain h p xs q \<Longrightarrow> x \<in> set xs \<Longrightarrow> used (h x)"
  by (induction xs arbitrary: p) auto

text \<open>The last hook gets a new successor, the first one a new predecessor.\<close>

lemma chain_set_next:
  "chain h p (xs @ [x]) q \<Longrightarrow> distinct (xs @ [x]) \<Longrightarrow> chain (h(x := (h x)\<lparr>next := r\<rparr>)) p (xs @ [x]) r"
  by (simp add: chain_append)

lemma chain_set_prev:
  "chain h p (x # xs) q \<Longrightarrow> distinct (x # xs) \<Longrightarrow> chain (h(x := (h x)\<lparr>prev := r\<rparr>)) r (x # xs) q"
  by simp

lemma list_rep_empty: "list_rep (empty_list h) []"
  by (simp add: list_rep_def empty_list_def)

section \<open>Insertion\<close>

text \<open>A value that is in no list is appended; the hooks of values outside the list do not change.\<close>

lemma list_insert_rep:
  assumes rep: "list_rep l xs" and new: "\<not> used (hooks l v)"
  shows "\<exists>l'. list_insert v l = Some (True, l') \<and> list_rep l' (xs @ [v])
    \<and> (\<forall>w. w \<notin> set (xs @ [v]) \<longrightarrow> hooks l' w = hooks l w)"
proof (cases xs rule: rev_cases)
  case Nil
  with assms show ?thesis
    by (simp add: list_rep_def list_insert_def set_prev_def set_next_def set_used_def)
next
  case (snoc ys t)
  have v: "v \<notin> set xs" using chain_used [of "hooks l" None xs None v] rep new by (auto simp: list_rep_def)
  have l: "head l \<noteq> None" "head l = Some (hd xs)" "tail l = Some t" using rep snoc by (auto simp: list_rep_def)
  let ?h = "(hooks l)(t := (hooks l t)\<lparr>next := Some v\<rparr>)"
  have c: "chain ?h None xs (Some v)" using chain_set_next [of "hooks l" None ys t None "Some v"] rep snoc by (simp add: list_rep_def)
  let ?l = "l\<lparr>hooks := ?h(v := (hooks l v)\<lparr>prev := Some t, next := None, used := True\<rparr>), tail := Some v\<rparr>"
  have i: "list_insert v l = Some (True, ?l)"
    using new l v snoc by (simp add: list_insert_def set_prev_def set_next_def set_used_def)
  have "list_rep ?l (xs @ [v])" using rep v c snoc l by (auto simp: list_rep_def chain_append hd_append)
  moreover have "\<forall>w. w \<notin> set (xs @ [v]) \<longrightarrow> hooks ?l w = hooks l w" using snoc by simp
  ultimately show ?thesis using i by blast
qed

lemma list_insert_used: "used (hooks l v) \<Longrightarrow> list_insert v l = Some (False, l)"
  by (simp add: list_insert_def)

section \<open>Removal\<close>

text \<open>The search ends at the value, or at the last value of the list.\<close>

lemma list_search_chain:
  "chain h p (x # xs) None \<Longrightarrow> list_search h v x = Some (if v \<in> set (x # xs) then v else last (x # xs))"
proof (induction xs arbitrary: p x)
  case Nil
  then show ?case by (simp add: list_search.simps)
next
  case (Cons y ys)
  then have "chain h (Some x) (y # ys) None" "next (h x) = Some y" by auto
  with Cons.IH show ?case by (auto simp: list_search.simps [of h v x])
qed

lemma list_remove_absent:
  assumes "list_rep l xs" and "v \<notin> set xs"
  shows "list_remove v l = Some (False, l)"
proof (cases xs)
  case Nil
  with assms show ?thesis by (simp add: list_rep_def list_remove_def)
next
  case (Cons x ys)
  with assms list_search_chain [of "hooks l" None x ys v] have "list_search (hooks l) v x = Some (last xs)" "head l = Some x"
    by (auto simp: list_rep_def)
  moreover have "v \<noteq> last xs" using assms(2) Cons by auto
  ultimately show ?thesis by (simp add: list_remove_def)
qed

lemma unlinked_hook [simp]: "h\<lparr>prev := None, next := None, used := False\<rparr> = new_hook"
  by (cases h) (simp add: new_hook_def)

lemma list_remove_present:
  assumes rep: "list_rep l (ys @ v # zs)"
  shows "\<exists>l'. list_remove v l = Some (True, l') \<and> list_rep l' (ys @ zs) \<and> hooks l' v = new_hook
    \<and> (\<forall>w. w \<notin> set (ys @ v # zs) \<longrightarrow> hooks l' w = hooks l w)"
proof -
  let ?h = "hooks l"
  have d: "distinct (ys @ v # zs)" and c: "chain ?h None (ys @ v # zs) None" using rep by (auto simp: list_rep_def)
  from c have cy: "chain ?h None ys (Some v)" and v: "used (?h v)" "prev (?h v) = (if ys = [] then None else Some (last ys))"
      "next (?h v) = (if zs = [] then None else Some (hd zs))" and cz: "chain ?h (Some v) zs None"
    by (auto simp: chain_append)
  have hd: "head l = Some (hd (ys @ [v]))" "tail l = Some (last (v # zs))" using rep by (auto simp: list_rep_def hd_append)
  have search: "list_search ?h v (hd (ys @ [v])) = Some v"
  proof -
    obtain x xs where x: "ys @ v # zs = x # xs" by (cases "ys @ v # zs") auto
    then have "hd (ys @ [v]) = x" by (cases ys) auto
    moreover have "v \<in> set (x # xs)" unfolding x [symmetric] by simp
    ultimately show ?thesis using list_search_chain [of ?h None x xs v] c x by simp
  qed
  show ?thesis
  proof (cases ys rule: rev_cases)
    case Nil
    show ?thesis
    proof (cases zs)
      case z: Nil
      with Nil v hd search show ?thesis
        by (simp add: list_remove_def set_prev_def set_next_def set_used_def list_rep_def)
    next
      case (Cons z zs')
      with d have "z \<noteq> v" by auto
      with Cons Nil v hd search d cz show ?thesis
        by (simp add: list_remove_def set_prev_def set_next_def set_used_def list_rep_def)
    qed
  next
    case (snoc ys' y)
    have cy': "chain (?h(y := (?h y)\<lparr>next := q\<rparr>)) None ys q" for q
      using chain_set_next [of ?h None ys' y "Some v" q] cy d snoc by simp
    show ?thesis
    proof (cases zs)
      case Nil
      have "head l = Some (hd ys)" "y \<noteq> v" "v \<noteq> y" using hd(1) snoc d by (auto simp: hd_append)
      with Nil snoc v hd search d cy' show ?thesis
        by (simp add: list_remove_def set_prev_def set_next_def set_used_def list_rep_def)
    next
      case (Cons z zs')
      have yz: "y \<noteq> v" "z \<noteq> v" "y \<noteq> z" "v \<notin> set ys" "v \<notin> set zs" "z \<notin> set ys" "y \<notin> set zs" using d snoc Cons by auto
      let ?h1 = "?h(y := (?h y)\<lparr>next := Some z\<rparr>)"
      let ?h2 = "?h1(z := (?h1 z)\<lparr>prev := Some y\<rparr>)"
      let ?h3 = "?h2(v := new_hook)"
      have "chain ?h1 (Some v) zs None" using cz yz by simp
      then have "chain ?h2 (Some y) zs None" using chain_set_prev [of ?h1 "Some v" z zs' None "Some y"] d Cons by simp
      moreover have "chain ?h2 None ys (Some z)" using cy' [of "Some z"] yz by simp
      ultimately have c3: "chain ?h3 None (ys @ zs) None" using yz snoc Cons by (simp add: chain_append)
      have r: "list_remove v l = Some (True, l\<lparr>hooks := ?h3\<rparr>)"
        using v hd search snoc Cons yz by (simp add: list_remove_def set_prev_def set_next_def set_used_def)
      have "list_rep (l\<lparr>hooks := ?h3\<rparr>) (ys @ zs)" using c3 d hd snoc Cons by (simp add: list_rep_def hd_append)
      with r snoc Cons yz show ?thesis by simp
    qed
  qed
qed

lemma list_remove_rep:
  assumes rep: "list_rep l xs" and v: "v \<in> set xs"
  shows "\<exists>l'. list_remove v l = Some (True, l') \<and> list_rep l' (remove1 v xs) \<and> \<not> used (hooks l' v)"
proof -
  from v obtain ys zs where xs: "xs = ys @ v # zs" "v \<notin> set ys" by (meson split_list_first)
  then have "remove1 v xs = ys @ zs" by (simp add: remove1_append)
  with list_remove_present [of l ys v zs] rep xs(1) show ?thesis by (auto simp: new_hook_def)
qed

section \<open>Iteration\<close>

text \<open>Stepping from \<^verbatim>\<open>begin()\<close> visits the values in order and reaches \<^verbatim>\<open>end()\<close> after the last one.\<close>

fun iterate :: "'v linked_list \<Rightarrow> nat \<Rightarrow> 'v option \<Rightarrow> 'v option option" where
  "iterate l 0 it = Some it"
| "iterate l (Suc n) it = Option.bind (iterator_inc l it) (iterate l n)"

lemma iterate_chain:
  "chain (hooks l) p xs None \<Longrightarrow> n \<le> length xs \<Longrightarrow>
   iterate l n (if xs = [] then None else Some (hd xs)) = Some (if n < length xs then Some (xs ! n) else None)"
proof (induction xs arbitrary: p n)
  case (Cons x xs)
  show ?case
  proof (cases n)
    case (Suc m)
    with Cons.IH [of "Some x" m] Cons.prems show ?thesis by (simp add: iterator_inc_def)
  qed simp
qed simp

lemma iterate_rep:
  "list_rep l xs \<Longrightarrow> n \<le> length xs \<Longrightarrow> iterate l n (list_begin l) = Some (if n < length xs then Some (xs ! n) else list_end l)"
  using iterate_chain [of l None xs n] by (simp add: list_rep_def list_begin_def list_end_def)

end
