(* ===== verification/ObserverManager.thy ===== *)
theory ObserverManager
  imports Main
begin

text \<open>
  \<^verbatim>\<open>src/Common/ObserverManager.h\<close>: the registered observers of a component, in the order in which they are
  notified. An observer is known by its address, the type \<open>'t\<close>.
\<close>

record 't ObserverManager =
  m_observers :: "'t list"

definition observer_add :: "'t \<Rightarrow> 't ObserverManager \<Rightarrow> bool \<times> 't ObserverManager" where
  "observer_add observer m =
    (if observer \<notin> set (m_observers m) then (True, m\<lparr>m_observers := m_observers m @ [observer]\<rparr>) else (False, m))"

definition observer_remove :: "'t \<Rightarrow> 't ObserverManager \<Rightarrow> bool \<times> 't ObserverManager" where
  "observer_remove observer m =
    (if observer \<notin> set (m_observers m) then (False, m)
     else (True, m\<lparr>m_observers := remove1 observer (m_observers m)\<rparr>))"

definition observer_clear :: "'t ObserverManager \<Rightarrow> 't ObserverManager" where
  "observer_clear m = m\<lparr>m_observers := []\<rparr>"

text \<open>
  \<^verbatim>\<open>notify\<close> runs a notification on a copy of the list. A notification may change the manager itself, as an
  observer that deregisters does; such a change does not affect who is notified.
\<close>

fun notify_loop :: "('t \<Rightarrow> 's \<Rightarrow> 's) \<Rightarrow> 't list \<Rightarrow> 's \<Rightarrow> 's" where
  "notify_loop notification [] s = s"
| "notify_loop notification (observer # os) s = notify_loop notification os (notification observer s)"

definition notify :: "('t \<Rightarrow> 't ObserverManager \<times> 's \<Rightarrow> 't ObserverManager \<times> 's) \<Rightarrow> 't ObserverManager \<times> 's \<Rightarrow> 't ObserverManager \<times> 's" where
  "notify notification s = (let observersCopy = m_observers (fst s) in notify_loop notification observersCopy s)"

lemma observer_add_distinct: "distinct (m_observers m) \<Longrightarrow> distinct (m_observers (snd (observer_add x m)))"
  by (simp add: observer_add_def)

lemma observer_remove_distinct: "distinct (m_observers m) \<Longrightarrow> distinct (m_observers (snd (observer_remove x m)))"
  by (simp add: observer_remove_def)

lemma observer_add_remove: "x \<notin> set (m_observers m) \<Longrightarrow> observer_remove x (snd (observer_add x m)) = (True, m)"
  by (simp add: observer_add_def observer_remove_def remove1_append)

lemma observer_removed: "distinct (m_observers m) \<Longrightarrow> x \<notin> set (m_observers (snd (observer_remove x m)))"
  by (simp add: observer_remove_def)

text \<open>Everyone registered at the start is notified, in order, also when observers deregister on the way.\<close>

lemma notify_loop_log:
  "snd (notify_loop (\<lambda>x (m, seen). (f x m, seen @ [x])) os (m, seen)) = seen @ os"
  by (induction os arbitrary: m seen) auto

lemma notify_all:
  "snd (notify (\<lambda>x (m, seen). (f x m, seen @ [x])) (m, [])) = m_observers m"
  by (simp add: notify_def notify_loop_log)

end
