(* ===== verification/TransactionPool.thy ===== *)
theory TransactionPool
  imports Currency BlockchainIndices ObserverManager
begin

text \<open>
  \<^verbatim>\<open>src/OrbisCore/TransactionPool.{h,cpp}\<close>: the pool of transactions that wait for a block, and the choice of
  the transactions of a new block. The validator, an interface that the block chain implements, is the
  record \<open>ITransactionValidator\<close>, an argument; the results of the clock are arguments too. The container
  of transactions is kept in the order of its index by priority; its other index, by hash, leaves the
  order open, and no result below depends on it but for the order of lists. The lock makes every
  operation atomic. Printing and the files of the pool are not modelled.
\<close>

section \<open>State\<close>

record BlockInfo =
  bi_height :: u32
  bi_id :: Hash

definition BlockInfo_clear :: BlockInfo where
  "BlockInfo_clear = \<lparr>bi_height = 0, bi_id = NULL_HASH\<rparr>"

definition BlockInfo_empty :: "BlockInfo \<Rightarrow> bool" where
  "BlockInfo_empty b \<longleftrightarrow> bi_id b = NULL_HASH"

record TransactionCheckInfo =
  maxUsedBlock :: BlockInfo
  lastFailedBlock :: BlockInfo

record TransactionDetails = TransactionCheckInfo +
  td_id :: Hash
  td_tx :: Transaction
  blobSize :: u64
  td_fee :: u64
  keptByBlock :: bool
  receiveTime :: u64

record ITransactionValidator =
  checkTransactionInputs :: "Transaction \<Rightarrow> BlockInfo \<Rightarrow> bool \<times> BlockInfo"
  recheckTransactionInputs :: "Transaction \<Rightarrow> TransactionCheckInfo \<Rightarrow> bool \<times> TransactionCheckInfo"
  haveSpentKeyImages :: "Transaction \<Rightarrow> bool"
  checkTransactionSize :: "u64 \<Rightarrow> bool"

record tx_verification_context =
  m_should_be_relayed :: bool
  m_verifivation_failed :: bool
  m_verifivation_impossible :: bool
  m_added_to_pool :: bool
  m_tx_fee_too_small :: bool

record OnceInTimeInterval =
  m_lastWorkedTime :: u64
  m_interval :: u32

record tx_memory_pool =
  m_spent_key_images :: "KeyImage \<rightharpoonup> Hash set"
  m_spentOutputs :: "(u64 \<times> u64) set"
  m_transactions :: "TransactionDetails list"
  m_recentlyDeletedTransactions :: "Hash \<rightharpoonup> u64"
  m_paymentIdIndex :: PaymentIdIndex
  m_timestampIndex :: TimestampIndex
  m_txCheckInterval :: OnceInTimeInterval
  m_observerManager :: "nat ObserverManager"

definition new_pool :: tx_memory_pool where
  "new_pool = \<lparr>m_spent_key_images = Map.empty, m_spentOutputs = {}, m_transactions = [],
    m_recentlyDeletedTransactions = Map.empty, m_paymentIdIndex = \<lparr>pi_index = []\<rparr>, m_timestampIndex = \<lparr>ti_index = []\<rparr>,
    m_txCheckInterval = \<lparr>m_lastWorkedTime = 0, m_interval = 60\<rparr>, m_observerManager = \<lparr>m_observers = []\<rparr>\<rparr>"

section \<open>The index by priority\<close>

definition priority_before :: "TransactionDetails \<Rightarrow> TransactionDetails \<Rightarrow> bool" where
  "priority_before lhs rhs =
    (let (lhs_lo, lhs_hi) = mul128 (td_fee lhs) (blobSize rhs);
         (rhs_lo, rhs_hi) = mul128 (td_fee rhs) (blobSize lhs)
     in lhs_hi > rhs_hi
       \<or> (lhs_hi = rhs_hi \<and> lhs_lo > rhs_lo)
       \<or> (lhs_hi = rhs_hi \<and> lhs_lo = rhs_lo \<and> blobSize lhs < blobSize rhs)
       \<or> (lhs_hi = rhs_hi \<and> lhs_lo = rhs_lo \<and> blobSize lhs = blobSize rhs \<and> receiveTime lhs <s receiveTime rhs))"

text \<open>\<^verbatim>\<open>ordered_non_unique\<close> puts an element behind those it is not before.\<close>

fun priority_insert :: "TransactionDetails \<Rightarrow> TransactionDetails list \<Rightarrow> TransactionDetails list" where
  "priority_insert d [] = [d]"
| "priority_insert d (e # es) = (if priority_before d e then d # e # es else e # priority_insert d es)"

text \<open>\<^verbatim>\<open>insert\<close> of the container, which fails when the id is there.\<close>

definition container_insert :: "TransactionDetails \<Rightarrow> TransactionDetails list \<Rightarrow> bool \<times> TransactionDetails list" where
  "container_insert d ds = (if td_id d \<in> td_id ` set ds then (False, ds) else (True, priority_insert d ds))"

section \<open>Spent inputs\<close>

definition addTransactionInput :: "Hash \<Rightarrow> bool \<Rightarrow> TransactionInput \<Rightarrow> tx_memory_pool \<Rightarrow> bool \<times> tx_memory_pool" where
  "addTransactionInput txid kept i p =
    (case i of
       VKeyInput txin \<Rightarrow>
         let images = (m_spent_key_images p);
             kei_image_set = (case images (keyImage txin) of None \<Rightarrow> {} | Some s \<Rightarrow> s);
             p = p\<lparr>m_spent_key_images := images(keyImage txin \<mapsto> kei_image_set)\<rparr>
         in if \<not> (kept \<or> kei_image_set = {}) then (False, p)
            else if txid \<in> kei_image_set then (False, p)
            else (True, p\<lparr>m_spent_key_images := images(keyImage txin \<mapsto> insert txid kei_image_set)\<rparr>)
     | VMultisignatureInput msig \<Rightarrow>
         if \<not> kept then (True, p\<lparr>m_spentOutputs := insert (mi_amount msig, ucast (outputIndex msig)) (m_spentOutputs p)\<rparr>)
         else (True, p)
     | VBaseInput b \<Rightarrow> (True, p))"

fun addTransactionInputs :: "Hash \<Rightarrow> bool \<Rightarrow> TransactionInput list \<Rightarrow> tx_memory_pool \<Rightarrow> bool \<times> tx_memory_pool" where
  "addTransactionInputs txid kept [] p = (True, p)"
| "addTransactionInputs txid kept (i # is) p =
    (let (r, p) = addTransactionInput txid kept i p in
     if \<not> r then (False, p) else addTransactionInputs txid kept is p)"

definition removeTransactionInput :: "Hash \<Rightarrow> bool \<Rightarrow> TransactionInput \<Rightarrow> tx_memory_pool \<Rightarrow> bool \<times> tx_memory_pool" where
  "removeTransactionInput tx_id kept i p =
    (case i of
       VKeyInput txin \<Rightarrow>
         (case m_spent_key_images p (keyImage txin) of
            None \<Rightarrow> (False, p)
          | Some key_image_set \<Rightarrow>
              if key_image_set = {} then (False, p)
              else if tx_id \<notin> key_image_set then (False, p)
              else let key_image_set = key_image_set - {tx_id} in
                (True, p\<lparr>m_spent_key_images := (m_spent_key_images p)
                  (keyImage txin := (if key_image_set = {} then None else Some key_image_set))\<rparr>))
     | VMultisignatureInput msig \<Rightarrow>
         if \<not> kept then (True, p\<lparr>m_spentOutputs := m_spentOutputs p - {(mi_amount msig, ucast (outputIndex msig))}\<rparr>)
         else (True, p)
     | VBaseInput b \<Rightarrow> (True, p))"

fun removeTransactionInputs :: "Hash \<Rightarrow> bool \<Rightarrow> TransactionInput list \<Rightarrow> tx_memory_pool \<Rightarrow> bool \<times> tx_memory_pool" where
  "removeTransactionInputs tx_id kept [] p = (True, p)"
| "removeTransactionInputs tx_id kept (i # is) p =
    (let (r, p) = removeTransactionInput tx_id kept i p in
     if \<not> r then (False, p) else removeTransactionInputs tx_id kept is p)"

fun input_spent :: "tx_memory_pool \<Rightarrow> TransactionInput \<Rightarrow> bool" where
  "input_spent p (VKeyInput tokey_in) \<longleftrightarrow> m_spent_key_images p (keyImage tokey_in) \<noteq> None"
| "input_spent p (VMultisignatureInput msig) \<longleftrightarrow> (mi_amount msig, ucast (outputIndex msig)) \<in> m_spentOutputs p"
| "input_spent p (VBaseInput b) \<longleftrightarrow> False"

definition haveSpentInputs :: "Transaction \<Rightarrow> tx_memory_pool \<Rightarrow> bool" where
  "haveSpentInputs tx p = list_ex (input_spent p) (inputs tx)"

section \<open>Adding and removing\<close>

text \<open>
  A transaction from which \<^verbatim>\<open>std::move\<close> has taken the contents: its vectors are empty. \<open>add_tx\<close> gives it to
  the index of payment ids.
\<close>

definition moved_from :: "Transaction \<Rightarrow> Transaction" where
  "moved_from tx = tx\<lparr>inputs := [], outputs := [], extra := [], signatures := []\<rparr>"

definition tx_failed :: "tx_verification_context \<Rightarrow> tx_verification_context" where
  "tx_failed tvc = tvc\<lparr>m_verifivation_failed := True\<rparr>"

text \<open>The end of \<open>add_tx\<close>, from the insertion into the container on.\<close>

definition add_to_pool :: "TransactionDetails \<Rightarrow> bool \<Rightarrow> bool \<Rightarrow> tx_verification_context \<Rightarrow> tx_memory_pool
    \<Rightarrow> bool \<times> tx_verification_context \<times> tx_memory_pool" where
  "add_to_pool txd inputsValid isFusion tvc p =
    (let (inserted, ds) = container_insert txd (m_transactions p) in
     if \<not> inserted then (False, tvc, p)
     else
       let p = p\<lparr>m_transactions := ds, m_paymentIdIndex := snd (payment_add (moved_from (td_tx txd)) (m_paymentIdIndex p)),
             m_timestampIndex := snd (timestamp_add (receiveTime txd) (td_id txd) (m_timestampIndex p))\<rparr>;
           tvc = tvc\<lparr>m_added_to_pool := True, m_should_be_relayed := inputsValid \<and> (td_fee txd > 0 \<or> isFusion),
             m_verifivation_failed := True\<rparr>;
           (r, p) = addTransactionInputs (td_id txd) (keptByBlock txd) (inputs (td_tx txd)) p in
       if \<not> r then (False, tvc, p)
       else (True, tvc\<lparr>m_verifivation_failed := False\<rparr>, p))"

definition add_tx :: "currency \<Rightarrow> ITransactionValidator \<Rightarrow> u64 \<Rightarrow> Transaction \<Rightarrow> Hash \<Rightarrow> u64 \<Rightarrow> tx_verification_context
    \<Rightarrow> bool \<Rightarrow> tx_memory_pool \<Rightarrow> bool \<times> tx_verification_context \<times> tx_memory_pool" where
  "add_tx c v now tx txid sz tvc kept p =
    (if \<not> check_inputs_types_supported tx then (False, tx_failed tvc, p)
     else
       let inputs_amount = get_inputs_money_amount tx;
           outputs_amount = get_outs_money_amount tx in
       if outputs_amount > inputs_amount then (False, tx_failed tvc, p)
       else
         let fee = inputs_amount - outputs_amount;
             isFusion = (fee = 0 \<and> isFusionTransaction_size c tx (unat sz)) in
         if \<not> kept \<and> \<not> isFusion \<and> fee < m_mininumFee c then (False, (tx_failed tvc)\<lparr>m_tx_fee_too_small := True\<rparr>, p)
         else if \<not> kept \<and> haveSpentInputs tx p then (False, tx_failed tvc, p)
         else
           let (inputsValid, maxUsedBlock) = checkTransactionInputs v tx BlockInfo_clear in
           if \<not> inputsValid \<and> \<not> kept then (False, tx_failed tvc, p)
           else
             let maxUsedBlock = (if \<not> inputsValid then BlockInfo_clear else maxUsedBlock);
                 tvc = (if \<not> inputsValid then tvc\<lparr>m_verifivation_impossible := True\<rparr> else tvc) in
             if \<not> kept \<and> \<not> checkTransactionSize v sz then (False, tx_failed tvc, p)
             else if \<not> kept \<and> m_recentlyDeletedTransactions p txid \<noteq> None
             then (True, tvc\<lparr>m_verifivation_failed := False, m_should_be_relayed := False, m_added_to_pool := False\<rparr>, p)
             else add_to_pool \<lparr>maxUsedBlock = maxUsedBlock, lastFailedBlock = BlockInfo_clear, td_id = txid, td_tx = tx,
                 blobSize = sz, td_fee = fee, keptByBlock = kept, receiveTime = now\<rparr> inputsValid isFusion tvc p)"

definition add_tx_object :: "currency \<Rightarrow> ITransactionValidator \<Rightarrow> u64 \<Rightarrow> Transaction \<Rightarrow> tx_verification_context
    \<Rightarrow> bool \<Rightarrow> tx_memory_pool \<Rightarrow> bool \<times> tx_verification_context \<times> tx_memory_pool" where
  "add_tx_object c v now tx tvc kept p =
    (let (ok, h, sz) = getObjectHash_size out_Transaction tx in add_tx c v now tx h (of_nat sz) tvc kept p)"

definition removeTransaction :: "TransactionDetails \<Rightarrow> tx_memory_pool \<Rightarrow> tx_memory_pool" where
  "removeTransaction i p =
    (let p = snd (removeTransactionInputs (td_id i) (keptByBlock i) (inputs (td_tx i)) p) in
     p\<lparr>m_paymentIdIndex := snd (payment_remove (td_tx i) (m_paymentIdIndex p)),
       m_timestampIndex := snd (timestamp_remove (receiveTime i) (td_id i) (m_timestampIndex p)),
       m_transactions := filter (\<lambda>d. td_id d \<noteq> td_id i) (m_transactions p)\<rparr>)"

definition take_tx :: "Hash \<Rightarrow> tx_memory_pool \<Rightarrow> (Transaction \<times> u64 \<times> u64) option \<times> tx_memory_pool" where
  "take_tx txid p =
    (case find (\<lambda>d. td_id d = txid) (m_transactions p) of
       None \<Rightarrow> (None, p)
     | Some txd \<Rightarrow> (Some (td_tx txd, blobSize txd, td_fee txd), removeTransaction txd p))"

section \<open>Queries\<close>

definition get_transactions_count :: "tx_memory_pool \<Rightarrow> nat" where
  "get_transactions_count p = length (m_transactions p)"

definition get_transactions :: "tx_memory_pool \<Rightarrow> Transaction list" where
  "get_transactions p = map td_tx (m_transactions p)"

definition have_tx :: "Hash \<Rightarrow> tx_memory_pool \<Rightarrow> bool" where
  "have_tx txid p \<longleftrightarrow> txid \<in> td_id ` set (m_transactions p)"

definition getTransactions :: "Hash list \<Rightarrow> tx_memory_pool \<Rightarrow> Transaction list \<times> Hash list" where
  "getTransactions txsIds p =
    fold (\<lambda>txid (txs, missedTxs).
      case find (\<lambda>d. td_id d = txid) (m_transactions p) of
        None \<Rightarrow> (txs, missedTxs @ [txid])
      | Some d \<Rightarrow> (txs @ [td_tx d], missedTxs)) txsIds ([], [])"

definition is_transaction_ready_to_go :: "ITransactionValidator \<Rightarrow> Transaction \<Rightarrow> TransactionCheckInfo \<Rightarrow> bool \<times> TransactionCheckInfo" where
  "is_transaction_ready_to_go v tx txd =
    (let (ok, txd) = recheckTransactionInputs v tx txd in
     if \<not> ok then (False, txd) else if haveSpentKeyImages v tx then (False, txd) else (True, txd))"

definition ready :: "ITransactionValidator \<Rightarrow> TransactionDetails \<Rightarrow> bool" where
  "ready v d = fst (is_transaction_ready_to_go v (td_tx d) (TransactionCheckInfo.truncate d))"

definition get_difference :: "ITransactionValidator \<Rightarrow> Hash list \<Rightarrow> tx_memory_pool \<Rightarrow> Hash set \<times> Hash set" where
  "get_difference v known_tx_ids p =
    (let ready_tx_ids = set (map td_id (filter (ready v) (m_transactions p)));
         known_set = set known_tx_ids
     in (ready_tx_ids - known_set, known_set - ready_tx_ids))"

definition getTransactionIdsByPaymentId :: "Hash \<Rightarrow> tx_memory_pool \<Rightarrow> Hash list \<Rightarrow> bool \<times> Hash list" where
  "getTransactionIdsByPaymentId paymentId p transactionIds = payment_find paymentId (m_paymentIdIndex p) transactionIds"

definition getTransactionIdsByTimestamp :: "u64 \<Rightarrow> u64 \<Rightarrow> u32 \<Rightarrow> tx_memory_pool \<Rightarrow> Hash list \<Rightarrow> bool \<times> Hash list \<times> u64 option" where
  "getTransactionIdsByTimestamp timestampBegin timestampEnd transactionsNumberLimit p hashes =
    timestamp_transactions_find timestampBegin timestampEnd (ucast transactionsNumberLimit) (m_timestampIndex p) hashes"

section \<open>The template of a block\<close>

record BlockTemplate =
  m_keyImages :: "KeyImage set"
  m_usedOutputs :: "(u64 \<times> u64) set"
  m_txHashes :: "Hash list"

definition new_BlockTemplate :: BlockTemplate where
  "new_BlockTemplate = \<lparr>m_keyImages = {}, m_usedOutputs = {}, m_txHashes = []\<rparr>"

fun input_used :: "BlockTemplate \<Rightarrow> TransactionInput \<Rightarrow> bool" where
  "input_used t (VKeyInput i) \<longleftrightarrow> keyImage i \<in> m_keyImages t"
| "input_used t (VMultisignatureInput msig) \<longleftrightarrow> (mi_amount msig, ucast (outputIndex msig)) \<in> m_usedOutputs t"
| "input_used t (VBaseInput b) \<longleftrightarrow> False"

definition canAdd :: "Transaction \<Rightarrow> BlockTemplate \<Rightarrow> bool" where
  "canAdd tx t = (\<not> list_ex (input_used t) (inputs tx))"

fun use_input :: "TransactionInput \<Rightarrow> BlockTemplate \<Rightarrow> BlockTemplate" where
  "use_input (VKeyInput i) t = t\<lparr>m_keyImages := insert (keyImage i) (m_keyImages t)\<rparr>"
| "use_input (VMultisignatureInput msig) t =
    t\<lparr>m_usedOutputs := insert (mi_amount msig, ucast (outputIndex msig)) (m_usedOutputs t)\<rparr>"
| "use_input (VBaseInput b) t = t"

definition addTransaction :: "Hash \<Rightarrow> Transaction \<Rightarrow> BlockTemplate \<Rightarrow> bool \<times> BlockTemplate" where
  "addTransaction txid tx t =
    (if \<not> canAdd tx t then (False, t)
     else let t = fold use_input (inputs tx) t in (True, t\<lparr>m_txHashes := m_txHashes t @ [txid]\<rparr>))"

text \<open>The first loop: transactions without fee from the end of the index.\<close>

fun fill_fusion :: "currency \<Rightarrow> ITransactionValidator \<Rightarrow> TransactionDetails list \<Rightarrow> u64 \<Rightarrow> BlockTemplate \<Rightarrow> u64 \<times> BlockTemplate" where
  "fill_fusion c v [] total_size t = (total_size, t)"
| "fill_fusion c v (txd # ds) total_size t =
    (if td_fee txd \<noteq> 0 then (total_size, t)
     else if m_fusionTxMaxSize c < unat (total_size + blobSize txd) then fill_fusion c v ds total_size t
     else
       let (added, t) = (if ready v txd then addTransaction (td_id txd) (td_tx txd) t else (False, t)) in
       fill_fusion c v ds (if added then total_size + blobSize txd else total_size) t)"

text \<open>The second loop: all transactions in order; the results of the checks are kept in the pool.\<close>

fun fill_by_price :: "ITransactionValidator \<Rightarrow> u64 \<Rightarrow> u64 \<Rightarrow> TransactionDetails list \<Rightarrow> u64 \<Rightarrow> u64 \<Rightarrow> BlockTemplate
    \<Rightarrow> u64 \<times> u64 \<times> BlockTemplate \<times> TransactionDetails list" where
  "fill_by_price v median_size max_total_size [] total_size fee t = (total_size, fee, t, [])"
| "fill_by_price v median_size max_total_size (txd # ds) total_size fee t =
    (let blockSizeLimit = (if td_fee txd = 0 then median_size else max_total_size) in
     if blockSizeLimit < total_size + blobSize txd
     then let (total_size, fee, t, ds) = fill_by_price v median_size max_total_size ds total_size fee t in
       (total_size, fee, t, txd # ds)
     else
       let (rdy, checkInfo) = is_transaction_ready_to_go v (td_tx txd) (TransactionCheckInfo.truncate txd);
           txd = txd\<lparr>maxUsedBlock := maxUsedBlock checkInfo, lastFailedBlock := lastFailedBlock checkInfo\<rparr>;
           (added, t) = (if rdy then addTransaction (td_id txd) (td_tx txd) t else (False, t));
           (total_size, fee, t, ds) = fill_by_price v median_size max_total_size ds
             (if added then total_size + blobSize txd else total_size) (if added then fee + td_fee txd else fee) t
       in (total_size, fee, t, txd # ds))"

definition max_total :: "currency \<Rightarrow> u64 \<Rightarrow> u64 \<Rightarrow> u64" where
  "max_total c median_size maxCumulativeSize =
    min (2 * median_size - of_nat (m_minerTxBlobReservedSize c)) maxCumulativeSize"

text \<open>\<^verbatim>\<open>fill_block_template\<close>; the result is the hashes of the block, the size, the fee and the pool.\<close>

definition fill_block_template :: "currency \<Rightarrow> ITransactionValidator \<Rightarrow> u64 \<Rightarrow> u64 \<Rightarrow> tx_memory_pool
    \<Rightarrow> Hash list \<times> u64 \<times> u64 \<times> tx_memory_pool" where
  "fill_block_template c v median_size maxCumulativeSize p =
    (let max_total_size = max_total c median_size maxCumulativeSize;
         (total_size, t) = fill_fusion c v (rev (m_transactions p)) 0 new_BlockTemplate;
         (total_size, fee, t, ds) = fill_by_price v median_size max_total_size (m_transactions p) total_size 0 t
     in (m_txHashes t, total_size, fee, p\<lparr>m_transactions := ds\<rparr>))"

section \<open>Expiry\<close>

definition forget_deleted :: "currency \<Rightarrow> u64 \<Rightarrow> (Hash \<rightharpoonup> u64) \<Rightarrow> (Hash \<rightharpoonup> u64)" where
  "forget_deleted c now m = (\<lambda>h. case m h of
     None \<Rightarrow> None
   | Some t \<Rightarrow> if now - t > m_numberOfPeriodsToForgetTxDeletedFromPool c * m_mempoolTxLiveTime c then None else Some t)"

definition expired :: "currency \<Rightarrow> u64 \<Rightarrow> TransactionDetails \<Rightarrow> bool" where
  "expired c now d \<longleftrightarrow>
    now - receiveTime d > (if keptByBlock d then m_mempoolTxFromAltBlockLiveTime c else m_mempoolTxLiveTime c)"

text \<open>\<^verbatim>\<open>emplace\<close> keeps the entry that is there.\<close>

definition remember_deleted :: "Hash \<Rightarrow> u64 \<Rightarrow> (Hash \<rightharpoonup> u64) \<Rightarrow> (Hash \<rightharpoonup> u64)" where
  "remember_deleted h now m = (if m h = None then m(h \<mapsto> now) else m)"

fun remove_expired :: "currency \<Rightarrow> u64 \<Rightarrow> TransactionDetails list \<Rightarrow> tx_memory_pool \<Rightarrow> bool \<times> tx_memory_pool" where
  "remove_expired c now [] p = (False, p)"
| "remove_expired c now (d # ds) p =
    (if expired c now d
     then let p = p\<lparr>m_recentlyDeletedTransactions := remember_deleted (td_id d) now (m_recentlyDeletedTransactions p)\<rparr>;
              p = removeTransaction d p;
              (r, p) = remove_expired c now ds p in (True, p)
     else remove_expired c now ds p)"

text \<open>\<^verbatim>\<open>removeExpiredTransactions\<close>; the second result is the list of the observers that are notified.\<close>

definition removeExpiredTransactions :: "currency \<Rightarrow> u64 \<Rightarrow> tx_memory_pool \<Rightarrow> bool \<times> nat list \<times> tx_memory_pool" where
  "removeExpiredTransactions c now p =
    (let p = p\<lparr>m_recentlyDeletedTransactions := forget_deleted c now (m_recentlyDeletedTransactions p)\<rparr>;
         (somethingRemoved, p) = remove_expired c now (m_transactions p) p
     in (True, if somethingRemoved then m_observers (m_observerManager p) else [], p))"

text \<open>\<^verbatim>\<open>on_idle\<close> through \<^verbatim>\<open>OnceInTimeInterval::call\<close>, with the three results of the clock.\<close>

definition on_idle :: "currency \<Rightarrow> u64 \<Rightarrow> u64 \<Rightarrow> u64 \<Rightarrow> tx_memory_pool \<Rightarrow> nat list \<times> tx_memory_pool" where
  "on_idle c now1 now2 now3 p =
    (let ti = m_txCheckInterval p in
     if sint (now1 - m_lastWorkedTime ti) > int (unat (m_interval ti))
     then let (res, notified, p) = removeExpiredTransactions c now2 p in
       (notified, p\<lparr>m_txCheckInterval := (m_txCheckInterval p)\<lparr>m_lastWorkedTime := now3\<rparr>\<rparr>)
     else ([], p))"

definition buildIndices :: "tx_memory_pool \<Rightarrow> tx_memory_pool" where
  "buildIndices p =
    fold (\<lambda>d p. p\<lparr>m_paymentIdIndex := snd (payment_add (td_tx d) (m_paymentIdIndex p)),
      m_timestampIndex := snd (timestamp_add (receiveTime d) (td_id d) (m_timestampIndex p))\<rparr>) (m_transactions p) p"

definition addObserver :: "nat \<Rightarrow> tx_memory_pool \<Rightarrow> bool \<times> tx_memory_pool" where
  "addObserver observer p = (let (r, m) = observer_add observer (m_observerManager p) in (r, p\<lparr>m_observerManager := m\<rparr>))"

definition removeObserver :: "nat \<Rightarrow> tx_memory_pool \<Rightarrow> bool \<times> tx_memory_pool" where
  "removeObserver observer p = (let (r, m) = observer_remove observer (m_observerManager p) in (r, p\<lparr>m_observerManager := m\<rparr>))"

section \<open>What a transaction spends\<close>

fun input_image :: "TransactionInput \<Rightarrow> KeyImage option" where
  "input_image (VKeyInput i) = Some (keyImage i)"
| "input_image _ = None"

fun input_output :: "TransactionInput \<Rightarrow> (u64 \<times> u64) option" where
  "input_output (VMultisignatureInput i) = Some (mi_amount i, ucast (outputIndex i))"
| "input_output _ = None"

abbreviation images_of :: "TransactionInput list \<Rightarrow> KeyImage list" where
  "images_of \<equiv> List.map_filter input_image"

abbreviation outs_of :: "TransactionInput list \<Rightarrow> (u64 \<times> u64) list" where
  "outs_of \<equiv> List.map_filter input_output"

definition spends :: "Transaction \<Rightarrow> (KeyImage + u64 \<times> u64) set" where
  "spends tx = Inl ` set (images_of (inputs tx)) \<union> Inr ` set (outs_of (inputs tx))"

definition spenders :: "(KeyImage \<rightharpoonup> Hash set) \<Rightarrow> KeyImage \<Rightarrow> Hash set" where
  "spenders m k = (case m k of None \<Rightarrow> {} | Some s \<Rightarrow> s)"

lemma map_filter_Cons: "List.map_filter f (x # xs) = (case f x of None \<Rightarrow> [] | Some y \<Rightarrow> [y]) @ List.map_filter f xs"
  by (simp add: map_filter_simps split: option.splits)

lemmas pool_input_defs = addTransactionInput_def removeTransactionInput_def Let_def

lemma add_input_frame:
  "snd (addTransactionInput h kept i p) =
   p\<lparr>m_spent_key_images := m_spent_key_images (snd (addTransactionInput h kept i p)),
     m_spentOutputs := m_spentOutputs (snd (addTransactionInput h kept i p))\<rparr>"
  by (cases i) (simp_all add: pool_input_defs)

lemma remove_input_frame:
  "snd (removeTransactionInput h kept i p) =
   p\<lparr>m_spent_key_images := m_spent_key_images (snd (removeTransactionInput h kept i p)),
     m_spentOutputs := m_spentOutputs (snd (removeTransactionInput h kept i p))\<rparr>"
  by (cases i) (simp_all add: pool_input_defs split: option.splits)

lemma add_inputs_frame:
  "\<exists>m o'. snd (addTransactionInputs h kept is p) = p\<lparr>m_spent_key_images := m, m_spentOutputs := o'\<rparr>"
proof (induction "is" arbitrary: p)
  case Nil
  have "p = p\<lparr>m_spent_key_images := m_spent_key_images p, m_spentOutputs := m_spentOutputs p\<rparr>" by simp
  then show ?case by (metis addTransactionInputs.simps(1) snd_conv)
next
  case (Cons i "is")
  obtain r q where q: "addTransactionInput h kept i p = (r, q)" by fastforce
  with add_input_frame [of h kept i p] obtain m o' where "q = p\<lparr>m_spent_key_images := m, m_spentOutputs := o'\<rparr>" by auto
  with Cons.IH [of q] q show ?case by auto
qed

lemma remove_inputs_frame:
  "\<exists>m o'. snd (removeTransactionInputs h kept is p) = p\<lparr>m_spent_key_images := m, m_spentOutputs := o'\<rparr>"
proof (induction "is" arbitrary: p)
  case Nil
  have "p = p\<lparr>m_spent_key_images := m_spent_key_images p, m_spentOutputs := m_spentOutputs p\<rparr>" by simp
  then show ?case by (metis removeTransactionInputs.simps(1) snd_conv)
next
  case (Cons i "is")
  obtain r q where q: "removeTransactionInput h kept i p = (r, q)" by fastforce
  with remove_input_frame [of h kept i p] obtain m o' where "q = p\<lparr>m_spent_key_images := m, m_spentOutputs := o'\<rparr>" by auto
  with Cons.IH [of q] q show ?case by auto
qed

text \<open>The effect of the loops over the inputs, where no input fails.\<close>

lemma add_inputs:
  assumes "distinct (images_of is)"
    and "\<forall>k \<in> set (images_of is). h \<notin> spenders (m_spent_key_images p) k \<and> (kept \<or> spenders (m_spent_key_images p) k = {})"
  shows "fst (addTransactionInputs h kept is p) \<and>
    m_spent_key_images (snd (addTransactionInputs h kept is p)) =
      (\<lambda>k. if k \<in> set (images_of is) then Some (insert h (spenders (m_spent_key_images p) k)) else m_spent_key_images p k) \<and>
    m_spentOutputs (snd (addTransactionInputs h kept is p)) = m_spentOutputs p \<union> (if kept then {} else set (outs_of is))"
  using assms
proof (induction "is" arbitrary: p)
  case Nil
  show ?case by (simp add: map_filter_simps)
next
  case (Cons i "is")
  note d = Cons.prems(1) and n = Cons.prems(2)
  show ?case
  proof (cases i)
    case (VKeyInput a)
    let ?k = "keyImage a"
    let ?p = "p\<lparr>m_spent_key_images := (m_spent_key_images p)(?k \<mapsto> insert h (spenders (m_spent_key_images p) ?k))\<rparr>"
    have im: "images_of (i # is) = ?k # images_of is" "outs_of (i # is) = outs_of is" by (simp_all add: VKeyInput map_filter_Cons)
    have step: "addTransactionInput h kept i p = (True, ?p)"
      using n im by (auto simp: VKeyInput addTransactionInput_def spenders_def Let_def split: option.splits)
    have d': "distinct (images_of is)" using d im by simp
    have s: "spenders (m_spent_key_images ?p) k = spenders (m_spent_key_images p) k" if "k \<in> set (images_of is)" for k
      using that d im by (auto simp: spenders_def)
    then have n': "\<forall>k \<in> set (images_of is). h \<notin> spenders (m_spent_key_images ?p) k \<and> (kept \<or> spenders (m_spent_key_images ?p) k = {})"
      using n im by simp
    note ih = conjunct1 [OF Cons.IH [OF d' n']] conjunct1 [OF conjunct2 [OF Cons.IH [OF d' n']]]
      conjunct2 [OF conjunct2 [OF Cons.IH [OF d' n']]]
    have "m_spent_key_images (snd (addTransactionInputs h kept (i # is) p)) k =
      (if k \<in> set (images_of (i # is)) then Some (insert h (spenders (m_spent_key_images p) k)) else m_spent_key_images p k)" for k
      using step ih(2) s [of k] d im by auto
    then show ?thesis using step ih im by auto
  next
    case (VMultisignatureInput a)
    have im: "images_of (i # is) = images_of is" "outs_of (i # is) = (mi_amount a, ucast (outputIndex a)) # outs_of is"
      by (simp_all add: VMultisignatureInput map_filter_Cons)
    let ?p = "if kept then p else p\<lparr>m_spentOutputs := insert (mi_amount a, ucast (outputIndex a)) (m_spentOutputs p)\<rparr>"
    have step: "addTransactionInput h kept i p = (True, ?p)" by (simp add: VMultisignatureInput addTransactionInput_def)
    have e: "m_spent_key_images ?p = m_spent_key_images p" by simp
    show ?thesis using Cons.IH [of ?p] step d n unfolding im e by auto
  next
    case (VBaseInput a)
    have im: "images_of (i # is) = images_of is" "outs_of (i # is) = outs_of is" by (simp_all add: VBaseInput map_filter_Cons)
    have step: "addTransactionInput h kept i p = (True, p)" by (simp add: VBaseInput addTransactionInput_def)
    show ?thesis using Cons.IH [of p] step d n unfolding im by simp
  qed
qed

lemma remove_inputs:
  assumes "distinct (images_of is)" and "\<forall>k \<in> set (images_of is). h \<in> spenders (m_spent_key_images p) k"
  shows "m_spent_key_images (snd (removeTransactionInputs h kept is p)) =
      (\<lambda>k. if k \<in> set (images_of is)
        then if spenders (m_spent_key_images p) k - {h} = {} then None else Some (spenders (m_spent_key_images p) k - {h})
        else m_spent_key_images p k) \<and>
    m_spentOutputs (snd (removeTransactionInputs h kept is p)) = m_spentOutputs p - (if kept then {} else set (outs_of is))"
  using assms
proof (induction "is" arbitrary: p)
  case Nil
  show ?case by (simp add: map_filter_simps)
next
  case (Cons i "is")
  show ?case
  proof (cases i)
    case (VKeyInput a)
    let ?k = "keyImage a"
    let ?S = "spenders (m_spent_key_images p) ?k - {h}"
    let ?p = "p\<lparr>m_spent_key_images := (m_spent_key_images p)(?k := (if ?S = {} then None else Some ?S))\<rparr>"
    have im: "images_of (i # is) = ?k # images_of is" "outs_of (i # is) = outs_of is" by (simp_all add: VKeyInput map_filter_Cons)
    obtain T where T: "m_spent_key_images p ?k = Some T" "h \<in> T"
      using Cons.prems(2) im by (auto simp: spenders_def split: option.splits)
    have step: "removeTransactionInput h kept i p = (True, ?p)"
      using T by (auto simp: VKeyInput removeTransactionInput_def spenders_def Let_def)
    have s: "spenders (m_spent_key_images ?p) k = spenders (m_spent_key_images p) k" if "k \<in> set (images_of is)" for k
      using that Cons.prems(1) im by (auto simp: spenders_def)
    have ih: "m_spent_key_images (snd (removeTransactionInputs h kept is ?p)) =
      (\<lambda>k. if k \<in> set (images_of is)
        then if spenders (m_spent_key_images ?p) k - {h} = {} then None else Some (spenders (m_spent_key_images ?p) k - {h})
        else m_spent_key_images ?p k) \<and>
      m_spentOutputs (snd (removeTransactionInputs h kept is ?p)) = m_spentOutputs ?p - (if kept then {} else set (outs_of is))"
    proof (rule Cons.IH)
      show "distinct (images_of is)" using Cons.prems(1) im by simp
      show "\<forall>k \<in> set (images_of is). h \<in> spenders (m_spent_key_images ?p) k"
        using Cons.prems(2) s unfolding im by (metis list.set_intros(2))
    qed
    have "m_spent_key_images (snd (removeTransactionInputs h kept (i # is) p)) k =
      (if k \<in> set (images_of (i # is))
        then if spenders (m_spent_key_images p) k - {h} = {} then None else Some (spenders (m_spent_key_images p) k - {h})
        else m_spent_key_images p k)" for k
      using step ih s [of k] Cons.prems(1) im by auto
    then show ?thesis using step ih im by auto
  next
    case (VMultisignatureInput a)
    have im: "images_of (i # is) = images_of is" "outs_of (i # is) = (mi_amount a, ucast (outputIndex a)) # outs_of is"
      by (simp_all add: VMultisignatureInput map_filter_Cons)
    let ?p = "if kept then p else p\<lparr>m_spentOutputs := m_spentOutputs p - {(mi_amount a, ucast (outputIndex a))}\<rparr>"
    have step: "removeTransactionInput h kept i p = (True, ?p)" by (simp add: VMultisignatureInput removeTransactionInput_def)
    have e: "m_spent_key_images ?p = m_spent_key_images p" by simp
    show ?thesis using Cons.IH [of ?p] step Cons.prems unfolding im e by auto
  next
    case (VBaseInput a)
    have im: "images_of (i # is) = images_of is" "outs_of (i # is) = outs_of is" by (simp_all add: VBaseInput map_filter_Cons)
    have step: "removeTransactionInput h kept i p = (True, p)" by (simp add: VBaseInput removeTransactionInput_def)
    show ?thesis using Cons.IH [of p] step Cons.prems unfolding im by simp
  qed
qed

section \<open>The invariant of the pool\<close>

text \<open>
  The maps of spent images and outputs are determined by the transactions: every image has the ids of the
  transactions that spend it, and the outputs are those spent by transactions that no block brought.
  Two different transactions that no block brought spend nothing in common.
\<close>

definition image_ids :: "TransactionDetails set \<Rightarrow> KeyImage \<Rightarrow> Hash set" where
  "image_ids D k = td_id ` {d \<in> D. k \<in> set (images_of (inputs (td_tx d)))}"

definition spent_of :: "TransactionDetails set \<Rightarrow> (KeyImage \<rightharpoonup> Hash set)" where
  "spent_of D k = (if image_ids D k = {} then None else Some (image_ids D k))"

definition outputs_of :: "TransactionDetails set \<Rightarrow> (u64 \<times> u64) set" where
  "outputs_of D = (\<Union>d \<in> {d \<in> D. \<not> keptByBlock d}. set (outs_of (inputs (td_tx d))))"

definition no_double_spend :: "TransactionDetails set \<Rightarrow> bool" where
  "no_double_spend D \<longleftrightarrow> (\<forall>d \<in> D. \<forall>e \<in> D. \<not> keptByBlock d \<longrightarrow> \<not> keptByBlock e \<longrightarrow> d \<noteq> e \<longrightarrow>
    spends (td_tx d) \<inter> spends (td_tx e) = {})"

definition stamp :: "TransactionDetails \<Rightarrow> u64 \<times> Hash" where
  "stamp d = (receiveTime d, td_id d)"

definition pool_inv :: "tx_memory_pool \<Rightarrow> bool" where
  "pool_inv p \<longleftrightarrow> distinct (map td_id (m_transactions p))
    \<and> (\<forall>d \<in> set (m_transactions p). distinct (images_of (inputs (td_tx d))))
    \<and> m_spent_key_images p = spent_of (set (m_transactions p))
    \<and> m_spentOutputs p = outputs_of (set (m_transactions p))
    \<and> no_double_spend (set (m_transactions p))
    \<and> mset (ti_index (m_timestampIndex p)) = mset (map stamp (m_transactions p))
    \<and> timestamps_ok (m_timestampIndex p)"

lemma pool_inv_new: "pool_inv new_pool"
  by (simp add: pool_inv_def new_pool_def spent_of_def outputs_of_def image_ids_def no_double_spend_def timestamps_ok_def fun_eq_iff)

lemma spenders_spent_of [simp]: "spenders (spent_of D) k = image_ids D k"
  by (simp add: spenders_def spent_of_def)

lemma set_priority_insert [simp]: "set (priority_insert d ds) = insert d (set ds)"
  by (induction ds) auto

lemma mset_priority_insert: "mset (priority_insert d ds) = add_mset d (mset ds)"
  by (induction ds) auto

lemma distinct_priority_insert: "distinct (map f (priority_insert d ds)) \<longleftrightarrow> f d \<notin> f ` set ds \<and> distinct (map f ds)"
  by (induction ds) auto

lemma image_ids_insert:
  "image_ids (insert d D) k = (if k \<in> set (images_of (inputs (td_tx d))) then insert (td_id d) (image_ids D k) else image_ids D k)"
  by (auto simp: image_ids_def)

lemma set_map_filter_option: "set (List.map_filter f xs) = (\<Union>x \<in> set xs. set_option (f x))"
  by (induction xs) (auto simp: map_filter_simps split: option.splits)

lemma haveSpentInputs_iff:
  "haveSpentInputs tx p \<longleftrightarrow> (\<exists>k \<in> set (images_of (inputs tx)). m_spent_key_images p k \<noteq> None)
    \<or> (\<exists>o' \<in> set (outs_of (inputs tx)). o' \<in> m_spentOutputs p)"
proof -
  have "input_spent p i \<longleftrightarrow> (\<exists>k \<in> set_option (input_image i). m_spent_key_images p k \<noteq> None) \<or> (\<exists>o' \<in> set_option (input_output i). o' \<in> m_spentOutputs p)" for i
    by (cases i) auto
  then show ?thesis unfolding haveSpentInputs_def list_ex_iff set_map_filter_option by blast
qed

lemma spends_disjoint:
  "spends a \<inter> spends b = {} \<longleftrightarrow> set (images_of (inputs a)) \<inter> set (images_of (inputs b)) = {}
    \<and> set (outs_of (inputs a)) \<inter> set (outs_of (inputs b)) = {}"
  by (auto simp: spends_def)

section \<open>Adding a transaction keeps the invariant\<close>

text \<open>A transaction no block brought, with nothing spent in the pool, shares no input with those of the pool.\<close>

lemma not_spent_fresh:
  assumes "pool_inv p" and "\<not> haveSpentInputs tx p" and "e \<in> set (m_transactions p)"
  shows "set (images_of (inputs tx)) \<inter> set (images_of (inputs (td_tx e))) = {}"
    and "\<not> keptByBlock e \<Longrightarrow> set (outs_of (inputs tx)) \<inter> set (outs_of (inputs (td_tx e))) = {}"
    and "k \<in> set (images_of (inputs tx)) \<Longrightarrow> image_ids (set (m_transactions p)) k = {}"
proof -
  have "m_spent_key_images p = spent_of (set (m_transactions p))" "m_spentOutputs p = outputs_of (set (m_transactions p))"
    using assms(1) by (auto simp: pool_inv_def)
  note h = assms(2) [unfolded haveSpentInputs_iff this]
  show i: "k \<in> set (images_of (inputs tx)) \<Longrightarrow> image_ids (set (m_transactions p)) k = {}" for k
    using h by (auto simp: spent_of_def split: if_splits)
  show "set (images_of (inputs tx)) \<inter> set (images_of (inputs (td_tx e))) = {}"
    using i assms(3) by (auto simp: image_ids_def)
  show "\<not> keptByBlock e \<Longrightarrow> set (outs_of (inputs tx)) \<inter> set (outs_of (inputs (td_tx e))) = {}"
    using h assms(3) by (auto simp: outputs_of_def)
qed

lemma add_to_pool_ok:
  assumes inv: "pool_inv p" and new: "td_id d \<notin> td_id ` set (m_transactions p)"
    and dist: "distinct (images_of (inputs (td_tx d)))"
    and fresh: "keptByBlock d \<or> \<not> haveSpentInputs (td_tx d) p"
  shows "\<exists>tvc' p'. add_to_pool d valid isFusion tvc p = (True, tvc', p') \<and> pool_inv p'
    \<and> m_transactions p' = priority_insert d (m_transactions p)
    \<and> m_added_to_pool tvc' \<and> \<not> m_verifivation_failed tvc' \<and> m_paymentIdIndex p' = m_paymentIdIndex p
    \<and> m_recentlyDeletedTransactions p' = m_recentlyDeletedTransactions p"
proof -
  let ?D = "set (m_transactions p)" and ?is = "inputs (td_tx d)" and ?h = "td_id d"
  define q where "q = p\<lparr>m_transactions := priority_insert d (m_transactions p),
    m_paymentIdIndex := snd (payment_add (moved_from (td_tx d)) (m_paymentIdIndex p)),
    m_timestampIndex := snd (timestamp_add (receiveTime d) (td_id d) (m_timestampIndex p))\<rparr>"
  have spent: "m_spent_key_images q = spent_of ?D" "m_spentOutputs q = outputs_of ?D"
    using inv by (simp_all add: q_def pool_inv_def)
  have "?h \<notin> image_ids ?D k" for k using new by (auto simp: image_ids_def)
  moreover have "keptByBlock d \<or> image_ids ?D k = {}" if "k \<in> set (images_of ?is)" for k
    using fresh not_spent_fresh(3) [OF inv, of "td_tx d" _ k] that by (cases "m_transactions p") (auto simp: image_ids_def)
  ultimately have n: "\<forall>k \<in> set (images_of ?is). ?h \<notin> spenders (m_spent_key_images q) k \<and> (keptByBlock d \<or> spenders (m_spent_key_images q) k = {})"
    by (simp add: spent)
  note loop = add_inputs [OF dist n]
  obtain r p' where p': "addTransactionInputs ?h (keptByBlock d) ?is q = (r, p')" by fastforce
  with add_inputs_frame [of ?h "keptByBlock d" ?is q] obtain m o' where fr: "p' = q\<lparr>m_spent_key_images := m, m_spentOutputs := o'\<rparr>" by auto
  have r: "r" using loop p' by simp
  have m: "m_spent_key_images p' = spent_of (insert d ?D)"
  proof
    fix k
    have "m_spent_key_images p' k = (if k \<in> set (images_of ?is) then Some (insert ?h (image_ids ?D k)) else spent_of ?D k)"
      using loop p' by (simp add: spent)
    then show "m_spent_key_images p' k = spent_of (insert d ?D) k" by (simp add: spent_of_def image_ids_insert)
  qed
  have o: "m_spentOutputs p' = outputs_of (insert d ?D)"
    using loop p' spent by (auto simp: outputs_of_def)
  have nds: "no_double_spend (insert d ?D)"
  proof (cases "keptByBlock d")
    case True
    then show ?thesis using inv by (auto simp: no_double_spend_def pool_inv_def)
  next
    case False
    with fresh have f: "\<not> haveSpentInputs (td_tx d) p" by simp
    have "spends (td_tx d) \<inter> spends (td_tx e) = {}" if "e \<in> ?D" "\<not> keptByBlock e" for e
      unfolding spends_disjoint using not_spent_fresh(1,2) [OF inv f that(1)] that(2) by blast
    then show ?thesis using inv unfolding no_double_spend_def pool_inv_def by (metis Int_commute insert_iff)
  qed
  have "pool_inv p'"
    using inv new dist nds m o timestamp_add_ok [of "m_timestampIndex p" "receiveTime d" "td_id d"]
    by (auto simp: pool_inv_def fr q_def distinct_priority_insert mset_priority_insert timestamp_add_def multimap_emplace_mset stamp_def)
  moreover have "payment_add (moved_from (td_tx d)) i = (False, i)" for i
    by (simp add: payment_add_def getPaymentId_def moved_from_def parseTransactionExtra_def Let_def)
  ultimately show ?thesis
    using new p' r by (simp add: add_to_pool_def container_insert_def q_def [symmetric]) (simp add: fr q_def)
qed

section \<open>Removing a transaction keeps the invariant\<close>

lemma image_ids_remove:
  assumes "distinct (map td_id ds)" and "d \<in> set ds"
  shows "image_ids {e \<in> set ds. td_id e \<noteq> td_id d} k = image_ids (set ds) k - {td_id d}"
  by (auto simp: image_ids_def)

lemma unique_id: "distinct (map td_id ds) \<Longrightarrow> d \<in> set ds \<Longrightarrow> e \<in> set ds \<Longrightarrow> td_id e = td_id d \<Longrightarrow> e = d"
  by (auto simp: distinct_map inj_on_def)

lemma filter_other_ids:
  assumes "distinct (map td_id ds)" and "d \<in> set ds"
  shows "filter (\<lambda>e. td_id e \<noteq> td_id d) ds = remove1 d ds"
proof -
  from assms(2) obtain ys zs where ds: "ds = ys @ d # zs" "d \<notin> set ys" by (meson split_list_first)
  then have "filter (\<lambda>e. td_id e \<noteq> td_id d) ys = ys" "filter (\<lambda>e. td_id e \<noteq> td_id d) zs = zs"
    using assms(1) by (auto simp: filter_id_conv) (metis imageI)+
  then show ?thesis using ds by (simp add: remove1_append)
qed

lemma outputs_remove:
  assumes "distinct (map td_id ds)" and "d \<in> set ds" and "no_double_spend (set ds)" and "\<not> keptByBlock d"
  shows "outputs_of {e \<in> set ds. td_id e \<noteq> td_id d} = outputs_of (set ds) - set (outs_of (inputs (td_tx d)))"
proof -
  have "set (outs_of (inputs (td_tx d))) \<inter> set (outs_of (inputs (td_tx e))) = {}"
    if "e \<in> set ds" "td_id e \<noteq> td_id d" "\<not> keptByBlock e" for e
  proof -
    have "d \<noteq> e" using that(2) by auto
    then have "spends (td_tx d) \<inter> spends (td_tx e) = {}" using assms(2,3,4) that by (auto simp: no_double_spend_def)
    then show ?thesis by (simp add: spends_disjoint)
  qed
  then show ?thesis using unique_id [OF assms(1,2)] by (fastforce simp: outputs_of_def)
qed

lemma removeTransaction_ok:
  assumes inv: "pool_inv p" and d: "d \<in> set (m_transactions p)"
  shows "pool_inv (removeTransaction d p)"
    and "m_transactions (removeTransaction d p) = remove1 d (m_transactions p)"
    and "m_recentlyDeletedTransactions (removeTransaction d p) = m_recentlyDeletedTransactions p"
    and "m_observerManager (removeTransaction d p) = m_observerManager p"
proof -
  let ?ds = "m_transactions p" and ?is = "inputs (td_tx d)" and ?h = "td_id d"
  have i: "distinct (map td_id ?ds)" "distinct (images_of ?is)" "m_spent_key_images p = spent_of (set ?ds)"
      "m_spentOutputs p = outputs_of (set ?ds)" "no_double_spend (set ?ds)"
      "mset (ti_index (m_timestampIndex p)) = mset (map stamp ?ds)" "timestamps_ok (m_timestampIndex p)"
      "\<forall>d \<in> set ?ds. distinct (images_of (inputs (td_tx d)))"
    using inv d by (auto simp: pool_inv_def)
  have n: "\<forall>k \<in> set (images_of ?is). ?h \<in> spenders (m_spent_key_images p) k"
    unfolding i(3) using d by (auto simp: image_ids_def)
  define q where "q = snd (removeTransactionInputs ?h (keptByBlock d) ?is p)"
  obtain m o' where fr: "q = p\<lparr>m_spent_key_images := m, m_spentOutputs := o'\<rparr>"
    using remove_inputs_frame [of ?h "keptByBlock d" ?is p] by (auto simp: q_def)
  have r: "removeTransaction d p = q\<lparr>m_paymentIdIndex := snd (payment_remove (td_tx d) (m_paymentIdIndex q)),
      m_timestampIndex := snd (timestamp_remove (receiveTime d) ?h (m_timestampIndex q)),
      m_transactions := remove1 d ?ds\<rparr>"
    by (simp add: removeTransaction_def q_def [symmetric] Let_def filter_other_ids [OF i(1) d, symmetric]) (simp add: fr)
  then show t: "m_transactions (removeTransaction d p) = remove1 d ?ds"
    and "m_recentlyDeletedTransactions (removeTransaction d p) = m_recentlyDeletedTransactions p"
    and "m_observerManager (removeTransaction d p) = m_observerManager p"
    by (simp_all add: fr)
  note loop = remove_inputs [OF i(2) n, of "keptByBlock d", folded q_def]
  let ?E = "{e \<in> set ?ds. td_id e \<noteq> ?h}"
  have E: "set (remove1 d ?ds) = ?E" by (simp flip: filter_other_ids [OF i(1) d])
  have "m_spent_key_images q k = spent_of ?E k" for k
  proof -
    have "m_spent_key_images q k = (if k \<in> set (images_of ?is)
        then if image_ids (set ?ds) k - {?h} = {} then None else Some (image_ids (set ?ds) k - {?h}) else spent_of (set ?ds) k)"
      using loop by (simp add: i(3))
    moreover have "image_ids (set ?ds) k - {?h} = image_ids (set ?ds) k" if "k \<notin> set (images_of ?is)"
      using that unique_id [OF i(1) d] by (auto simp: image_ids_def)
    ultimately show ?thesis by (auto simp: spent_of_def image_ids_remove [OF i(1) d])
  qed
  then have 1: "m_spent_key_images q = spent_of ?E" by blast
  have 2: "m_spentOutputs q = outputs_of ?E"
  proof (cases "keptByBlock d")
    case True
    then have "outputs_of ?E = outputs_of (set ?ds)" using unique_id [OF i(1) d] by (auto simp: outputs_of_def)
    then show ?thesis using loop True i(4) by simp
  next
    case False
    then show ?thesis using loop i(4) outputs_remove [OF i(1) d i(5) False] by simp
  qed
  have 3: "mset (ti_index (m_timestampIndex (removeTransaction d p))) = mset (map stamp (remove1 d ?ds))"
    using d i(6) by (simp add: r fr timestamp_remove_def Let_def split_beta stamp_def image_mset_Diff)
  have 4: "no_double_spend ?E" using i(5) by (simp add: no_double_spend_def)
  have 5: "distinct (map td_id (remove1 d ?ds))"
    using i(1) by (simp flip: filter_other_ids [OF i(1) d] add: distinct_map_filter)
  have 6: "\<forall>e \<in> ?E. distinct (images_of (inputs (td_tx e)))" using i(8) by blast
  have 7: "timestamps_ok (m_timestampIndex (removeTransaction d p))"
    using timestamp_remove_ok [OF i(7), of "receiveTime d" ?h] by (simp add: r fr)
  have 8: "m_spent_key_images (removeTransaction d p) = spent_of ?E" "m_spentOutputs (removeTransaction d p) = outputs_of ?E"
    using 1 2 by (simp_all add: r)
  show "pool_inv (removeTransaction d p)"
    unfolding pool_inv_def t E using 3 4 5 6 7 8 by blast
qed

section \<open>The operations\<close>

text \<open>When a transaction gets as far as the container, and the entry that is made for it.\<close>

definition pool_fee :: "Transaction \<Rightarrow> u64" where
  "pool_fee tx = get_inputs_money_amount tx - get_outs_money_amount tx"

definition pool_fusion :: "currency \<Rightarrow> Transaction \<Rightarrow> u64 \<Rightarrow> bool" where
  "pool_fusion c tx sz \<longleftrightarrow> pool_fee tx = 0 \<and> isFusionTransaction_size c tx (unat sz)"

definition accepts :: "currency \<Rightarrow> ITransactionValidator \<Rightarrow> Transaction \<Rightarrow> Hash \<Rightarrow> u64 \<Rightarrow> bool \<Rightarrow> tx_memory_pool \<Rightarrow> bool" where
  "accepts c v tx h sz kept p \<longleftrightarrow> check_inputs_types_supported tx \<and> get_outs_money_amount tx \<le> get_inputs_money_amount tx
    \<and> (kept \<or> (pool_fusion c tx sz \<or> m_mininumFee c \<le> pool_fee tx) \<and> \<not> haveSpentInputs tx p
      \<and> fst (checkTransactionInputs v tx BlockInfo_clear) \<and> checkTransactionSize v sz \<and> m_recentlyDeletedTransactions p h = None)"

definition pool_entry :: "ITransactionValidator \<Rightarrow> u64 \<Rightarrow> Transaction \<Rightarrow> Hash \<Rightarrow> u64 \<Rightarrow> bool \<Rightarrow> TransactionDetails" where
  "pool_entry v now tx h sz kept =
    \<lparr>maxUsedBlock = (let (ok, b) = checkTransactionInputs v tx BlockInfo_clear in if ok then b else BlockInfo_clear),
      lastFailedBlock = BlockInfo_clear, td_id = h, td_tx = tx, blobSize = sz, td_fee = pool_fee tx, keptByBlock = kept,
      receiveTime = now\<rparr>"

lemma add_tx_accepted:
  assumes "accepts c v tx h sz kept p"
  shows "\<exists>valid tvc'. add_tx c v now tx h sz tvc kept p = add_to_pool (pool_entry v now tx h sz kept) valid (pool_fusion c tx sz) tvc' p"
proof (cases "fst (checkTransactionInputs v tx BlockInfo_clear)")
  case True
  with assms have "add_tx c v now tx h sz tvc kept p = add_to_pool (pool_entry v now tx h sz kept) True (pool_fusion c tx sz) tvc p"
    by (auto simp: accepts_def add_tx_def pool_entry_def pool_fee_def pool_fusion_def Let_def split_beta not_less)
  then show ?thesis by blast
next
  case False
  with assms have "add_tx c v now tx h sz tvc kept p =
      add_to_pool (pool_entry v now tx h sz kept) False (pool_fusion c tx sz) (tvc\<lparr>m_verifivation_impossible := True\<rparr>) p"
    by (auto simp: accepts_def add_tx_def pool_entry_def pool_fee_def pool_fusion_def Let_def split_beta not_less)
  then show ?thesis by blast
qed

lemma add_tx_refused:
  assumes "\<not> accepts c v tx h sz kept p" and "add_tx c v now tx h sz tvc kept p = (r, tvc', p')"
  shows "p' = p \<and> (r \<longrightarrow> \<not> m_added_to_pool tvc')"
  using assms by (auto simp: accepts_def add_tx_def pool_fee_def pool_fusion_def Let_def split_beta not_less not_le split: if_splits)

text \<open>
  The outcome of \<open>add_tx\<close>, for a transaction that spends no image twice: it is put into the pool at its
  place, or the pool does not change.
\<close>

lemma add_tx_cases:
  assumes inv: "pool_inv p" and dist: "distinct (images_of (inputs tx))" and add: "add_tx c v now tx h sz tvc kept p = (r, tvc', p')"
  shows "if accepts c v tx h sz kept p \<and> \<not> have_tx h p
    then r \<and> m_added_to_pool tvc' \<and> \<not> m_verifivation_failed tvc' \<and> pool_inv p'
      \<and> m_transactions p' = priority_insert (pool_entry v now tx h sz kept) (m_transactions p)
      \<and> m_paymentIdIndex p' = m_paymentIdIndex p \<and> m_recentlyDeletedTransactions p' = m_recentlyDeletedTransactions p
    else p' = p"
proof (cases "accepts c v tx h sz kept p")
  case True
  let ?d = "pool_entry v now tx h sz kept"
  have d: "td_id ?d = h" "td_tx ?d = tx" "keptByBlock ?d = kept" by (simp_all add: pool_entry_def)
  from add_tx_accepted [OF True, of now tvc] add obtain valid t where
    a: "add_to_pool ?d valid (pool_fusion c tx sz) t p = (r, tvc', p')" by auto
  show ?thesis
  proof (cases "have_tx h p")
    case known: True
    then show ?thesis using a d by (simp add: add_to_pool_def container_insert_def have_tx_def)
  next
    case False
    moreover have "kept \<or> \<not> haveSpentInputs tx p" using True by (auto simp: accepts_def)
    ultimately show ?thesis using add_to_pool_ok [OF inv, of ?d valid "pool_fusion c tx sz" t] a d dist True by (auto simp: have_tx_def)
  qed
qed (use add_tx_refused [OF _ add] in simp)

lemma add_tx_inv:
  "pool_inv p \<Longrightarrow> distinct (images_of (inputs tx)) \<Longrightarrow> add_tx c v now tx h sz tvc kept p = (r, tvc', p') \<Longrightarrow> pool_inv p'"
  using add_tx_cases [of p tx c v now h sz tvc kept r tvc' p'] by (auto split: if_splits)

lemma take_tx_ok:
  assumes inv: "pool_inv p"
  shows "if have_tx h p
    then \<exists>d p'. d \<in> set (m_transactions p) \<and> td_id d = h \<and> take_tx h p = (Some (td_tx d, blobSize d, td_fee d), p')
      \<and> pool_inv p' \<and> m_transactions p' = remove1 d (m_transactions p) \<and> \<not> have_tx h p'
    else take_tx h p = (None, p)"
proof (cases "have_tx h p")
  case True
  then obtain d where f: "find (\<lambda>d. td_id d = h) (m_transactions p) = Some d"
    by (cases "find (\<lambda>d. td_id d = h) (m_transactions p)") (auto simp: find_None_iff have_tx_def)
  then have d: "d \<in> set (m_transactions p)" "td_id d = h" by (auto simp: find_Some_iff)
  note ok = removeTransaction_ok(1,2) [OF inv d(1)]
  have "distinct (map td_id (m_transactions p))" using inv by (simp add: pool_inv_def)
  then have "td_id d \<notin> td_id ` set (remove1 d (m_transactions p))" by (auto simp flip: filter_other_ids [OF _ d(1)])
  then have "\<not> have_tx h (removeTransaction d p)" using ok(2) d(2) by (simp add: have_tx_def)
  then show ?thesis using True d ok f by (auto simp: take_tx_def)
next
  case False
  then have "find (\<lambda>d. td_id d = h) (m_transactions p) = None" by (auto simp: find_None_iff have_tx_def)
  with False show ?thesis by (simp add: take_tx_def)
qed

section \<open>Expiry\<close>

lemma pool_inv_deleted [simp]: "pool_inv (p\<lparr>m_recentlyDeletedTransactions := m\<rparr>) \<longleftrightarrow> pool_inv p"
  by (simp add: pool_inv_def)

lemma remove1_filter_neq: "distinct xs \<Longrightarrow> filter P (remove1 x xs) = filter (\<lambda>y. P y \<and> y \<noteq> x) xs"
  by (auto simp: distinct_remove1_removeAll removeAll_filter_not_eq intro: filter_cong)

lemma remove_expired_ok:
  assumes "pool_inv p" and "distinct xs" and "set xs \<subseteq> set (m_transactions p)" and "remove_expired c now xs p = (r, p')"
  shows "pool_inv p' \<and> m_transactions p' = filter (\<lambda>d. \<not> (d \<in> set xs \<and> expired c now d)) (m_transactions p)
    \<and> (r \<longleftrightarrow> (\<exists>d \<in> set xs. expired c now d)) \<and> m_observerManager p' = m_observerManager p
    \<and> (\<forall>h. m_recentlyDeletedTransactions p' h \<noteq> None \<longleftrightarrow>
        m_recentlyDeletedTransactions p h \<noteq> None \<or> (\<exists>d \<in> set xs. expired c now d \<and> td_id d = h))"
  using assms
proof (induction xs arbitrary: p r p')
  case (Cons d ds)
  show ?case
  proof (cases "expired c now d")
    case True
    define q where "q = p\<lparr>m_recentlyDeletedTransactions := remember_deleted (td_id d) now (m_recentlyDeletedTransactions p)\<rparr>"
    have q: "pool_inv q" "d \<in> set (m_transactions q)" using Cons.prems by (simp_all add: q_def)
    note rm = removeTransaction_ok [OF q]
    obtain r1 where r1: "remove_expired c now ds (removeTransaction d q) = (r1, p')" "r"
      using Cons.prems(4) True by (auto simp: q_def Let_def split_beta prod_eq_iff)
    have dist: "distinct (m_transactions q)" using q(1) by (auto simp: pool_inv_def distinct_map)
    have sub: "set ds \<subseteq> set (m_transactions (removeTransaction d q))"
      using Cons.prems(2,3) rm(2) dist by (auto simp: q_def)
    note ih = Cons.IH [OF rm(1) _ sub r1(1)]
    have "m_transactions p' = filter (\<lambda>e. \<not> (e \<in> set (d # ds) \<and> expired c now e)) (m_transactions p)"
      using ih Cons.prems(2) rm(2) dist True by (auto simp: remove1_filter_neq q_def intro: filter_cong)
    then show ?thesis using ih Cons.prems(2) rm True r1(2) by (auto simp: q_def remember_deleted_def)
  next
    case False
    then show ?thesis using Cons.IH [of p r p'] Cons.prems by (auto intro: filter_cong)
  qed
qed simp

lemma removeExpired_ok:
  assumes "pool_inv p" and "removeExpiredTransactions c now p = (r, notified, p')"
  shows "r \<and> pool_inv p' \<and> m_transactions p' = filter (\<lambda>d. \<not> expired c now d) (m_transactions p)
    \<and> notified = (if \<exists>d \<in> set (m_transactions p). expired c now d then m_observers (m_observerManager p) else [])
    \<and> (\<forall>d \<in> set (m_transactions p). expired c now d \<longrightarrow> m_recentlyDeletedTransactions p' (td_id d) \<noteq> None)"
proof -
  define q where "q = p\<lparr>m_recentlyDeletedTransactions := forget_deleted c now (m_recentlyDeletedTransactions p)\<rparr>"
  obtain s where s: "remove_expired c now (m_transactions q) q = (s, p')"
    and n: "r" "notified = (if s then m_observers (m_observerManager p') else [])"
    using assms(2) by (auto simp: removeExpiredTransactions_def q_def Let_def split_beta prod_eq_iff)
  have q: "pool_inv q" "distinct (m_transactions q)" using assms(1) by (auto simp: q_def pool_inv_def distinct_map)
  from remove_expired_ok [OF q order_refl s] n show ?thesis by (auto simp: q_def intro: filter_cong)
qed

section \<open>The choice of transactions for a block\<close>

definition template_used :: "BlockTemplate \<Rightarrow> (KeyImage + u64 \<times> u64) set" where
  "template_used t = Inl ` m_keyImages t \<union> Inr ` m_usedOutputs t"

definition disjoint_spends :: "TransactionDetails \<Rightarrow> TransactionDetails \<Rightarrow> bool" where
  "disjoint_spends d e \<longleftrightarrow> spends (td_tx d) \<inter> spends (td_tx e) = {}"

definition template_of :: "BlockTemplate \<Rightarrow> TransactionDetails list \<Rightarrow> bool" where
  "template_of t ds \<longleftrightarrow> m_txHashes t = map td_id ds \<and> template_used t = (\<Union>d \<in> set ds. spends (td_tx d)) \<and> sorted_wrt disjoint_spends ds"

lemma spends_inputs: "spends tx = (\<Union>i \<in> set (inputs tx). Inl ` set_option (input_image i) \<union> Inr ` set_option (input_output i))"
  by (simp add: spends_def set_map_filter_option image_UN UN_Un_distrib)

lemma input_used_iff: "input_used t i \<longleftrightarrow> (Inl ` set_option (input_image i) \<union> Inr ` set_option (input_output i)) \<inter> template_used t \<noteq> {}"
  by (cases i) (auto simp: template_used_def)

lemma canAdd_iff: "canAdd tx t \<longleftrightarrow> spends tx \<inter> template_used t = {}"
  by (auto simp: canAdd_def list_ex_iff input_used_iff spends_inputs)

lemma used_fold: "template_used (fold use_input is t) = template_used t \<union> (\<Union>i \<in> set is. Inl ` set_option (input_image i) \<union> Inr ` set_option (input_output i))"
proof (induction "is" arbitrary: t)
  case (Cons i "is")
  have "template_used (use_input i t) = template_used t \<union> Inl ` set_option (input_image i) \<union> Inr ` set_option (input_output i)"
    by (cases i) (auto simp: template_used_def)
  with Cons show ?case by auto
qed simp

lemma hashes_fold [simp]: "m_txHashes (fold use_input is t) = m_txHashes t"
proof (induction "is" arbitrary: t)
  case (Cons i "is")
  have "m_txHashes (use_input i t) = m_txHashes t" by (cases i) auto
  with Cons show ?case by simp
qed simp

lemma template_new: "template_of new_BlockTemplate []"
  by (simp add: template_of_def new_BlockTemplate_def template_used_def)

lemma template_add:
  assumes "template_of t ds" and "addTransaction (td_id d) (td_tx d) t = (added, t')"
  shows "if added then template_of t' (ds @ [d]) else t' = t"
proof (cases "canAdd (td_tx d) t")
  case True
  have "template_used (t\<lparr>m_txHashes := hs\<rparr>) = template_used t" for t hs by (simp add: template_used_def)
  moreover have "\<forall>e \<in> set ds. disjoint_spends e d" using True assms(1) by (auto simp: canAdd_iff template_of_def disjoint_spends_def)
  moreover have "template_used (fold use_input (inputs (td_tx d)) t) = template_used t \<union> spends (td_tx d)" by (simp add: used_fold spends_inputs)
  ultimately show ?thesis using True assms
    by (auto simp: addTransaction_def template_of_def Let_def sorted_wrt_append)
qed (use assms in \<open>simp add: addTransaction_def\<close>)

text \<open>What a loop has chosen: ready transactions from a list, with their sizes summed up.\<close>

definition chosen :: "ITransactionValidator \<Rightarrow> TransactionDetails list \<Rightarrow> TransactionDetails list \<Rightarrow> bool" where
  "chosen v xs ds \<longleftrightarrow> set ds \<subseteq> set xs \<and> (\<forall>d \<in> set ds. ready v d)"

lemma chosen_Nil [simp]: "chosen v xs []"
  by (simp add: chosen_def)

lemma chosen_skip: "chosen v xs ds \<Longrightarrow> chosen v (x # xs) ds"
  by (auto simp: chosen_def)

lemma chosen_take: "chosen v xs ds \<Longrightarrow> ready v x \<Longrightarrow> chosen v (x # xs) (x # ds)"
  by (auto simp: chosen_def)

lemma fill_fusion_ok:
  assumes "template_of t ds" and "fill_fusion c v xs tot t = (tot', t')"
  shows "\<exists>es. template_of t' (ds @ es) \<and> chosen v xs es \<and> tot' = tot + sum_list (map blobSize es)
    \<and> (\<forall>e \<in> set es. td_fee e = 0) \<and> (unat tot \<le> m_fusionTxMaxSize c \<longrightarrow> unat tot' \<le> m_fusionTxMaxSize c)"
  using assms
proof (induction xs arbitrary: tot t ds)
  case Nil
  then show ?case by (intro exI [of _ "[]"]) simp
next
  case (Cons x xs)
  show ?case
  proof (cases "td_fee x = 0 \<and> \<not> m_fusionTxMaxSize c < unat (tot + blobSize x) \<and> ready v x \<and> canAdd (td_tx x) t")
    case True
    obtain u where u: "addTransaction (td_id x) (td_tx x) t = (True, u)" using True by (simp add: addTransaction_def Let_def)
    have f: "fill_fusion c v xs (tot + blobSize x) u = (tot', t')" using Cons.prems(2) True u by simp
    have "template_of u (ds @ [x])" using template_add [OF Cons.prems(1) u] by simp
    from Cons.IH [OF this f] obtain es where "template_of t' ((ds @ [x]) @ es)" "chosen v xs es"
        "tot' = tot + blobSize x + sum_list (map blobSize es)" "\<forall>e \<in> set es. td_fee e = 0"
        "unat (tot + blobSize x) \<le> m_fusionTxMaxSize c \<longrightarrow> unat tot' \<le> m_fusionTxMaxSize c" by blast
    then show ?thesis using True by (intro exI [of _ "x # es"]) (simp add: chosen_take add.assoc)
  next
    case F: False
    show ?thesis
    proof (cases "td_fee x = 0")
      case True
      with F have "fill_fusion c v xs tot t = (tot', t')" using Cons.prems(2) by (auto simp: addTransaction_def split: if_splits)
      from Cons.IH [OF Cons.prems(1) this] show ?thesis by (auto intro: chosen_skip)
    next
      case False
      then show ?thesis using Cons.prems by (intro exI [of _ "[]"]) simp
    qed
  qed
qed

text \<open>The pool keeps its transactions, only the results of the checks change.\<close>

definition rechecked :: "TransactionDetails \<Rightarrow> TransactionDetails \<Rightarrow> bool" where
  "rechecked d e \<longleftrightarrow> (\<exists>m l. e = d\<lparr>maxUsedBlock := m, lastFailedBlock := l\<rparr>)"

lemma rechecked_refl [simp]: "rechecked d d"
proof -
  have "d = d\<lparr>maxUsedBlock := maxUsedBlock d, lastFailedBlock := lastFailedBlock d\<rparr>" by simp
  then show ?thesis unfolding rechecked_def by blast
qed

lemma fill_by_price_ok:
  assumes "template_of t ds" and "fill_by_price v med mx xs tot fee t = (tot', fee', t', xs')"
  shows "list_all2 rechecked xs xs' \<and> (\<exists>es. template_of t' (ds @ es) \<and> chosen v xs es
    \<and> tot' = tot + sum_list (map blobSize es) \<and> fee' = fee + sum_list (map td_fee es) \<and> tot' \<le> max tot (max med mx))"
  using assms
proof (induction xs arbitrary: tot fee t ds xs')
  case Nil
  then show ?case by (auto intro: exI [of _ "[]"])
next
  case (Cons x xs)
  define lim where "lim = (if td_fee x = 0 then med else mx)"
  obtain rdy ci where ci: "is_transaction_ready_to_go v (td_tx x) (TransactionCheckInfo.truncate x) = (rdy, ci)" by fastforce
  have rdy: "ready v x \<longleftrightarrow> rdy" by (simp add: ready_def ci)
  define y where "y = x\<lparr>maxUsedBlock := maxUsedBlock ci, lastFailedBlock := lastFailedBlock ci\<rparr>"
  have y: "td_id y = td_id x" "td_tx y = td_tx x" "blobSize y = blobSize x" "td_fee y = td_fee x" "rechecked x y"
    by (auto simp: y_def rechecked_def)
  show ?case
  proof (cases "\<not> lim < tot + blobSize x \<and> rdy \<and> canAdd (td_tx x) t")
    case True
    obtain u where u: "addTransaction (td_id x) (td_tx x) t = (True, u)" using True by (simp add: addTransaction_def Let_def)
    obtain a1 a2 a3 ys where a: "fill_by_price v med mx xs (tot + blobSize x) (fee + td_fee x) u = (a1, a2, a3, ys)" by (metis prod_cases4)
    then have f: "fill_by_price v med mx xs (tot + blobSize x) (fee + td_fee x) u = (tot', fee', t', ys)" "xs' = y # ys"
      using Cons.prems(2) True u by (simp_all add: ci y_def [symmetric] y Let_def lim_def)
    have "template_of u (ds @ [x])" using template_add [OF Cons.prems(1) u] by simp
    from Cons.IH [OF this f(1)] obtain es where es: "list_all2 rechecked xs ys" "template_of t' ((ds @ [x]) @ es)" "chosen v xs es"
        "tot' = tot + blobSize x + sum_list (map blobSize es)" "fee' = fee + td_fee x + sum_list (map td_fee es)"
        "tot' \<le> max (tot + blobSize x) (max med mx)" by blast
    have "tot + blobSize x \<le> max med mx" using True by (auto simp: lim_def le_max_iff_disj not_less split: if_splits)
    then have b: "tot' \<le> max tot (max med mx)" using es(6) by (metis max.absorb2 max.coboundedI2)
    have "template_of t' (ds @ x # es) \<and> chosen v (x # xs) (x # es) \<and> tot' = tot + sum_list (map blobSize (x # es))
        \<and> fee' = fee + sum_list (map td_fee (x # es)) \<and> tot' \<le> max tot (max med mx)"
      using es(2-5) b True rdy by (simp add: chosen_take add.assoc)
    then show ?thesis using es(1) f(2) y(5) by blast
  next
    case False
    obtain a1 a2 a3 ys where a: "fill_by_price v med mx xs tot fee t = (a1, a2, a3, ys)" by (metis prod_cases4)
    have "fill_by_price v med mx (x # xs) tot fee t = (a1, a2, a3, (if lim < tot + blobSize x then x else y) # ys)"
      using False a by (auto simp: ci y_def [symmetric] y Let_def lim_def addTransaction_def)
    then obtain z where f: "fill_by_price v med mx xs tot fee t = (tot', fee', t', ys)" "xs' = z # ys" "rechecked x z"
      using Cons.prems(2) a y(5) by (cases "lim < tot + blobSize x") auto
    from Cons.IH [OF Cons.prems(1) f(1)] have "list_all2 rechecked (x # xs) xs'" using f(2,3) by simp
    then show ?thesis using Cons.IH [OF Cons.prems(1) f(1)] chosen_skip by blast
  qed
qed

text \<open>The invariant does not depend on the results of the checks.\<close>

definition core :: "TransactionDetails \<Rightarrow> Hash \<times> Transaction \<times> bool \<times> u64" where
  "core d = (td_id d, td_tx d, keptByBlock d, receiveTime d)"

lemma rechecked_core: "list_all2 rechecked xs ys \<Longrightarrow> map core ys = map core xs"
  by (induction rule: list_all2_induct) (auto simp: rechecked_def core_def)

lemma image_ids_core: "image_ids D k = fst ` {c \<in> core ` D. k \<in> set (images_of (inputs (fst (snd c))))}"
proof -
  have "{c \<in> core ` D. k \<in> set (images_of (inputs (fst (snd c))))} = core ` {d \<in> D. k \<in> set (images_of (inputs (td_tx d)))}"
    by (auto simp: core_def)
  then show ?thesis by (simp add: image_ids_def image_image core_def)
qed

lemma outputs_of_core:
  "outputs_of D = (\<Union>c \<in> {c \<in> core ` D. \<not> fst (snd (snd c))}. set (outs_of (inputs (fst (snd c)))))"
proof -
  have "{c \<in> core ` D. \<not> fst (snd (snd c))} = core ` {d \<in> D. \<not> keptByBlock d}" by (auto simp: core_def)
  then show ?thesis by (simp add: outputs_of_def core_def)
qed

lemma no_double_spend_core:
  assumes "distinct (map td_id ds)"
  shows "no_double_spend (set ds) \<longleftrightarrow> (\<forall>a \<in> core ` set ds. \<forall>b \<in> core ` set ds. \<not> fst (snd (snd a)) \<longrightarrow> \<not> fst (snd (snd b)) \<longrightarrow>
    fst a \<noteq> fst b \<longrightarrow> spends (fst (snd a)) \<inter> spends (fst (snd b)) = {})"
proof -
  have "td_id d = td_id e \<longleftrightarrow> d = e" if "d \<in> set ds" "e \<in> set ds" for d e using unique_id [OF assms] that by blast
  then show ?thesis by (auto simp: no_double_spend_def core_def)
qed

lemma pool_inv_core:
  assumes "pool_inv p" and "map core ds = map core (m_transactions p)"
  shows "pool_inv (p\<lparr>m_transactions := ds\<rparr>)"
proof -
  let ?ds = "m_transactions p"
  have "set (map core ds) = set (map core ?ds)" by (simp only: assms(2))
  then have c: "core ` set ds = core ` set ?ds" by simp
  have "map fst (map core ds) = map fst (map core ?ds)" by (simp only: assms(2))
  then have ids: "map td_id ds = map td_id ?ds" by (simp add: core_def comp_def)
  have "map (\<lambda>c. (snd (snd (snd c)), fst c)) (map core ds) = map (\<lambda>c. (snd (snd (snd c)), fst c)) (map core ?ds)"
    by (simp only: assms(2))
  then have st: "map stamp ds = map stamp ?ds" by (simp add: core_def stamp_def [abs_def] comp_def)
  have "\<forall>c \<in> core ` set ?ds. distinct (images_of (inputs (fst (snd c))))" using assms(1) by (auto simp: pool_inv_def core_def)
  then have im: "\<forall>d \<in> set ds. distinct (images_of (inputs (td_tx d)))" unfolding c [symmetric] by (auto simp: core_def)
  have sp: "spent_of (set ds) = spent_of (set ?ds)" by (rule ext) (simp only: spent_of_def image_ids_core c)
  have out: "outputs_of (set ds) = outputs_of (set ?ds)" by (simp add: outputs_of_core c)
  have dist: "distinct (map td_id ?ds)" using assms(1) by (simp add: pool_inv_def)
  then have dist': "distinct (map td_id ds)" unfolding ids .
  have nds: "no_double_spend (set ds) \<longleftrightarrow> no_double_spend (set ?ds)"
    unfolding no_double_spend_core [OF dist] no_double_spend_core [OF dist'] c ..
  show ?thesis using assms(1) im by (simp add: pool_inv_def ids st sp out nds)
qed

lemma unat_max: "unat (max a b) = max (unat a) (unat b)" for a b :: "'a::len word"
  by (simp add: max_def word_le_nat_alt)

lemma fill_block_template_ok:
  assumes inv: "pool_inv p" and fill: "fill_block_template c v med mx p = (hashes, sz, fee, p')"
  shows "pool_inv p' \<and> (\<exists>ds. hashes = map td_id ds \<and> set ds \<subseteq> set (m_transactions p) \<and> (\<forall>d \<in> set ds. ready v d)
    \<and> sorted_wrt disjoint_spends ds \<and> sz = sum_list (map blobSize ds) \<and> fee = sum_list (map td_fee ds)
    \<and> unat sz \<le> max (m_fusionTxMaxSize c) (max (unat med) (unat (max_total c med mx))))"
proof -
  let ?m = "max_total c med mx" and ?ds = "m_transactions p"
  obtain s1 t1 where 1: "fill_fusion c v (rev ?ds) 0 new_BlockTemplate = (s1, t1)" by fastforce
  obtain s2 f2 t2 xs where 2: "fill_by_price v med ?m ?ds s1 0 t1 = (s2, f2, t2, xs)" by (metis prod_cases4)
  have r: "hashes = m_txHashes t2" "sz = s2" "fee = f2" "p' = p\<lparr>m_transactions := xs\<rparr>"
    using fill 1 2 by (simp_all add: fill_block_template_def)
  obtain es where es: "template_of t1 ([] @ es)" "chosen v (rev ?ds) es" "s1 = 0 + sum_list (map blobSize es)"
      "\<forall>e \<in> set es. td_fee e = 0" "unat (0 :: u64) \<le> m_fusionTxMaxSize c \<longrightarrow> unat s1 \<le> m_fusionTxMaxSize c"
    using fill_fusion_ok [OF template_new 1] by blast
  obtain fs where fs: "list_all2 rechecked ?ds xs" "template_of t2 (([] @ es) @ fs)" "chosen v ?ds fs"
      "s2 = s1 + sum_list (map blobSize fs)" "f2 = 0 + sum_list (map td_fee fs)" "s2 \<le> max s1 (max med ?m)"
    using fill_by_price_ok [OF es(1) 2] by blast
  have z: "sum_list (map td_fee es) = 0" using es(4) by (induction es) auto
  have "unat s2 \<le> max (unat s1) (max (unat med) (unat ?m))" using fs(6) unfolding word_le_nat_alt unat_max .
  then have b: "unat sz \<le> max (m_fusionTxMaxSize c) (max (unat med) (unat ?m))" using es(5) r(2) by auto
  have "hashes = map td_id (es @ fs) \<and> set (es @ fs) \<subseteq> set ?ds \<and> (\<forall>d \<in> set (es @ fs). ready v d) \<and> sorted_wrt disjoint_spends (es @ fs)
      \<and> sz = sum_list (map blobSize (es @ fs)) \<and> fee = sum_list (map td_fee (es @ fs))"
  proof (intro conjI)
    show "hashes = map td_id (es @ fs)" "sorted_wrt disjoint_spends (es @ fs)" using fs(2) r(1) by (simp_all add: template_of_def)
    show "set (es @ fs) \<subseteq> set ?ds" "\<forall>d \<in> set (es @ fs). ready v d" using es(2) fs(3) by (auto simp: chosen_def)
    show "sz = sum_list (map blobSize (es @ fs))" using es(3) fs(4) r(2) by simp
    show "fee = sum_list (map td_fee (es @ fs))" using z fs(5) r(3) by simp
  qed
  with b have ex: "\<exists>ds. hashes = map td_id ds \<and> set ds \<subseteq> set ?ds \<and> (\<forall>d \<in> set ds. ready v d) \<and> sorted_wrt disjoint_spends ds
      \<and> sz = sum_list (map blobSize ds) \<and> fee = sum_list (map td_fee ds) \<and> unat sz \<le> max (m_fusionTxMaxSize c) (max (unat med) (unat ?m))"
    by blast
  have "pool_inv p'" unfolding r(4) by (rule pool_inv_core [OF inv rechecked_core [OF fs(1)]])
  then show ?thesis using ex by blast
qed

text \<open>With at least one input in every transaction no hash is chosen twice.\<close>

lemma disjoint_distinct:
  assumes "sorted_wrt disjoint_spends ds" and "\<forall>d \<in> set ds. spends (td_tx d) \<noteq> {}"
  shows "distinct ds"
  using assms by (induction ds) (auto simp: disjoint_spends_def)

section \<open>The order of the pool\<close>

text \<open>The fee of a transaction for each byte, as a fraction; sizes are not zero.\<close>

definition priority_le :: "TransactionDetails \<Rightarrow> TransactionDetails \<Rightarrow> bool" where
  "priority_le a b \<longleftrightarrow> unat (td_fee b) * unat (blobSize a) < unat (td_fee a) * unat (blobSize b)
    \<or> unat (td_fee b) * unat (blobSize a) = unat (td_fee a) * unat (blobSize b)
      \<and> (blobSize a < blobSize b \<or> blobSize a = blobSize b \<and> sint (receiveTime a) \<le> sint (receiveTime b))"

lemma wide_order:
  fixes h l h' l' K :: nat
  assumes "l < K" and "l' < K"
  shows "h' < h \<or> h' = h \<and> l' < l \<longleftrightarrow> h' * K + l' < h * K + l" and "h = h' \<and> l = l' \<longleftrightarrow> h * K + l = h' * K + l'"
proof -
  have lt: "a * K + r < b * K + r'" if "a < b" "r < K" for a b r r'
  proof -
    have "a * K + r < Suc a * K" using that by simp
    also have "\<dots> \<le> b * K" using that by (intro mult_le_mono1) simp
    finally show ?thesis by simp
  qed
  consider "h < h'" | "h = h'" | "h' < h" by linarith
  then have "(h' < h \<or> h' = h \<and> l' < l \<longleftrightarrow> h' * K + l' < h * K + l) \<and> (h = h' \<and> l = l' \<longleftrightarrow> h * K + l = h' * K + l')"
  proof cases
    case 1
    with lt [OF 1 assms(1), of l'] show ?thesis by simp
  next
    case 2
    then show ?thesis by auto
  next
    case 3
    with lt [OF 3 assms(2), of l] show ?thesis by simp
  qed
  then show "h' < h \<or> h' = h \<and> l' < l \<longleftrightarrow> h' * K + l' < h * K + l" "h = h' \<and> l = l' \<longleftrightarrow> h * K + l = h' * K + l'" by blast+
qed

lemma wide_less:
  fixes hi lo hi' lo' :: u64
  assumes "unat hi * 2 ^ 64 + unat lo = n" and "unat hi' * 2 ^ 64 + unat lo' = n'"
  shows "hi > hi' \<or> hi = hi' \<and> lo > lo' \<longleftrightarrow> n' < n" and "hi = hi' \<and> lo = lo' \<longleftrightarrow> n = n'"
proof -
  have "unat lo < 2 ^ 64" "unat lo' < 2 ^ 64" using unat_u64_bound [of lo] unat_u64_bound [of lo'] by auto
  note w = wide_order [OF this, where h = "unat hi" and h' = "unat hi'", unfolded assms]
  show "hi > hi' \<or> hi = hi' \<and> lo > lo' \<longleftrightarrow> n' < n"
    using w(1) unfolding word_less_nat_alt word_unat_eq_iff by (simp only: eq_commute)
  show "hi = hi' \<and> lo = lo' \<longleftrightarrow> n = n'"
    using w(2) unfolding word_unat_eq_iff by blast
qed

lemma priority_before_iff: "priority_before a b \<longleftrightarrow> \<not> priority_le b a"
proof -
  obtain l1 h1 where 1: "mul128 (td_fee a) (blobSize b) = (l1, h1)" by fastforce
  obtain l2 h2 where 2: "mul128 (td_fee b) (blobSize a) = (l2, h2)" by fastforce
  note w = wide_less [OF mul128_exact [OF 1] mul128_exact [OF 2]]
  have "priority_before a b \<longleftrightarrow> (h1 > h2 \<or> h1 = h2 \<and> l1 > l2) \<or> (h1 = h2 \<and> l1 = l2) \<and> blobSize a < blobSize b
      \<or> (h1 = h2 \<and> l1 = l2) \<and> blobSize a = blobSize b \<and> receiveTime a <s receiveTime b"
    by (auto simp: priority_before_def 1 2)
  then show ?thesis unfolding w priority_le_def by (auto simp: word_sless_alt not_le)
qed

lemma cross_trans:
  fixes f1 f2 f3 s1 s2 s3 :: nat
  assumes "f2 * s1 \<le> f1 * s2" and "f3 * s2 \<le> f2 * s3" and "0 < s2"
  shows "f3 * s1 \<le> f1 * s3"
proof -
  have "s2 * (f3 * s1) = (f3 * s2) * s1" by (simp only: ac_simps)
  also have "\<dots> \<le> (f2 * s3) * s1" using assms(2) by (rule mult_le_mono1)
  also have "\<dots> = (f2 * s1) * s3" by (simp only: ac_simps)
  also have "\<dots> \<le> (f1 * s2) * s3" using assms(1) by (rule mult_le_mono1)
  also have "\<dots> = s2 * (f1 * s3)" by (simp only: ac_simps)
  finally show ?thesis using assms(3) by (simp only: mult_le_cancel1 simp_thms)
qed

lemma cross_trans_strict:
  fixes f1 f2 f3 s1 s2 s3 :: nat
  assumes le: "f2 * s1 \<le> f1 * s2" "f3 * s2 \<le> f2 * s3" and pos: "0 < s1" "0 < s3"
    and less: "f2 * s1 < f1 * s2 \<or> f3 * s2 < f2 * s3"
  shows "f3 * s1 < f1 * s3"
proof (rule ccontr)
  assume "\<not> f3 * s1 < f1 * s3"
  then have n: "f1 * s3 \<le> f3 * s1" by (simp only: not_less)
  have "f1 * s2 \<le> f2 * s1" by (rule cross_trans [OF le(2) n pos(2)])
  moreover have "f2 * s3 \<le> f3 * s2" by (rule cross_trans [OF n le(1) pos(1)])
  ultimately show False using less by (simp only: not_le [symmetric] simp_thms)
qed

lemma priority_le_trans:
  assumes "priority_le a b" and "priority_le b c" and "0 < blobSize a" and "0 < blobSize b" and "0 < blobSize c"
  shows "priority_le a c"
proof -
  let ?f1 = "unat (td_fee a)" and ?f2 = "unat (td_fee b)" and ?f3 = "unat (td_fee c)"
  let ?s1 = "unat (blobSize a)" and ?s2 = "unat (blobSize b)" and ?s3 = "unat (blobSize c)"
  have pos: "0 < ?s1" "0 < ?s2" "0 < ?s3" using assms(3-5) by (simp_all add: unat_gt_0)
  have le: "?f2 * ?s1 \<le> ?f1 * ?s2" "?f3 * ?s2 \<le> ?f2 * ?s3" using assms(1,2) by (auto simp: priority_le_def)
  show ?thesis
  proof (cases "?f2 * ?s1 < ?f1 * ?s2 \<or> ?f3 * ?s2 < ?f2 * ?s3")
    case True
    have "?f3 * ?s1 < ?f1 * ?s3" by (rule cross_trans_strict [OF le pos(1,3) True])
    then show ?thesis by (simp only: priority_le_def simp_thms)
  next
    case False
    with le have e: "?f2 * ?s1 = ?f1 * ?s2" "?f3 * ?s2 = ?f2 * ?s3" by auto
    have "?f3 * ?s1 \<le> ?f1 * ?s3" by (rule cross_trans [OF le pos(2)])
    moreover have "?f1 * ?s3 \<le> ?f3 * ?s1" using cross_trans [of ?f2 ?s3 ?f3 ?s2 ?f1 ?s1] e pos(2) by (simp only: order_refl simp_thms)
    moreover have "blobSize a < blobSize b \<or> blobSize a = blobSize b \<and> sint (receiveTime a) \<le> sint (receiveTime b)"
        "blobSize b < blobSize c \<or> blobSize b = blobSize c \<and> sint (receiveTime b) \<le> sint (receiveTime c)"
      using assms(1,2) e by (auto simp: priority_le_def)
    then have "blobSize a < blobSize c \<or> blobSize a = blobSize c \<and> sint (receiveTime a) \<le> sint (receiveTime c)"
      using less_trans [of "blobSize a" "blobSize b" "blobSize c"] by auto
    ultimately show ?thesis unfolding priority_le_def by (metis le_antisym)
  qed
qed

lemma priority_le_total: "priority_le a b \<or> priority_le b a"
  by (auto simp: priority_le_def not_less)

definition by_priority :: "TransactionDetails list \<Rightarrow> bool" where
  "by_priority ds \<longleftrightarrow> sorted_wrt priority_le ds \<and> (\<forall>d \<in> set ds. 0 < blobSize d)"

text \<open>The best transactions stay first.\<close>

lemma priority_insert_sorted: "by_priority ds \<Longrightarrow> 0 < blobSize d \<Longrightarrow> by_priority (priority_insert d ds)"
proof (induction ds)
  case (Cons e es)
  show ?case
  proof (cases "priority_before d e")
    case True
    then have "priority_le d e" using priority_le_total priority_before_iff by blast
    then have "priority_le d x" if "x \<in> set es" for x
      using that Cons.prems priority_le_trans [of d e x] by (auto simp: by_priority_def)
    with \<open>priority_le d e\<close> True Cons.prems show ?thesis by (auto simp: by_priority_def)
  next
    case False
    then have "priority_le e d" by (simp add: priority_before_iff)
    with False Cons show ?thesis by (auto simp: by_priority_def)
  qed
qed (simp add: by_priority_def)

lemma rechecked_priority: "rechecked d d' \<Longrightarrow> rechecked e e' \<Longrightarrow> priority_le d' e' \<longleftrightarrow> priority_le d e"
  by (auto simp: rechecked_def priority_le_def)

lemma rechecked_sorted: "by_priority xs \<Longrightarrow> list_all2 rechecked xs ys \<Longrightarrow> by_priority ys"
proof -
  assume s: "by_priority xs" and r: "list_all2 rechecked xs ys"
  have n: "rechecked (xs ! i) (ys ! i)" if "i < length xs" for i using r that by (simp add: list_all2_conv_all_nth)
  have len: "length ys = length xs" using r by (simp add: list_all2_lengthD)
  have "0 < blobSize (ys ! i)" if "i < length xs" for i
    using n [OF that] s that by (auto simp: rechecked_def by_priority_def)
  moreover have "priority_le (ys ! i) (ys ! j)" if "i < j" "j < length xs" for i j
    using rechecked_priority [OF n n, of i j] s that by (simp add: by_priority_def sorted_wrt_iff_nth_less)
  ultimately show ?thesis using len by (auto simp: by_priority_def sorted_wrt_iff_nth_less in_set_conv_nth)
qed

lemma by_priority_filter: "by_priority ds \<Longrightarrow> by_priority (filter P ds)"
  by (simp add: by_priority_def sorted_wrt_filter)

section \<open>Every state of the pool\<close>

text \<open>
  The steps of a pool: any calls, in any order, with any validator and any clock. A transaction that is
  added has a size and spends no image twice, as the checks of the core ensure.
\<close>

inductive pool_step :: "currency \<Rightarrow> tx_memory_pool \<Rightarrow> tx_memory_pool \<Rightarrow> bool" for c where
  step_add: "distinct (images_of (inputs tx)) \<Longrightarrow> 0 < sz \<Longrightarrow> add_tx c v now tx h sz tvc kept p = (r, tvc', p') \<Longrightarrow> pool_step c p p'"
| step_take: "take_tx h p = (r, p') \<Longrightarrow> pool_step c p p'"
| step_fill: "fill_block_template c v med mx p = (hs, sz, fee, p') \<Longrightarrow> pool_step c p p'"
| step_idle: "on_idle c now1 now2 now3 p = (notified, p') \<Longrightarrow> pool_step c p p'"
| step_observe: "addObserver x p = (r, p') \<Longrightarrow> pool_step c p p'"
| step_ignore: "removeObserver x p = (r, p') \<Longrightarrow> pool_step c p p'"

inductive reachable_pool :: "currency \<Rightarrow> tx_memory_pool \<Rightarrow> bool" for c where
  pool_start: "reachable_pool c new_pool"
| pool_steps: "reachable_pool c p \<Longrightarrow> pool_step c p p' \<Longrightarrow> reachable_pool c p'"

definition pool_ok :: "tx_memory_pool \<Rightarrow> bool" where
  "pool_ok p \<longleftrightarrow> pool_inv p \<and> by_priority (m_transactions p) \<and> pi_index (m_paymentIdIndex p) = []"

lemma pool_ok_cong:
  "m_transactions p' = m_transactions p \<Longrightarrow> m_spent_key_images p' = m_spent_key_images p \<Longrightarrow> m_spentOutputs p' = m_spentOutputs p \<Longrightarrow>
   m_timestampIndex p' = m_timestampIndex p \<Longrightarrow> m_paymentIdIndex p' = m_paymentIdIndex p \<Longrightarrow> pool_ok p' \<longleftrightarrow> pool_ok p"
  by (simp add: pool_ok_def pool_inv_def)

lemma payment_remove_empty: "pi_index i = [] \<Longrightarrow> pi_index (snd (payment_remove t i)) = []"
  by (simp add: payment_remove_def Let_def split: option.splits)

lemma removeTransaction_payment:
  "pi_index (m_paymentIdIndex p) = [] \<Longrightarrow> pi_index (m_paymentIdIndex (removeTransaction d p)) = []"
proof -
  obtain m o' where "snd (removeTransactionInputs (td_id d) (keptByBlock d) (inputs (td_tx d)) p) = p\<lparr>m_spent_key_images := m, m_spentOutputs := o'\<rparr>"
    using remove_inputs_frame by blast
  then show "pi_index (m_paymentIdIndex p) = [] \<Longrightarrow> ?thesis" by (simp add: removeTransaction_def Let_def payment_remove_empty)
qed

lemma remove_expired_payment:
  "pi_index (m_paymentIdIndex p) = [] \<Longrightarrow> pi_index (m_paymentIdIndex (snd (remove_expired c now xs p))) = []"
proof (induction xs arbitrary: p)
  case (Cons d ds)
  then show ?case by (auto simp: Let_def split_beta removeTransaction_payment)
qed simp

lemma pool_step_ok: "pool_step c p p' \<Longrightarrow> pool_ok p \<Longrightarrow> pool_ok p'"
proof (induction rule: pool_step.induct)
  case (step_add tx sz v now h tvc kept p r tvc' p')
  from step_add.prems have "pool_inv p" "by_priority (m_transactions p)" "pi_index (m_paymentIdIndex p) = []" by (auto simp: pool_ok_def)
  moreover have "0 < blobSize (pool_entry v now tx h sz kept)" using step_add.hyps(2) by (simp add: pool_entry_def)
  ultimately show ?case using add_tx_cases [OF _ step_add.hyps(1,3)] priority_insert_sorted by (auto simp: pool_ok_def split: if_splits)
next
  case (step_take h p r p')
  from step_take.prems have i: "pool_inv p" "by_priority (m_transactions p)" "pi_index (m_paymentIdIndex p) = []" by (auto simp: pool_ok_def)
  show ?case
  proof (cases "have_tx h p")
    case True
    with take_tx_ok [OF i(1), of h] step_take.hyps obtain d where d: "d \<in> set (m_transactions p)" "pool_inv p'"
        "m_transactions p' = remove1 d (m_transactions p)" by auto
    have "distinct (map td_id (m_transactions p))" using i(1) by (simp add: pool_inv_def)
    then have "by_priority (m_transactions p')" using d(3) by_priority_filter [OF i(2)] filter_other_ids [OF _ d(1)] by metis
    moreover have "pi_index (m_paymentIdIndex p') = []"
      using step_take.hyps removeTransaction_payment [OF i(3)] i(3) by (auto simp: take_tx_def split: option.splits)
    ultimately show ?thesis using d(2) by (simp add: pool_ok_def)
  next
    case False
    with take_tx_ok [OF i(1), of h] step_take show ?thesis by simp
  qed
next
  case (step_fill v med mx p hs sz fee p')
  from step_fill.prems have i: "pool_inv p" "by_priority (m_transactions p)" "pi_index (m_paymentIdIndex p) = []" by (auto simp: pool_ok_def)
  obtain s1 t1 where 1: "fill_fusion c v (rev (m_transactions p)) 0 new_BlockTemplate = (s1, t1)" by fastforce
  obtain s2 f2 t2 xs where 2: "fill_by_price v med (max_total c med mx) (m_transactions p) s1 0 t1 = (s2, f2, t2, xs)" by (metis prod_cases4)
  have p': "p' = p\<lparr>m_transactions := xs\<rparr>" using step_fill.hyps 1 2 by (simp add: fill_block_template_def)
  obtain es where "template_of t1 ([] @ es)" using fill_fusion_ok [OF template_new 1] by blast
  with fill_by_price_ok [OF _ 2] have "list_all2 rechecked (m_transactions p) xs" by blast
  with rechecked_sorted [OF i(2)] have "by_priority xs" by blast
  then show ?case using fill_block_template_ok [OF i(1) step_fill.hyps] i(3) by (simp add: pool_ok_def p')
next
  case (step_idle now1 now2 now3 p notified p')
  from step_idle.prems have i: "pool_inv p" "by_priority (m_transactions p)" "pi_index (m_paymentIdIndex p) = []" by (auto simp: pool_ok_def)
  obtain r n q where q: "removeExpiredTransactions c now2 p = (r, n, q)" by (metis prod_cases3)
  have "pi_index (m_paymentIdIndex q) = []"
    using q remove_expired_payment [of "p\<lparr>m_recentlyDeletedTransactions := forget_deleted c now2 (m_recentlyDeletedTransactions p)\<rparr>" c now2 "m_transactions p"] i(3)
    by (auto simp: removeExpiredTransactions_def Let_def split_beta)
  then have "pool_ok q" using removeExpired_ok [OF i(1) q] by_priority_filter [OF i(2)] by (simp add: pool_ok_def)
  moreover have "pool_ok (q\<lparr>m_txCheckInterval := t\<rparr>) \<longleftrightarrow> pool_ok q" for t by (rule pool_ok_cong) simp_all
  ultimately show ?case using step_idle q by (auto simp: on_idle_def Let_def split: if_splits)
next
  case (step_observe x p r p')
  then show ?case using pool_ok_cong [of p' p] by (auto simp: addObserver_def Let_def split_beta)
next
  case (step_ignore x p r p')
  then show ?case using pool_ok_cong [of p' p] by (auto simp: removeObserver_def Let_def split_beta)
qed

lemma reachable_pool_ok: "reachable_pool c p \<Longrightarrow> pool_ok p"
proof (induction rule: reachable_pool.induct)
  case pool_start
  have "by_priority (m_transactions new_pool)" "pi_index (m_paymentIdIndex new_pool) = []" by (simp_all add: new_pool_def by_priority_def)
  with pool_inv_new show ?case by (simp add: pool_ok_def)
next
  case (pool_steps p p')
  then show ?case by (blast intro: pool_step_ok)
qed

text \<open>The index of payment ids of a pool that was not loaded from a file finds nothing.\<close>

lemma payment_index_unused:
  "reachable_pool c p \<Longrightarrow> getTransactionIdsByPaymentId k p hs = (False, hs)"
  using reachable_pool_ok [of c p] by (simp add: pool_ok_def getTransactionIdsByPaymentId_def payment_find_def)

end
