(* ===== verification/Blockchain.thy ===== *)
theory Blockchain
  imports TransactionPool Checkpoints BlockIndex
begin

text \<open>
  \<^verbatim>\<open>src/OrbisCore/Blockchain.{h,cpp}\<close>: the main chain with the structures that are derived from it, the
  checks of transactions and blocks, and pushing and popping of blocks. The state is the record
  \<open>Blockchain\<close>; the vector of blocks that is swapped to files is the list of its elements, hash tables
  and hash sets are maps and sets. The pool, to which the code has a reference, is a field. What the
  code does not change is the record \<open>chain_env\<close>, an argument: the currency, the two signature checks of
  \<^verbatim>\<open>orbis.cpp\<close>, the slow hash, and the time, which is read once for an operation. Exceptions end an
  operation; \<open>Undefined\<close> stands for an access outside a vector. The lock makes operations atomic.
\<close>

section \<open>State\<close>

record chain_env =
  ce_currency :: currency
  check_ring_signature :: "Hash \<Rightarrow> KeyImage \<Rightarrow> PublicKey list \<Rightarrow> Signature list \<Rightarrow> bool"
  check_signature :: "Hash \<Rightarrow> PublicKey \<Rightarrow> Signature \<Rightarrow> bool"
  ce_slow_hash :: "blob \<Rightarrow> Hash"
  ce_time :: u64

record TransactionIndex =
  ti_block :: u32
  ti_transaction :: u16

record MultisignatureOutputUsage =
  mu_transactionIndex :: TransactionIndex
  mu_outputIndex :: u16
  isUsed :: bool

record TransactionEntry =
  te_tx :: Transaction
  m_global_output_indexes :: "u32 list"

record BlockEntry =
  be_bl :: Block
  be_height :: u32
  block_cumulative_size :: u64
  cumulative_difficulty :: u64
  already_generated_coins :: u64
  be_transactions :: "TransactionEntry list"

type_synonym outputs_container = "u64 \<rightharpoonup> (TransactionIndex \<times> u16) list"
type_synonym MultisignatureOutputsContainer = "u64 \<rightharpoonup> MultisignatureOutputUsage list"

datatype BlockchainMessage = NewBlockMessage Hash | NewAlternativeBlockMessage Hash | ChainSwitchMessage "Hash list"

record Blockchain =
  m_tx_pool :: tx_memory_pool
  bc_observers :: "nat ObserverManager"
  m_spent_keys :: "KeyImage set"
  m_current_block_cumul_sz_limit :: u64
  m_alternative_chains :: "Hash \<rightharpoonup> BlockEntry"
  m_outputs :: outputs_container
  m_checkpoints :: Checkpoints
  m_is_in_checkpoint_zone :: bool
  m_blocks :: "BlockEntry list"
  m_blockIndex :: BlockIndex
  m_transactionMap :: "Hash \<rightharpoonup> TransactionIndex"
  m_multisignatureOutputs :: MultisignatureOutputsContainer
  bc_paymentIds :: PaymentIdIndex
  bc_timestamps :: TimestampIndex
  m_generatedTransactionsIndex :: GeneratedTransactionsIndex
  m_orthanBlocksIndex :: OrphanBlocksIndex
  m_messageQueueList :: "(nat \<times> BlockchainMessage list) list"

record block_verification_context =
  m_added_to_main_chain :: bool
  bvc_verifivation_failed :: bool
  m_marked_as_orphaned :: bool
  m_already_exists :: bool
  m_switched_to_alt_chain :: bool

definition new_bvc :: block_verification_context where
  "new_bvc = \<lparr>m_added_to_main_chain = False, bvc_verifivation_failed = False, m_marked_as_orphaned = False,
    m_already_exists = False, m_switched_to_alt_chain = False\<rparr>"

definition bvc_failed :: "block_verification_context \<Rightarrow> block_verification_context" where
  "bvc_failed bvc = bvc\<lparr>bvc_verifivation_failed := True\<rparr>"

text \<open>The constructor.\<close>

definition new_Blockchain :: "tx_memory_pool \<Rightarrow> Blockchain" where
  "new_Blockchain tx_pool = \<lparr>m_tx_pool = tx_pool, bc_observers = \<lparr>m_observers = []\<rparr>, m_spent_keys = {},
    m_current_block_cumul_sz_limit = 0, m_alternative_chains = Map.empty, m_outputs = Map.empty,
    m_checkpoints = empty_Checkpoints, m_is_in_checkpoint_zone = False, m_blocks = [], m_blockIndex = empty_BlockIndex,
    m_transactionMap = Map.empty, m_multisignatureOutputs = Map.empty, bc_paymentIds = \<lparr>pi_index = []\<rparr>,
    bc_timestamps = \<lparr>ti_index = []\<rparr>, m_generatedTransactionsIndex = empty_GeneratedTransactionsIndex,
    m_orthanBlocksIndex = \<lparr>ob_index = []\<rparr>, m_messageQueueList = []\<rparr>"

section \<open>Access to the chain\<close>

text \<open>\<^verbatim>\<open>SwappedVector::operator[]\<close> throws outside the vector; \<^verbatim>\<open>back\<close> of the empty vector does too.\<close>

definition block_at :: "Blockchain \<Rightarrow> nat \<Rightarrow> BlockEntry result" where
  "block_at bc i =
    (if i < length (m_blocks bc) then Inr (m_blocks bc ! i) else Inl (Failed ''SwappedVector::operator[]''))"

definition transactionByIndex :: "Blockchain \<Rightarrow> TransactionIndex \<Rightarrow> TransactionEntry result" where
  "transactionByIndex bc index =
    bindR (block_at bc (unat (ti_block index))) (\<lambda>e.
      if unat (ti_transaction index) < length (be_transactions e)
      then Inr (be_transactions e ! unat (ti_transaction index)) else Inl Undefined)"

definition getCurrentBlockchainHeight :: "Blockchain \<Rightarrow> u32" where
  "getCurrentBlockchainHeight bc = of_nat (length (m_blocks bc))"

definition bc_getTailId :: "Blockchain \<Rightarrow> Hash result" where
  "bc_getTailId bc = (if m_blocks bc = [] then Inr NULL_HASH else of_opt Undefined (getTailId (m_blockIndex bc)))"

definition getBlockIdByHeight :: "Blockchain \<Rightarrow> u32 \<Rightarrow> Hash result" where
  "getBlockIdByHeight bc height = of_opt Undefined (getBlockId (m_blockIndex bc) height)"

definition haveTransaction :: "Blockchain \<Rightarrow> Hash \<Rightarrow> bool" where
  "haveTransaction bc h \<longleftrightarrow> m_transactionMap bc h \<noteq> None"

definition have_tx_keyimg_as_spent :: "Blockchain \<Rightarrow> KeyImage \<Rightarrow> bool" where
  "have_tx_keyimg_as_spent bc key_im \<longleftrightarrow> key_im \<in> m_spent_keys bc"

fun key_image_spent :: "Blockchain \<Rightarrow> TransactionInput \<Rightarrow> bool" where
  "key_image_spent bc (VKeyInput i) = have_tx_keyimg_as_spent bc (keyImage i)"
| "key_image_spent bc _ = False"

definition haveTransactionKeyImagesAsSpent :: "Blockchain \<Rightarrow> Transaction \<Rightarrow> bool" where
  "haveTransactionKeyImagesAsSpent bc tx = list_ex (key_image_spent bc) (inputs tx)"

definition haveBlock :: "Blockchain \<Rightarrow> Hash \<Rightarrow> bool" where
  "haveBlock bc h \<longleftrightarrow> (if hasBlock (m_blockIndex bc) h then True else m_alternative_chains bc h \<noteq> None)"

definition getCoinsInCirculation :: "Blockchain \<Rightarrow> u64" where
  "getCoinsInCirculation bc = (if m_blocks bc = [] then 0 else already_generated_coins (last (m_blocks bc)))"

section \<open>Inputs of a transaction\<close>

definition is_tx_spendtime_unlocked :: "chain_env \<Rightarrow> Blockchain \<Rightarrow> u64 \<Rightarrow> bool" where
  "is_tx_spendtime_unlocked E bc unlock_time =
    (if unlock_time < m_maxBlockHeight (ce_currency E)
     then unlock_time \<le> ucast (getCurrentBlockchainHeight bc - 1) + of_nat (m_lockedTxAllowedDeltaBlocks (ce_currency E))
     else unlock_time \<le> ce_time E + m_lockedTxAllowedDeltaSeconds (ce_currency E))"

text \<open>\<^verbatim>\<open>outputs_visitor::handle_output\<close> of \<^verbatim>\<open>check_tx_input\<close>; \<open>None\<close> is \<^verbatim>\<open>false\<close>.\<close>

definition handle_output :: "chain_env \<Rightarrow> Blockchain \<Rightarrow> Transaction \<Rightarrow> TransactionOutput \<Rightarrow> PublicKey option" where
  "handle_output E bc tx out =
    (if \<not> is_tx_spendtime_unlocked E bc (unlockTime tx) then None
     else case to_target out of VKeyOutput k \<Rightarrow> Some (ko_key k) | VMultisignatureOutput m \<Rightarrow> None)"

text \<open>
  The loop of \<^verbatim>\<open>scanOutputKeysForIndexes\<close> with this visitor. The result is the returned value, the
  collected keys and \<^verbatim>\<open>*pmax_related_block_height\<close>.
\<close>

fun scan_offsets :: "chain_env \<Rightarrow> Blockchain \<Rightarrow> (TransactionIndex \<times> u16) list \<Rightarrow> u32 list \<Rightarrow> PublicKey list \<Rightarrow> u32
    \<Rightarrow> (bool \<times> PublicKey list \<times> u32) result" where
  "scan_offsets E bc amount_outs_vec [] keys maxHeight = Inr (True, keys, maxHeight)"
| "scan_offsets E bc amount_outs_vec (i # is) keys maxHeight =
    (if length amount_outs_vec \<le> unat i then Inr (False, keys, maxHeight)
     else
       let (ti, oi) = amount_outs_vec ! unat i in
       bindR (transactionByIndex bc ti) (\<lambda>te.
         if length (outputs (te_tx te)) \<le> unat oi then Inr (False, keys, maxHeight)
         else case handle_output E bc (te_tx te) (outputs (te_tx te) ! unat oi) of
             None \<Rightarrow> Inr (False, keys, maxHeight)
           | Some key \<Rightarrow>
               scan_offsets E bc amount_outs_vec is (keys @ [key])
                 (if is = [] \<and> maxHeight < ti_block ti then ti_block ti else maxHeight)))"

definition scanOutputKeysForIndexes :: "chain_env \<Rightarrow> Blockchain \<Rightarrow> KeyInput \<Rightarrow> u32 \<Rightarrow> (bool \<times> PublicKey list \<times> u32) result" where
  "scanOutputKeysForIndexes E bc tx_in_to_key maxHeight =
    (case m_outputs bc (ki_amount tx_in_to_key) of
       None \<Rightarrow> Inr (False, [], maxHeight)
     | Some amount_outs_vec \<Rightarrow>
         if outputIndexes tx_in_to_key = [] then Inr (False, [], maxHeight)
         else scan_offsets E bc amount_outs_vec (relative_output_offsets_to_absolute (outputIndexes tx_in_to_key)) [] maxHeight)"

definition check_tx_input :: "chain_env \<Rightarrow> Blockchain \<Rightarrow> KeyInput \<Rightarrow> Hash \<Rightarrow> Signature list \<Rightarrow> u32 \<Rightarrow> (bool \<times> u32) result" where
  "check_tx_input E bc txin tx_prefix_hash sig maxHeight =
    bindR (scanOutputKeysForIndexes E bc txin maxHeight) (\<lambda>(ok, output_keys, maxHeight).
      if \<not> ok then Inr (False, maxHeight)
      else if length (outputIndexes txin) \<noteq> length output_keys then Inr (False, maxHeight)
      else if length sig \<noteq> length output_keys then Inr (False, maxHeight)
      else if m_is_in_checkpoint_zone bc then Inr (True, maxHeight)
      else Inr (check_ring_signature E tx_prefix_hash (keyImage txin) output_keys sig, maxHeight))"

text \<open>The loop of \<^verbatim>\<open>validateInput\<close>: the signatures that are left are checked against the keys that are left.\<close>

fun match_signatures :: "(PublicKey \<Rightarrow> Signature \<Rightarrow> bool) \<Rightarrow> PublicKey list \<Rightarrow> Signature list \<Rightarrow> nat \<Rightarrow> bool result" where
  "match_signatures chk [] sigs n = Inr (n = 0)"
| "match_signatures chk (k # ks) sigs n =
    (if n = 0 then Inr True
     else case sigs of
         [] \<Rightarrow> Inl Undefined
       | s # ss \<Rightarrow> if chk k s then match_signatures chk ks ss (n - 1) else match_signatures chk ks sigs n)"

definition validateInput :: "chain_env \<Rightarrow> Blockchain \<Rightarrow> MultisignatureInput \<Rightarrow> Hash \<Rightarrow> Signature list \<Rightarrow> bool result" where
  "validateInput E bc i transactionPrefixHash transactionSignatures =
    (case m_multisignatureOutputs bc (mi_amount i) of
       None \<Rightarrow> Inr False
     | Some amountOutputs \<Rightarrow>
         if length amountOutputs \<le> unat (outputIndex i) then Inr False
         else
           let usage = amountOutputs ! unat (outputIndex i) in
           if isUsed usage then Inr False
           else bindR (transactionByIndex bc (mu_transactionIndex usage)) (\<lambda>te.
             let outputTransaction = te_tx te in
             if \<not> is_tx_spendtime_unlocked E bc (unlockTime outputTransaction) then Inr False
             else if length (outputs outputTransaction) \<le> unat (mu_outputIndex usage) then Inl Undefined
             else case to_target (outputs outputTransaction ! unat (mu_outputIndex usage)) of
                 VKeyOutput k \<Rightarrow> Inl (Failed ''boost::bad_get'')
               | VMultisignatureOutput out \<Rightarrow>
                   if signatureCount i \<noteq> requiredSignatureCount out then Inr False
                   else match_signatures (check_signature E transactionPrefixHash) (mo_keys out) transactionSignatures
                     (unat (signatureCount i))))"

text \<open>The loop of \<^verbatim>\<open>checkTransactionInputs\<close> over the inputs and the signatures that are left.\<close>

fun check_inputs :: "chain_env \<Rightarrow> Blockchain \<Rightarrow> Hash \<Rightarrow> TransactionInput list \<Rightarrow> Signature list list \<Rightarrow> u32 \<Rightarrow> (bool \<times> u32) result" where
  "check_inputs E bc tx_prefix_hash [] sigs maxHeight = Inr (True, maxHeight)"
| "check_inputs E bc tx_prefix_hash (VKeyInput in_to_key # is) sigs maxHeight =
    (if outputIndexes in_to_key = [] then Inr (False, maxHeight)
     else if have_tx_keyimg_as_spent bc (keyImage in_to_key) then Inr (False, maxHeight)
     else case sigs of
         [] \<Rightarrow> Inl Undefined
       | sig # sigs \<Rightarrow>
           bindR (check_tx_input E bc in_to_key tx_prefix_hash sig maxHeight) (\<lambda>(ok, maxHeight).
             if \<not> ok then Inr (False, maxHeight) else check_inputs E bc tx_prefix_hash is sigs maxHeight))"
| "check_inputs E bc tx_prefix_hash (VMultisignatureInput i # is) sigs maxHeight =
    (case sigs of
       [] \<Rightarrow> Inl Undefined
     | sig # sigs \<Rightarrow>
         bindR (validateInput E bc i tx_prefix_hash sig) (\<lambda>ok.
           if \<not> ok then Inr (False, maxHeight) else check_inputs E bc tx_prefix_hash is sigs maxHeight))"
| "check_inputs E bc tx_prefix_hash (VBaseInput i # is) sigs maxHeight = Inr (False, maxHeight)"

definition prefix_hash :: "Transaction \<Rightarrow> Hash" where
  "prefix_hash tx = getObjectHash_value out_TransactionPrefix (TransactionPrefix.truncate tx)"

definition bc_checkTransactionInputs :: "chain_env \<Rightarrow> Blockchain \<Rightarrow> Transaction \<Rightarrow> (bool \<times> u32) result" where
  "bc_checkTransactionInputs E bc tx = check_inputs E bc (prefix_hash tx) (inputs tx) (signatures tx) 0"

text \<open>
  The three functions of the interface \<^verbatim>\<open>ITransactionValidator\<close>. On failure the height of the block
  information may have changed while its hash has not.
\<close>

definition checkTransactionInputs_max :: "chain_env \<Rightarrow> Blockchain \<Rightarrow> Transaction \<Rightarrow> BlockInfo \<Rightarrow> (bool \<times> BlockInfo) result" where
  "checkTransactionInputs_max E bc tx maxUsed =
    bindR (bc_checkTransactionInputs E bc tx) (\<lambda>(res, max_used_block_height).
      let maxUsed = maxUsed\<lparr>bi_height := max_used_block_height\<rparr> in
      if \<not> res then Inr (False, maxUsed)
      else if length (m_blocks bc) \<le> unat max_used_block_height then Inr (False, maxUsed)
      else Inr (True, maxUsed\<lparr>bi_id := snd (get_block_hash (be_bl (m_blocks bc ! unat max_used_block_height)))\<rparr>))"

definition tail_info :: "Blockchain \<Rightarrow> BlockInfo result" where
  "tail_info bc = bindR (bc_getTailId bc) (\<lambda>h. Inr \<lparr>bi_height = getCurrentBlockchainHeight bc - 1, bi_id = h\<rparr>)"

definition recheck :: "chain_env \<Rightarrow> Blockchain \<Rightarrow> Transaction \<Rightarrow> TransactionCheckInfo \<Rightarrow> (bool \<times> TransactionCheckInfo) result" where
  "recheck E bc tx info =
    bindR (tail_info bc) (\<lambda>t.
    bindR (checkTransactionInputs_max E bc tx (maxUsedBlock info)) (\<lambda>(ok, b).
      let info = info\<lparr>maxUsedBlock := b\<rparr> in
      Inr (ok, if \<not> ok then info\<lparr>lastFailedBlock := t\<rparr> else info)))"

definition checkTransactionInputs_failed :: "chain_env \<Rightarrow> Blockchain \<Rightarrow> Transaction \<Rightarrow> TransactionCheckInfo
    \<Rightarrow> (bool \<times> TransactionCheckInfo) result" where
  "checkTransactionInputs_failed E bc tx info =
    (let lastFailed = lastFailedBlock info; h = getCurrentBlockchainHeight bc in
     if BlockInfo_empty (maxUsedBlock info)
     then
       bindR (if \<not> BlockInfo_empty lastFailed \<and> bi_height lastFailed < h
              then bindR (getBlockIdByHeight bc (bi_height lastFailed)) (\<lambda>i. Inr (i = bi_id lastFailed)) else Inr False) (\<lambda>broken.
       if broken then Inr (False, info) else recheck E bc tx info)
     else if h \<le> bi_height (maxUsedBlock info) then Inr (False, info)
     else
       bindR (getBlockIdByHeight bc (bi_height (maxUsedBlock info))) (\<lambda>i.
       if i = bi_id (maxUsedBlock info) then Inr (True, info)
       else bindR (getBlockIdByHeight bc (bi_height lastFailed)) (\<lambda>i.
         if bi_id lastFailed = i then Inr (False, info) else recheck E bc tx info)))"

definition bc_checkTransactionSize :: "chain_env \<Rightarrow> Blockchain \<Rightarrow> u64 \<Rightarrow> bool" where
  "bc_checkTransactionSize E bc sz \<longleftrightarrow>
    \<not> sz > m_current_block_cumul_sz_limit bc - of_nat (m_minerTxBlobReservedSize (ce_currency E))"

text \<open>
  The chain as the validator of the pool. The record has no exceptions: where the code throws the result
  here is \<^verbatim>\<open>false\<close>, and the operations below that use it test for the exception first.
\<close>

definition or_false :: "'a \<Rightarrow> (bool \<times> 'a) result \<Rightarrow> bool \<times> 'a" where
  "or_false x r = (case r of Inl _ \<Rightarrow> (False, x) | Inr y \<Rightarrow> y)"

definition validator_of :: "chain_env \<Rightarrow> Blockchain \<Rightarrow> ITransactionValidator" where
  "validator_of E bc = \<lparr>
    checkTransactionInputs = (\<lambda>tx b. or_false b (checkTransactionInputs_max E bc tx b)),
    recheckTransactionInputs = (\<lambda>tx i. or_false i (checkTransactionInputs_failed E bc tx i)),
    haveSpentKeyImages = haveTransactionKeyImagesAsSpent bc,
    checkTransactionSize = bc_checkTransactionSize E bc\<rparr>"

section \<open>Checks of a block\<close>

text \<open>\<^verbatim>\<open>Common::medianValue\<close> on 64 bit numbers; the sum of the two middle elements may wrap.\<close>

definition medianValue :: "u64 list \<Rightarrow> u64" where
  "medianValue v =
    (if v = [] then 0
     else if length v = 1 then v ! 0
     else
       let n = length v div 2; v = sort v in
       if length v mod 2 \<noteq> 0 then v ! n else (v ! (n - 1) + v ! n) div 2)"

definition difficultyBlocksCount :: "currency \<Rightarrow> nat" where
  "difficultyBlocksCount c = m_difficultyWindow c + m_difficultyLag c"

definition getDifficultyForNextBlock :: "chain_env \<Rightarrow> Blockchain \<Rightarrow> u64 result" where
  "getDifficultyForNextBlock E bc =
    (let n = length (m_blocks bc);
         offset = n - min n (difficultyBlocksCount (ce_currency E));
         offset = (if offset = 0 then offset + 1 else offset);
         es = drop offset (m_blocks bc) in
     of_opt Undefined (nextDifficulty (ce_currency E) (map (\<lambda>e. timestamp (be_bl e)) es) (map cumulative_difficulty es)))"

definition check_block_timestamp :: "chain_env \<Rightarrow> u64 list \<Rightarrow> Block \<Rightarrow> bool" where
  "check_block_timestamp E timestamps b =
    (if length timestamps < m_timestampCheckWindow (ce_currency E) then True
     else \<not> timestamp b < medianValue timestamps)"

definition check_block_timestamp_main :: "chain_env \<Rightarrow> Blockchain \<Rightarrow> Block \<Rightarrow> bool" where
  "check_block_timestamp_main E bc b =
    (if timestamp b > ce_time E + m_blockFutureTimeLimit (ce_currency E) then False
     else
       let n = length (m_blocks bc); w = m_timestampCheckWindow (ce_currency E);
           offset = (if n \<le> w then 0 else n - w)
       in check_block_timestamp E (map (\<lambda>e. timestamp (be_bl e)) (drop offset (m_blocks bc))) b)"

definition prevalidate_miner_transaction :: "chain_env \<Rightarrow> Block \<Rightarrow> u32 \<Rightarrow> bool" where
  "prevalidate_miner_transaction E b height =
    (case inputs (baseTransaction b) of
       [VBaseInput i] \<Rightarrow>
         if blockIndex i \<noteq> height then False
         else if unlockTime (baseTransaction b) \<noteq> ucast height + m_minedMoneyUnlockWindow (ce_currency E) then False
         else check_outs_overflow (baseTransaction b)
     | _ \<Rightarrow> False)"

text \<open>The result is the returned value and the sizes that are appended.\<close>

definition getBackwardBlocksSize :: "Blockchain \<Rightarrow> nat \<Rightarrow> nat \<Rightarrow> bool \<times> u64 list" where
  "getBackwardBlocksSize bc from_height cnt =
    (if \<not> from_height < length (m_blocks bc) then (False, [])
     else let start_offset = (from_height + 1) - min (from_height + 1) cnt in
       (True, map block_cumulative_size (drop start_offset (take (from_height + 1) (m_blocks bc)))))"

definition get_last_n_blocks_sizes :: "Blockchain \<Rightarrow> nat \<Rightarrow> bool \<times> u64 list" where
  "get_last_n_blocks_sizes bc cnt =
    (if m_blocks bc = [] then (True, []) else getBackwardBlocksSize bc (length (m_blocks bc) - 1) cnt)"

text \<open>The result is the returned value, \<^verbatim>\<open>reward\<close> and \<^verbatim>\<open>emissionChange\<close>.\<close>

definition validate_miner_transaction :: "chain_env \<Rightarrow> Blockchain \<Rightarrow> Block \<Rightarrow> u64 \<Rightarrow> u64 \<Rightarrow> u64 \<Rightarrow> (bool \<times> u64 \<times> u64) result" where
  "validate_miner_transaction E bc b cumulativeBlockSize alreadyGeneratedCoins fee =
    (let minerReward = fold (\<lambda>out r. r + to_amount out) (outputs (baseTransaction b)) 0;
         lastBlocksSizes = snd (get_last_n_blocks_sizes bc (m_rewardBlocksWindow (ce_currency E)));
         blocksSizeMedian = medianValue lastBlocksSizes in
     bindR (of_opt Undefined (getBlockReward (ce_currency E) blocksSizeMedian cumulativeBlockSize alreadyGeneratedCoins fee)) (\<lambda>r.
       case r of
         None \<Rightarrow> Inr (False, 0, 0)
       | Some (reward, emissionChange) \<Rightarrow>
           if minerReward > reward then Inr (False, reward, emissionChange)
           else if minerReward < reward then Inr (False, reward, emissionChange)
           else Inr (True, reward, emissionChange)))"

definition checkCumulativeBlockSize :: "chain_env \<Rightarrow> u64 \<Rightarrow> u64 \<Rightarrow> bool result" where
  "checkCumulativeBlockSize E cumulativeBlockSize height =
    bindR (of_opt Undefined (maxBlockCumulativeSize (ce_currency E) height)) (\<lambda>maxBlockCumulativeSize.
      Inr (\<not> cumulativeBlockSize > maxBlockCumulativeSize))"

definition update_next_comulative_size_limit :: "chain_env \<Rightarrow> Blockchain \<Rightarrow> Blockchain" where
  "update_next_comulative_size_limit E bc =
    (let sz = snd (get_last_n_blocks_sizes bc (m_rewardBlocksWindow (ce_currency E)));
         zone = m_blockGrantedFullRewardZone (ce_currency E);
         median = medianValue sz;
         median = (if median \<le> zone then zone else median)
     in bc\<lparr>m_current_block_cumul_sz_limit := median * 2\<rparr>)"

section \<open>Pushing a transaction\<close>

text \<open>
  Key images are inserted one by one; where one is there already those inserted before are erased again,
  which throws at an input that is no key input. \<open>before\<close> is the list of the inputs before, the last first.
\<close>

fun unspend_before :: "TransactionInput list \<Rightarrow> KeyImage set \<Rightarrow> KeyImage set result" where
  "unspend_before [] ks = Inr ks"
| "unspend_before (VKeyInput i # before) ks = unspend_before before (ks - {keyImage i})"
| "unspend_before (_ # before) ks = Inl (Failed ''boost::bad_get'')"

fun spend_images :: "TransactionInput list \<Rightarrow> TransactionInput list \<Rightarrow> KeyImage set \<Rightarrow> (bool \<times> KeyImage set) result" where
  "spend_images before [] ks = Inr (True, ks)"
| "spend_images before (VKeyInput i # is) ks =
    (if keyImage i \<in> ks then bindR (unspend_before before ks) (\<lambda>ks. Inr (False, ks))
     else spend_images (VKeyInput i # before) is (insert (keyImage i) ks))"
| "spend_images before (i # is) ks = spend_images (i # before) is ks"

text \<open>The loop that sets \<^verbatim>\<open>isUsed\<close>; \<^verbatim>\<open>operator[]\<close> of the table makes an empty entry for a new amount.\<close>

fun mark_used :: "bool \<Rightarrow> TransactionInput list \<Rightarrow> MultisignatureOutputsContainer \<Rightarrow> MultisignatureOutputsContainer result" where
  "mark_used u [] ms = Inr ms"
| "mark_used u (VMultisignatureInput i # is) ms =
    (let amountOutputs = (case ms (mi_amount i) of None \<Rightarrow> [] | Some us \<Rightarrow> us); n = unat (outputIndex i) in
     if length amountOutputs \<le> n then Inl Undefined
     else mark_used u is (ms(mi_amount i \<mapsto> amountOutputs[n := (amountOutputs ! n)\<lparr>isUsed := u\<rparr>])))"
| "mark_used u (_ # is) ms = mark_used u is ms"

text \<open>The loop over the outputs; the result is the global indexes and the two tables.\<close>

fun push_outputs :: "TransactionIndex \<Rightarrow> u16 \<Rightarrow> TransactionOutput list \<Rightarrow> outputs_container \<times> MultisignatureOutputsContainer
    \<Rightarrow> u32 list \<times> outputs_container \<times> MultisignatureOutputsContainer" where
  "push_outputs ti n [] (outs, ms) = ([], outs, ms)"
| "push_outputs ti n (out # os) (outs, ms) =
    (case to_target out of
       VKeyOutput k \<Rightarrow>
         let amountOutputs = (case outs (to_amount out) of None \<Rightarrow> [] | Some xs \<Rightarrow> xs);
             (is, r) = push_outputs ti (n + 1) os (outs(to_amount out \<mapsto> amountOutputs @ [(ti, n)]), ms)
         in (of_nat (length amountOutputs) # is, r)
     | VMultisignatureOutput m \<Rightarrow>
         let amountOutputs = (case ms (to_amount out) of None \<Rightarrow> [] | Some xs \<Rightarrow> xs);
             usage = \<lparr>mu_transactionIndex = ti, mu_outputIndex = n, isUsed = False\<rparr>;
             (is, r) = push_outputs ti (n + 1) os (outs, ms(to_amount out \<mapsto> amountOutputs @ [usage]))
         in (of_nat (length amountOutputs) # is, r))"

text \<open>
  The counter of the loop over the outputs has 16 bits: with more outputs than it can count the loop goes
  on until there is no memory.
\<close>

definition pushTransaction :: "BlockEntry \<Rightarrow> Hash \<Rightarrow> TransactionIndex \<Rightarrow> Blockchain \<Rightarrow> (bool \<times> BlockEntry \<times> Blockchain) result" where
  "pushTransaction block transactionHash ti bc =
    (if m_transactionMap bc transactionHash \<noteq> None then Inr (False, block, bc)
     else if length (be_transactions block) \<le> unat (ti_transaction ti) then Inl Undefined
     else
       let bc = bc\<lparr>m_transactionMap := (m_transactionMap bc)(transactionHash \<mapsto> ti)\<rparr>;
           te = be_transactions block ! unat (ti_transaction ti); tx = te_tx te in
       if \<not> checkMultisignatureInputsDiff tx
       then Inr (False, block, bc\<lparr>m_transactionMap := (m_transactionMap bc)(transactionHash := None)\<rparr>)
       else bindR (spend_images [] (inputs tx) (m_spent_keys bc)) (\<lambda>(ok, ks).
         let bc = bc\<lparr>m_spent_keys := ks\<rparr> in
         if \<not> ok then Inr (False, block, bc\<lparr>m_transactionMap := (m_transactionMap bc)(transactionHash := None)\<rparr>)
         else bindR (mark_used True (inputs tx) (m_multisignatureOutputs bc)) (\<lambda>ms.
           if 2 ^ 16 \<le> length (outputs tx) then Inl (Failed ''std::bad_alloc'')
           else
             let (is, outs, ms) = push_outputs ti 0 (outputs tx) (m_outputs bc, ms);
                 te = te\<lparr>m_global_output_indexes := is\<rparr> in
             Inr (True, block\<lparr>be_transactions := (be_transactions block)[unat (ti_transaction ti) := te]\<rparr>,
               bc\<lparr>m_outputs := outs, m_multisignatureOutputs := ms,
                 bc_paymentIds := snd (payment_add tx (bc_paymentIds bc))\<rparr>))))"

section \<open>Popping a transaction\<close>

text \<open>One step of the loop over the outputs, from the last; where the tables are not as expected it does nothing.\<close>

definition pop_output :: "TransactionIndex \<Rightarrow> nat \<times> TransactionOutput \<Rightarrow> outputs_container \<times> MultisignatureOutputsContainer
    \<Rightarrow> outputs_container \<times> MultisignatureOutputsContainer" where
  "pop_output ti = (\<lambda>(n, out) (outs, ms).
    case to_target out of
      VKeyOutput k \<Rightarrow>
        (case outs (to_amount out) of
           None \<Rightarrow> (outs, ms)
         | Some amountOutputs \<Rightarrow>
             if amountOutputs = [] then (outs, ms)
             else if ti_block (fst (last amountOutputs)) \<noteq> ti_block ti
               \<or> ti_transaction (fst (last amountOutputs)) \<noteq> ti_transaction ti then (outs, ms)
             else if unat (snd (last amountOutputs)) \<noteq> n then (outs, ms)
             else
               let amountOutputs = butlast amountOutputs in
               (outs(to_amount out := (if amountOutputs = [] then None else Some amountOutputs)), ms))
    | VMultisignatureOutput m \<Rightarrow>
        (case ms (to_amount out) of
           None \<Rightarrow> (outs, ms)
         | Some amountOutputs \<Rightarrow>
             if amountOutputs = [] then (outs, ms)
             else if isUsed (last amountOutputs) then (outs, ms)
             else if ti_block (mu_transactionIndex (last amountOutputs)) \<noteq> ti_block ti
               \<or> ti_transaction (mu_transactionIndex (last amountOutputs)) \<noteq> ti_transaction ti then (outs, ms)
             else if unat (mu_outputIndex (last amountOutputs)) \<noteq> n then (outs, ms)
             else
               let amountOutputs = butlast amountOutputs in
               (outs, ms(to_amount out := (if amountOutputs = [] then None else Some amountOutputs)))))"

fun unspend_image :: "TransactionInput \<Rightarrow> KeyImage set \<Rightarrow> KeyImage set" where
  "unspend_image (VKeyInput i) ks = ks - {keyImage i}"
| "unspend_image _ ks = ks"

definition popTransaction :: "Transaction \<Rightarrow> Hash \<Rightarrow> Blockchain \<Rightarrow> Blockchain result" where
  "popTransaction transaction transactionHash bc =
    bindR (of_opt (Failed ''std::out_of_range'') (m_transactionMap bc transactionHash)) (\<lambda>ti.
      let (outs, ms) = fold (pop_output ti) (rev (List.enumerate 0 (outputs transaction))) (m_outputs bc, m_multisignatureOutputs bc) in
      bindR (mark_used False (inputs transaction) ms) (\<lambda>ms.
        Inr (bc\<lparr>m_outputs := outs, m_multisignatureOutputs := ms,
          m_spent_keys := fold unspend_image (inputs transaction) (m_spent_keys bc),
          bc_paymentIds := snd (payment_remove transaction (bc_paymentIds bc)),
          m_transactionMap := (m_transactionMap bc)(transactionHash := None)\<rparr>)))"

definition popTransactions :: "BlockEntry \<Rightarrow> Hash \<Rightarrow> Blockchain \<Rightarrow> Blockchain result" where
  "popTransactions block minerTransactionHash bc =
    (if be_transactions block = [] \<or> length (transactionHashes (be_bl block)) < length (be_transactions block) - 1
     then Inl Undefined
     else
       bindR (foldR (\<lambda>(te, h). popTransaction (te_tx te) h)
         (rev (zip (tl (be_transactions block)) (transactionHashes (be_bl block)))) bc)
       (popTransaction (baseTransaction (be_bl block)) minerTransactionHash))"

section \<open>Transactions from and to the pool\<close>

definition new_tvc :: tx_verification_context where
  "new_tvc = \<lparr>m_should_be_relayed = False, m_verifivation_failed = False, m_verifivation_impossible = False,
    m_added_to_pool = False, m_tx_fee_too_small = False\<rparr>"

text \<open>
  \<^verbatim>\<open>m_tx_pool.add_tx(tx, context, true)\<close>, where the pool asks the chain, as it is, about the inputs. An exception
  of that check leaves \<^verbatim>\<open>add_tx\<close>; the tests before it are those of \<open>add_tx\<close> for a transaction of a block.
\<close>

definition add_kept :: "chain_env \<Rightarrow> Transaction \<Rightarrow> Blockchain \<Rightarrow> (bool \<times> Blockchain) result" where
  "add_kept E tx bc =
    bindR (if check_inputs_types_supported tx \<and> \<not> get_outs_money_amount tx > get_inputs_money_amount tx
           then checkTransactionInputs_max E bc tx BlockInfo_clear else Inr (False, BlockInfo_clear)) (\<lambda>_.
      let (r, _, p) = add_tx_object (ce_currency E) (validator_of E bc) (ce_time E) tx new_tvc True (m_tx_pool bc) in
      Inr (r, bc\<lparr>m_tx_pool := p\<rparr>))"

definition save_transaction :: "string \<Rightarrow> chain_env \<Rightarrow> Transaction \<Rightarrow> Blockchain \<Rightarrow> Blockchain result" where
  "save_transaction msg E tx bc =
    bindR (add_kept E tx bc) (\<lambda>(r, bc). if \<not> r then Inl (Failed msg) else Inr bc)"

definition saveTransactions :: "chain_env \<Rightarrow> Transaction list \<Rightarrow> Blockchain \<Rightarrow> Blockchain result" where
  "saveTransactions E transactions bc =
    foldR (save_transaction ''Blockchain::saveTransactions, failed to add transaction to pool'' E) (rev transactions) bc"

text \<open>The loop of \<^verbatim>\<open>loadTransactions\<close>; \<open>taken\<close> is the transactions taken so far, the last first.\<close>

fun load_loop :: "chain_env \<Rightarrow> Hash list \<Rightarrow> Transaction list \<Rightarrow> Blockchain \<Rightarrow> (Transaction list option \<times> Blockchain) result" where
  "load_loop E [] taken bc = Inr (Some (rev taken), bc)"
| "load_loop E (h # hs) taken bc =
    (case take_tx h (m_tx_pool bc) of
       (None, p) \<Rightarrow>
         bindR (foldR (save_transaction ''Blockchain::loadTransactions, failed to add transaction to pool'' E) taken
           (bc\<lparr>m_tx_pool := p\<rparr>)) (\<lambda>bc. Inr (None, bc))
     | (Some (tx, _, _), p) \<Rightarrow> load_loop E hs (tx # taken) (bc\<lparr>m_tx_pool := p\<rparr>))"

definition loadTransactions :: "chain_env \<Rightarrow> Block \<Rightarrow> Blockchain \<Rightarrow> (Transaction list option \<times> Blockchain) result" where
  "loadTransactions E block bc = load_loop E (transactionHashes block) [] bc"

section \<open>Pushing and popping a block\<close>

text \<open>The overload of \<^verbatim>\<open>pushBlock\<close> for an entry.\<close>

definition pushBlock_entry :: "BlockEntry \<Rightarrow> Blockchain \<Rightarrow> Blockchain result" where
  "pushBlock_entry block bc =
    (let blockHash = snd (get_block_hash (be_bl block)) in
     bindR (of_opt (Failed ''boost::bad_get'') (generated_add (be_bl block) (m_generatedTransactionsIndex bc))) (\<lambda>(_, g).
       Inr (bc\<lparr>m_blocks := m_blocks bc @ [block], m_blockIndex := snd (push (m_blockIndex bc) blockHash),
         bc_timestamps := snd (timestamp_add (timestamp (be_bl block)) blockHash (bc_timestamps bc)),
         m_generatedTransactionsIndex := g\<rparr>)))"

text \<open>
  The loop over the transactions, with the index of the last transaction, the size and the fees so far.
  A transaction that cannot be serialized has no size here.
\<close>

fun push_transactions :: "chain_env \<Rightarrow> Hash \<Rightarrow> Transaction list \<Rightarrow> Hash list \<Rightarrow> BlockEntry \<Rightarrow> TransactionIndex \<Rightarrow> u64 \<Rightarrow> u64
    \<Rightarrow> Blockchain \<Rightarrow> (bool \<times> BlockEntry \<times> u64 \<times> u64 \<times> Blockchain) result" where
  "push_transactions E minerTransactionHash [] hs block ti sz fee bc = Inr (True, block, sz, fee, bc)"
| "push_transactions E minerTransactionHash (tx # txs) [] block ti sz fee bc = Inl Undefined"
| "push_transactions E minerTransactionHash (tx # txs) (tx_id # hs) block ti sz fee bc =
    bindR (of_opt Undefined (toBinaryArray out_Transaction tx)) (\<lambda>ba.
    bindR (bc_checkTransactionInputs E bc tx) (\<lambda>(ok, _).
      if \<not> ok
      then bindR (popTransactions block minerTransactionHash bc) (\<lambda>bc. Inr (False, block, sz, fee, bc))
      else
        let ti = ti\<lparr>ti_transaction := ti_transaction ti + 1\<rparr>;
            block = block\<lparr>be_transactions := be_transactions block @ [\<lparr>te_tx = tx, m_global_output_indexes = []\<rparr>]\<rparr> in
        bindR (pushTransaction block tx_id ti bc) (\<lambda>(_, block, bc).
          push_transactions E minerTransactionHash txs hs block ti (sz + of_nat (length ba))
            (fee + (getInputAmount tx - getOutputAmount tx)) bc)))"

text \<open>The part of \<^verbatim>\<open>pushBlock\<close> behind the checks of the header.\<close>

definition push_checked :: "chain_env \<Rightarrow> Block \<Rightarrow> Transaction list \<Rightarrow> u64 \<Rightarrow> block_verification_context \<Rightarrow> Blockchain
    \<Rightarrow> (bool \<times> block_verification_context \<times> Blockchain) result" where
  "push_checked E blockData transactions currentDifficulty bvc bc =
    (let minerTransactionHash = getObjectHash_value out_Transaction (baseTransaction blockData);
         block = \<lparr>be_bl = blockData, be_height = 0, block_cumulative_size = 0, cumulative_difficulty = 0,
           already_generated_coins = 0,
           be_transactions = [\<lparr>te_tx = baseTransaction blockData, m_global_output_indexes = []\<rparr>]\<rparr>;
         ti = \<lparr>ti_block = of_nat (length (m_blocks bc)), ti_transaction = 0\<rparr>;
         coinbase_blob_size = of_nat (getObjectBinarySize out_Transaction (baseTransaction blockData)) in
     bindR (pushTransaction block minerTransactionHash ti bc) (\<lambda>(_, block, bc).
     bindR (push_transactions E minerTransactionHash transactions (transactionHashes blockData) block ti
       coinbase_blob_size 0 bc) (\<lambda>(ok, block, cumulative_block_size, fee_summary, bc).
     if \<not> ok then Inr (False, bvc_failed bvc, bc)
     else bindR (checkCumulativeBlockSize E cumulative_block_size (of_nat (length (m_blocks bc)))) (\<lambda>ok.
     if \<not> ok then Inr (False, bvc_failed bvc, bc)
     else
       let generated = getCoinsInCirculation bc in
       bindR (validate_miner_transaction E bc blockData cumulative_block_size generated fee_summary) (\<lambda>(ok, reward, emissionChange).
       if \<not> ok
       then bindR (popTransactions block minerTransactionHash bc) (\<lambda>bc. Inr (False, bvc_failed bvc, bc))
       else
         let block = block\<lparr>be_height := of_nat (length (m_blocks bc)), block_cumulative_size := cumulative_block_size,
               cumulative_difficulty := (if m_blocks bc = [] then currentDifficulty
                 else currentDifficulty + cumulative_difficulty (last (m_blocks bc))),
               already_generated_coins := generated + emissionChange\<rparr> in
         bindR (pushBlock_entry block bc) (\<lambda>bc.
           Inr (True, bvc\<lparr>m_added_to_main_chain := True\<rparr>, update_next_comulative_size_limit E bc)))))))"

text \<open>The overload of \<^verbatim>\<open>pushBlock\<close> with the transactions.\<close>

definition pushBlock_transactions :: "chain_env \<Rightarrow> Block \<Rightarrow> Transaction list \<Rightarrow> block_verification_context \<Rightarrow> Blockchain
    \<Rightarrow> (bool \<times> block_verification_context \<times> Blockchain) result" where
  "pushBlock_transactions E blockData transactions bvc bc =
    (let blockHash = snd (get_block_hash blockData); h = getCurrentBlockchainHeight bc in
     if hasBlock (m_blockIndex bc) blockHash then Inr (False, bvc_failed bvc, bc)
     else bindR (bc_getTailId bc) (\<lambda>tail.
     if previousBlockHash blockData \<noteq> tail then Inr (False, bvc_failed bvc, bc)
     else if \<not> check_block_timestamp_main E bc blockData then Inr (False, bvc_failed bvc, bc)
     else bindR (getDifficultyForNextBlock E bc) (\<lambda>currentDifficulty.
     if currentDifficulty = 0 then Inr (False, bvc, bc)
     else if \<not> (if is_in_checkpoint_zone (m_checkpoints bc) h then check_block (m_checkpoints bc) h blockHash
                 else checkProofOfWork (ce_slow_hash E) blockData currentDifficulty) then Inr (False, bvc_failed bvc, bc)
     else if \<not> prevalidate_miner_transaction E blockData h then Inr (False, bvc_failed bvc, bc)
     else push_checked E blockData transactions currentDifficulty bvc bc)))"

definition pushBlock :: "chain_env \<Rightarrow> Block \<Rightarrow> block_verification_context \<Rightarrow> Blockchain
    \<Rightarrow> (bool \<times> block_verification_context \<times> Blockchain) result" where
  "pushBlock E blockData bvc bc =
    bindR (loadTransactions E blockData bc) (\<lambda>(txs, bc).
      case txs of
        None \<Rightarrow> Inr (False, bvc_failed bvc, bc)
      | Some transactions \<Rightarrow>
          bindR (pushBlock_transactions E blockData transactions bvc bc) (\<lambda>(ok, bvc, bc).
            if \<not> ok then bindR (saveTransactions E transactions bc) (\<lambda>bc. Inr (False, bvc, bc))
            else Inr (True, bvc, bc)))"

definition popBlock :: "chain_env \<Rightarrow> Hash \<Rightarrow> Blockchain \<Rightarrow> Blockchain result" where
  "popBlock E blockHash bc =
    (if m_blocks bc = [] then Inr bc
     else
       let e = last (m_blocks bc) in
       if be_transactions e = [] then Inl (Failed ''std::length_error'')
       else bindR (saveTransactions E (map te_tx (tl (be_transactions e))) bc) (\<lambda>bc.
         bindR (popTransactions e (getObjectHash_value out_Transaction (baseTransaction (be_bl e))) bc) (\<lambda>bc.
         bindR (of_opt (Failed ''boost::bad_get'') (generated_remove (be_bl e) (m_generatedTransactionsIndex bc))) (\<lambda>(_, g).
         bindR (of_opt Undefined (pop (m_blockIndex bc))) (\<lambda>bi.
           Inr (bc\<lparr>bc_timestamps := snd (timestamp_remove (timestamp (be_bl e)) blockHash (bc_timestamps bc)),
             m_generatedTransactionsIndex := g, m_blocks := butlast (m_blocks bc), m_blockIndex := bi\<rparr>))))))"

section \<open>Rebuilding\<close>

fun rebuild_inputs :: "TransactionInput list \<Rightarrow> KeyImage set \<times> MultisignatureOutputsContainer
    \<Rightarrow> (KeyImage set \<times> MultisignatureOutputsContainer) result" where
  "rebuild_inputs [] (ks, ms) = Inr (ks, ms)"
| "rebuild_inputs (VKeyInput i # is) (ks, ms) = rebuild_inputs is (insert (keyImage i) ks, ms)"
| "rebuild_inputs (VMultisignatureInput i # is) (ks, ms) =
    bindR (mark_used True [VMultisignatureInput i] ms) (\<lambda>ms. rebuild_inputs is (ks, ms))"
| "rebuild_inputs (VBaseInput i # is) (ks, ms) = rebuild_inputs is (ks, ms)"

text \<open>\<^verbatim>\<open>insert\<close> of the table of transactions keeps an entry that is there.\<close>

definition rebuild_transaction :: "nat \<Rightarrow> nat \<times> TransactionEntry \<Rightarrow> Blockchain \<Rightarrow> Blockchain result" where
  "rebuild_transaction b = (\<lambda>(t, te) bc.
    let tx = te_tx te; transactionHash = getObjectHash_value out_Transaction tx;
        ti = \<lparr>ti_block = of_nat b, ti_transaction = of_nat t\<rparr>;
        txs = (if m_transactionMap bc transactionHash = None then (m_transactionMap bc)(transactionHash \<mapsto> ti)
               else m_transactionMap bc) in
    bindR (rebuild_inputs (inputs tx) (m_spent_keys bc, m_multisignatureOutputs bc)) (\<lambda>(ks, ms).
      if 2 ^ 16 \<le> length (outputs tx) then Inl (Failed ''std::bad_alloc'')
      else let (_, outs, ms) = push_outputs ti 0 (outputs tx) (m_outputs bc, ms) in
        Inr (bc\<lparr>m_transactionMap := txs, m_spent_keys := ks, m_outputs := outs, m_multisignatureOutputs := ms\<rparr>)))"

definition rebuild_block :: "nat \<times> BlockEntry \<Rightarrow> Blockchain \<Rightarrow> Blockchain result" where
  "rebuild_block = (\<lambda>(b, e) bc.
    let bc = bc\<lparr>m_blockIndex := snd (push (m_blockIndex bc) (snd (get_block_hash (be_bl e))))\<rparr> in
    if 2 ^ 16 \<le> length (be_transactions e) then Inl (Failed ''std::bad_alloc'')
    else foldR (rebuild_transaction b) (List.enumerate 0 (be_transactions e)) bc)"

definition rebuildCache :: "Blockchain \<Rightarrow> Blockchain result" where
  "rebuildCache bc =
    foldR rebuild_block (List.enumerate 0 (m_blocks bc))
      (bc\<lparr>m_blockIndex := clear (m_blockIndex bc), m_transactionMap := Map.empty, m_spent_keys := {},
        m_outputs := Map.empty, m_multisignatureOutputs := Map.empty\<rparr>)"

end
