(* ===== verification/AlternativeChains.thy ===== *)
theory AlternativeChains
  imports Blockchain
begin

text \<open>
  \<^verbatim>\<open>src/OrbisCore/Blockchain.cpp\<close>: blocks that do not extend the main chain. They are kept in the table
  \<open>m_alternative_chains\<close>; a list of iterators into that table is the list of the pairs the iterators point
  to. A chain of them that has more work than the main chain, or a checkpoint, replaces its end.
\<close>

section \<open>Checks of an alternative block\<close>

text \<open>The transactions of the chain with these hashes, in order, and the hashes that are not there.\<close>

fun getBlockchainTransactions :: "Blockchain \<Rightarrow> Hash list \<Rightarrow> (Transaction list \<times> Hash list) result" where
  "getBlockchainTransactions bc [] = Inr ([], [])"
| "getBlockchainTransactions bc (tx_id # ids) =
    (case m_transactionMap bc tx_id of
       None \<Rightarrow> bindR (getBlockchainTransactions bc ids) (\<lambda>(txs, missed). Inr (txs, tx_id # missed))
     | Some ti \<Rightarrow> bindR (transactionByIndex bc ti) (\<lambda>te.
         bindR (getBlockchainTransactions bc ids) (\<lambda>(txs, missed). Inr (te_tx te # txs, missed))))"

definition bc_getTransactions :: "Blockchain \<Rightarrow> Hash list \<Rightarrow> bool \<Rightarrow> (Transaction list \<times> Hash list) result" where
  "bc_getTransactions bc txs_ids checkTxPool =
    (if checkTxPool
     then bindR (getBlockchainTransactions bc txs_ids) (\<lambda>(txs, poolTxIds).
       let (pool, missed_txs) = getTransactions poolTxIds (m_tx_pool bc) in Inr (txs @ pool, missed_txs))
     else getBlockchainTransactions bc txs_ids)"

text \<open>The result is the returned value and \<^verbatim>\<open>cumulativeSize\<close>.\<close>

definition getBlockCumulativeSize :: "Blockchain \<Rightarrow> Block \<Rightarrow> (bool \<times> u64) result" where
  "getBlockCumulativeSize bc block =
    bindR (bc_getTransactions bc (transactionHashes block) True) (\<lambda>(blockTxs, missedTxs).
      let size_of = (\<lambda>tx. of_nat (getObjectBinarySize out_Transaction tx)) in
      Inr (missedTxs = [], fold (\<lambda>tx cumulativeSize. cumulativeSize + size_of tx) blockTxs (size_of (baseTransaction block))))"

text \<open>
  The loop that collects the times of main chain blocks downwards from \<open>start_top_height\<close>; it ends before
  \<open>stop_offset\<close>, or at the first block.
\<close>

fun timestamps_down :: "BlockEntry list \<Rightarrow> nat \<Rightarrow> nat \<Rightarrow> u64 list" where
  "timestamps_down bs stop_offset 0 = [timestamp (be_bl (bs ! 0))]"
| "timestamps_down bs stop_offset (Suc h) =
    timestamp (be_bl (bs ! Suc h)) # (if h = stop_offset then [] else timestamps_down bs stop_offset h)"

definition complete_timestamps_vector :: "chain_env \<Rightarrow> Blockchain \<Rightarrow> nat \<Rightarrow> u64 list \<Rightarrow> u64 list" where
  "complete_timestamps_vector E bc start_top_height timestamps =
    (let window = m_timestampCheckWindow (ce_currency E) in
     if window \<le> length timestamps then timestamps
     else if \<not> start_top_height < length (m_blocks bc) then timestamps
     else
       let need_elements = window - length timestamps;
           stop_offset = (if start_top_height > need_elements then start_top_height - need_elements else 0)
       in timestamps @ timestamps_down (m_blocks bc) stop_offset start_top_height)"

definition get_next_difficulty_for_alternative_chain :: "chain_env \<Rightarrow> Blockchain \<Rightarrow> BlockEntry list \<Rightarrow> u32 \<Rightarrow> u64 result" where
  "get_next_difficulty_for_alternative_chain E bc alt_chain bei_height =
    (let blocks_count = difficultyBlocksCount (ce_currency E) in
     if length alt_chain < blocks_count
     then
       let main_chain_stop_offset = unat (if alt_chain \<noteq> [] then be_height (hd alt_chain) else bei_height);
           main_chain_count = blocks_count - min blocks_count (length alt_chain);
           main_chain_count = min main_chain_count main_chain_stop_offset;
           main_chain_start_offset = main_chain_stop_offset - main_chain_count;
           main_chain_start_offset = (if main_chain_start_offset = 0 then 1 else main_chain_start_offset) in
       if main_chain_start_offset < main_chain_stop_offset \<and> length (m_blocks bc) < main_chain_stop_offset
       then Inl (Failed ''SwappedVector::operator[]'')
       else
         let main = drop main_chain_start_offset (take main_chain_stop_offset (m_blocks bc)) in
         if \<not> length alt_chain + length main \<le> blocks_count then Inr 0
         else of_opt Undefined (nextDifficulty (ce_currency E)
           (map (\<lambda>e. timestamp (be_bl e)) (main @ alt_chain)) (map cumulative_difficulty (main @ alt_chain)))
     else if blocks_count = 0 \<and> alt_chain \<noteq> [] then Inl Undefined
     else
       let last_ones = drop (length alt_chain - blocks_count) alt_chain in
       of_opt Undefined (nextDifficulty (ce_currency E)
         (map (\<lambda>e. timestamp (be_bl e)) last_ones) (map cumulative_difficulty last_ones)))"

text \<open>
  The loop that follows the previous blocks through the table, the first block of the chain in front. A
  loop that never ends, which \<open>None\<close> stands for, fills the memory.
\<close>

partial_function (option) alt_walk :: "(Hash \<rightharpoonup> BlockEntry) \<Rightarrow> Hash \<Rightarrow> (Hash \<times> BlockEntry) list \<Rightarrow> (Hash \<times> BlockEntry) list option" where
  "alt_walk alts h alt_chain =
    (case alts h of
       None \<Rightarrow> Some alt_chain
     | Some e \<Rightarrow> alt_walk alts (previousBlockHash (be_bl e)) ((h, e) # alt_chain))"

section \<open>Messages\<close>

definition sendMessage :: "BlockchainMessage \<Rightarrow> Blockchain \<Rightarrow> Blockchain" where
  "sendMessage message bc = bc\<lparr>m_messageQueueList := map (\<lambda>(q, ms). (q, ms @ [message])) (m_messageQueueList bc)\<rparr>"

section \<open>Switching\<close>

text \<open>The loop that pops the blocks from \<open>split_height\<close> on. Its index has no sign, so for height 0 it does not end there.\<close>

fun disconnect :: "chain_env \<Rightarrow> nat \<Rightarrow> nat \<Rightarrow> Block list \<Rightarrow> Blockchain \<Rightarrow> (Block list \<times> Blockchain) result" where
  "disconnect E split_height 0 disconnected_chain bc =
    (if split_height = 0 then Inl (Failed ''SwappedVector::operator[]'') else Inr (disconnected_chain, bc))"
| "disconnect E split_height (Suc i) disconnected_chain bc =
    (if split_height \<le> i
     then bindR (block_at bc i) (\<lambda>e.
       let b = be_bl e in
       bindR (popBlock E (snd (get_block_hash b)) bc) (\<lambda>bc.
         disconnect E split_height i (b # disconnected_chain) bc))
     else Inr (disconnected_chain, bc))"

fun remove_failed :: "chain_env \<Rightarrow> nat \<Rightarrow> nat \<Rightarrow> Blockchain \<Rightarrow> Blockchain result" where
  "remove_failed E rollback_height 0 bc =
    (if rollback_height = 0 then Inl (Failed ''SwappedVector::operator[]'') else Inr bc)"
| "remove_failed E rollback_height (Suc i) bc =
    (if rollback_height \<le> i
     then bindR (block_at bc (length (m_blocks bc) - 1)) (\<lambda>e.
       bindR (popBlock E (snd (get_block_hash (be_bl e))) bc) (remove_failed E rollback_height i))
     else Inr bc)"

fun push_again :: "chain_env \<Rightarrow> Block list \<Rightarrow> Blockchain \<Rightarrow> (bool \<times> Blockchain) result" where
  "push_again E [] bc = Inr (True, bc)"
| "push_again E (bl # original_chain) bc =
    bindR (pushBlock E bl new_bvc bc) (\<lambda>(r, bvc, bc).
      if \<not> (r \<and> m_added_to_main_chain bvc) then Inr (False, bc) else push_again E original_chain bc)"

definition rollback_blockchain_switching :: "chain_env \<Rightarrow> Block list \<Rightarrow> nat \<Rightarrow> Blockchain \<Rightarrow> (bool \<times> Blockchain) result" where
  "rollback_blockchain_switching E original_chain rollback_height bc =
    bindR (remove_failed E rollback_height (length (m_blocks bc)) bc) (push_again E original_chain)"

definition drop_alternative :: "Hash \<times> BlockEntry \<Rightarrow> Blockchain \<Rightarrow> Blockchain result" where
  "drop_alternative = (\<lambda>(h, e) bc.
    bindR (of_opt (Failed ''boost::bad_get'') (orphan_remove (be_bl e) (m_orthanBlocksIndex bc))) (\<lambda>(_, ob).
      Inr (bc\<lparr>m_orthanBlocksIndex := ob, m_alternative_chains := (m_alternative_chains bc)(h := None)\<rparr>)))"

text \<open>The loop that connects the blocks of the alternative chain.\<close>

fun connect :: "chain_env \<Rightarrow> Block list \<Rightarrow> nat \<Rightarrow> (Hash \<times> BlockEntry) list \<Rightarrow> Blockchain \<Rightarrow> (bool \<times> Blockchain) result" where
  "connect E disconnected_chain split_height [] bc = Inr (True, bc)"
| "connect E disconnected_chain split_height (ch_ent # alt_chain) bc =
    bindR (pushBlock E (be_bl (snd ch_ent)) new_bvc bc) (\<lambda>(r, bvc, bc).
      if \<not> r \<or> \<not> m_added_to_main_chain bvc
      then bindR (rollback_blockchain_switching E disconnected_chain split_height bc) (\<lambda>(_, bc).
        bindR (foldR drop_alternative (ch_ent # alt_chain) bc) (\<lambda>bc. Inr (False, bc)))
      else connect E disconnected_chain split_height alt_chain bc)"

text \<open>
  The loop that makes the old blocks alternative ones. The function \<open>handle\<close> is \<^verbatim>\<open>handle_alternative_block\<close>
  without messages, which calls this one.
\<close>

fun push_old :: "(Block \<Rightarrow> Hash \<Rightarrow> block_verification_context \<Rightarrow> bool \<Rightarrow> Blockchain \<Rightarrow> (bool \<times> block_verification_context \<times> Blockchain) result)
    \<Rightarrow> Block list \<Rightarrow> Blockchain \<Rightarrow> (bool \<times> Blockchain) result" where
  "push_old handle [] bc = Inr (True, bc)"
| "push_old handle (old_ch_ent # old) bc =
    bindR (handle old_ch_ent (snd (get_block_hash old_ch_ent)) new_bvc False bc) (\<lambda>(r, _, bc).
      if \<not> r then Inr (False, bc) else push_old handle old bc)"

definition switch_to_alternative_blockchain ::
  "(Block \<Rightarrow> Hash \<Rightarrow> block_verification_context \<Rightarrow> bool \<Rightarrow> Blockchain \<Rightarrow> (bool \<times> block_verification_context \<times> Blockchain) result)
    \<Rightarrow> chain_env \<Rightarrow> (Hash \<times> BlockEntry) list \<Rightarrow> bool \<Rightarrow> Blockchain \<Rightarrow> (bool \<times> Blockchain) result" where
  "switch_to_alternative_blockchain handle E alt_chain discard_disconnected_chain bc =
    (if alt_chain = [] then Inr (False, bc)
     else
       let split_height = unat (be_height (snd (hd alt_chain))) in
       if \<not> length (m_blocks bc) > split_height then Inr (False, bc)
       else
         bindR (disconnect E split_height (length (m_blocks bc)) [] bc) (\<lambda>(disconnected_chain, bc).
         bindR (connect E disconnected_chain split_height alt_chain bc) (\<lambda>(ok, bc).
         if \<not> ok then Inr (False, bc)
         else bindR (if discard_disconnected_chain then Inr (True, bc) else push_old handle disconnected_chain bc) (\<lambda>(ok, bc).
         if \<not> ok
         then bindR (rollback_blockchain_switching E disconnected_chain split_height bc) (\<lambda>(_, bc). Inr (False, bc))
         else
           let blocksFromCommonRoot = previousBlockHash (be_bl (snd (hd alt_chain)))
                 # map (\<lambda>(_, e). snd (get_block_hash (be_bl e))) alt_chain in
           bindR (foldR drop_alternative alt_chain bc) (\<lambda>bc.
             Inr (True, sendMessage (ChainSwitchMessage blocksFromCommonRoot) bc))))))"

section \<open>An alternative block\<close>

text \<open>
  The times of the blocks before the block, the last first; \<open>None\<close> stands for \<^verbatim>\<open>return false\<close>.
\<close>

definition alternative_times :: "chain_env \<Rightarrow> (Hash \<times> BlockEntry) list \<Rightarrow> u32 option \<Rightarrow> Blockchain \<Rightarrow> u64 list option result" where
  "alternative_times E alt_chain mainPrev bc =
    (let timestamps = rev (map (\<lambda>(_, e). timestamp (be_bl e)) alt_chain) in
     if alt_chain \<noteq> []
     then
       let first = snd (hd alt_chain) in
       if \<not> length (m_blocks bc) > unat (be_height first) then Inr None
       else if be_height first = 0 then Inl (Failed ''SwappedVector::operator[]'')
       else if snd (get_block_hash (be_bl (m_blocks bc ! (unat (be_height first) - 1)))) \<noteq> previousBlockHash (be_bl first)
       then Inr None
       else Inr (Some (complete_timestamps_vector E bc (unat (be_height first) - 1) timestamps))
     else case mainPrev of
         None \<Rightarrow> Inr None
       | Some h \<Rightarrow> Inr (Some (complete_timestamps_vector E bc (unat h) timestamps)))"

text \<open>
  The part of \<^verbatim>\<open>handle_alternative_block\<close> behind the check of the time, up to the entry that is inserted: the
  result is the entry and whether it is a checkpoint, or the returned value.
\<close>

definition alternative_checked :: "chain_env \<Rightarrow> Block \<Rightarrow> Hash \<Rightarrow> block_verification_context \<Rightarrow> (Hash \<times> BlockEntry) list
    \<Rightarrow> BlockEntry option \<Rightarrow> u32 option \<Rightarrow> Blockchain
    \<Rightarrow> ((bool \<times> block_verification_context \<times> Blockchain) + (BlockEntry \<times> bool \<times> Blockchain)) result" where
  "alternative_checked E b i bvc alt_chain it_prev mainPrev bc =
    (let height = (case it_prev of Some e \<Rightarrow> be_height e + 1 | None \<Rightarrow> the mainPrev + 1);
         (ok, is_a_checkpoint) = check_block_flag (m_checkpoints bc) height i in
     if \<not> ok then Inr (Inl (False, bvc_failed bvc, bc))
     else
       let bc = bc\<lparr>m_is_in_checkpoint_zone := False\<rparr> in
       bindR (get_next_difficulty_for_alternative_chain E bc (map snd alt_chain) height) (\<lambda>current_diff.
       if current_diff = 0 then Inr (Inl (False, bvc, bc))
       else if \<not> checkProofOfWork (ce_slow_hash E) b current_diff then Inr (Inl (False, bvc_failed bvc, bc))
       else if \<not> prevalidate_miner_transaction E b height then Inr (Inl (False, bvc_failed bvc, bc))
       else bindR (case it_prev of Some e \<Rightarrow> Inr (cumulative_difficulty e)
           | None \<Rightarrow> bindR (block_at bc (unat (the mainPrev))) (\<lambda>e. Inr (cumulative_difficulty e))) (\<lambda>prev_diff.
         Inr (Inr (\<lparr>be_bl = b, be_height = height, block_cumulative_size = 0, cumulative_difficulty = prev_diff + current_diff,
           already_generated_coins = 0, be_transactions = []\<rparr>, is_a_checkpoint, bc)))))"

text \<open>The whole part up to the insertion; the list is the predecessors of the block in the table.\<close>

definition alternative_entry :: "chain_env \<Rightarrow> Block \<Rightarrow> Hash \<Rightarrow> block_verification_context \<Rightarrow> Blockchain
    \<Rightarrow> ((bool \<times> block_verification_context \<times> Blockchain) + ((Hash \<times> BlockEntry) list \<times> BlockEntry \<times> bool \<times> Blockchain)) result" where
  "alternative_entry E b i bvc bc =
    (let block_height = get_block_height b; failed = Inr (Inl (False, bvc_failed bvc, bc)) in
     if block_height = 0 then failed
     else if \<not> is_alternative_block_allowed (m_checkpoints bc) (getCurrentBlockchainHeight bc) block_height then failed
     else bindR (getBlockCumulativeSize bc b) (\<lambda>(_, cumulativeSize).
     bindR (checkCumulativeBlockSize E cumulativeSize (ucast block_height)) (\<lambda>ok.
     if \<not> ok then failed
     else
       let mainPrev = getBlockHeight (m_blockIndex bc) (previousBlockHash b); it_prev = m_alternative_chains bc (previousBlockHash b) in
       if it_prev = None \<and> mainPrev = None then Inr (Inl (True, bvc\<lparr>m_marked_as_orphaned := True\<rparr>, bc))
       else bindR (of_opt (Failed ''std::bad_alloc'') (alt_walk (m_alternative_chains bc) (previousBlockHash b) [])) (\<lambda>alt_chain.
       bindR (alternative_times E alt_chain mainPrev bc) (\<lambda>ts.
       case ts of
         None \<Rightarrow> Inr (Inl (False, bvc, bc))
       | Some timestamps \<Rightarrow>
           if \<not> check_block_timestamp E timestamps b then failed
           else bindR (alternative_checked E b i bvc alt_chain it_prev mainPrev bc) (\<lambda>r.
             Inr (case r of Inl returned \<Rightarrow> Inl returned | Inr entry \<Rightarrow> Inr (alt_chain, entry))))))))"

text \<open>
  The function and \<^verbatim>\<open>switch_to_alternative_blockchain\<close> call each other: \<open>handle\<close> is the inner call, and the
  first argument of \<open>handle_alternative_block\<close> is how deep the calls may be nested before there is no stack left.
\<close>

definition handle_alternative_step ::
  "(Block \<Rightarrow> Hash \<Rightarrow> block_verification_context \<Rightarrow> bool \<Rightarrow> Blockchain \<Rightarrow> (bool \<times> block_verification_context \<times> Blockchain) result)
    \<Rightarrow> chain_env \<Rightarrow> Block \<Rightarrow> Hash \<Rightarrow> block_verification_context \<Rightarrow> bool \<Rightarrow> Blockchain
    \<Rightarrow> (bool \<times> block_verification_context \<times> Blockchain) result" where
  "handle_alternative_step handle E b i bvc sendNewAlternativeBlockMessage bc =
    bindR (alternative_entry E b i bvc bc) (\<lambda>r.
      case r of
        Inl returned \<Rightarrow> Inr returned
      | Inr (alt_chain, bei, is_a_checkpoint, bc) \<Rightarrow>
          if m_alternative_chains bc i \<noteq> None then Inr (False, bvc, bc)
          else
            bindR (of_opt (Failed ''boost::bad_get'') (orphan_add (be_bl bei) (m_orthanBlocksIndex bc))) (\<lambda>(_, ob).
            let bc = bc\<lparr>m_alternative_chains := (m_alternative_chains bc)(i \<mapsto> bei), m_orthanBlocksIndex := ob\<rparr>;
                alt_chain = alt_chain @ [(i, bei)];
                reorganize = (\<lambda>discard.
                  bindR (switch_to_alternative_blockchain handle E alt_chain discard bc) (\<lambda>(r, bc).
                    Inr (r, if r then bvc\<lparr>m_added_to_main_chain := True, m_switched_to_alt_chain := True\<rparr> else bvc_failed bvc, bc))) in
            if is_a_checkpoint then reorganize True
            else bindR (block_at bc (length (m_blocks bc) - 1)) (\<lambda>back.
              if cumulative_difficulty back < cumulative_difficulty bei then reorganize False
              else Inr (True, bvc, if sendNewAlternativeBlockMessage then sendMessage (NewAlternativeBlockMessage i) bc else bc))))"

primrec handle_alternative_block :: "nat \<Rightarrow> chain_env \<Rightarrow> Block \<Rightarrow> Hash \<Rightarrow> block_verification_context \<Rightarrow> bool \<Rightarrow> Blockchain
    \<Rightarrow> (bool \<times> block_verification_context \<times> Blockchain) result" where
  "handle_alternative_block 0 E = (\<lambda>b i bvc sendNewAlternativeBlockMessage bc. Inl (Failed ''stack overflow''))"
| "handle_alternative_block (Suc n) E = handle_alternative_step (handle_alternative_block n E) E"

section \<open>A new block\<close>

text \<open>The result ends with the observers that are notified.\<close>

definition addNewBlock :: "nat \<Rightarrow> chain_env \<Rightarrow> Block \<Rightarrow> block_verification_context \<Rightarrow> Blockchain
    \<Rightarrow> (bool \<times> block_verification_context \<times> Blockchain \<times> nat list) result" where
  "addNewBlock n E bl bvc bc =
    (let (ok, i) = get_block_hash bl in
     if \<not> ok then Inr (False, bvc_failed bvc, bc, [])
     else if haveBlock bc i then Inr (False, bvc\<lparr>m_already_exists := True\<rparr>, bc, [])
     else bindR (bc_getTailId bc) (\<lambda>tail.
       bindR (if previousBlockHash bl \<noteq> tail
         then handle_alternative_block n E bl i (bvc\<lparr>m_added_to_main_chain := False\<rparr>) True bc
         else bindR (pushBlock E bl bvc bc) (\<lambda>(add_result, bvc, bc).
           Inr (add_result, bvc, if add_result then sendMessage (NewBlockMessage i) bc else bc))) (\<lambda>(add_result, bvc, bc).
       Inr (add_result, bvc, bc, if add_result \<and> m_added_to_main_chain bvc then m_observers (bc_observers bc) else []))))"

text \<open>The table of multisignature outputs is not cleared.\<close>

definition resetAndSetGenesisBlock :: "nat \<Rightarrow> chain_env \<Rightarrow> Block \<Rightarrow> Blockchain \<Rightarrow> (bool \<times> Blockchain \<times> nat list) result" where
  "resetAndSetGenesisBlock n E b bc =
    (let bc = bc\<lparr>m_blocks := [], m_blockIndex := clear (m_blockIndex bc), m_transactionMap := Map.empty, m_spent_keys := {},
           m_alternative_chains := Map.empty, m_outputs := Map.empty, bc_paymentIds := payment_clear (bc_paymentIds bc),
           bc_timestamps := timestamp_clear (bc_timestamps bc),
           m_generatedTransactionsIndex := generated_clear (m_generatedTransactionsIndex bc),
           m_orthanBlocksIndex := orphan_clear (m_orthanBlocksIndex bc)\<rparr> in
     bindR (addNewBlock n E b new_bvc bc) (\<lambda>(_, bvc, bc, notified).
       Inr (m_added_to_main_chain bvc \<and> \<not> bvc_verifivation_failed bvc, bc, notified)))"

end
