(* ===== verification/BlockchainCache.thy ===== *)
theory BlockchainCache
  imports Blockchain
begin

text \<open>
  The tables that the chain keeps beside its blocks (transactions by hash, spent key images, outputs by
  amount, multisignature outputs) as a function of the blocks, and the proofs that pushing and popping
  of transactions and blocks keep them so. A transaction \<open>fits\<close> the tables when nothing it spends is
  spent and its hash is new; applying a fitting transaction can be undone by \<open>popTransaction\<close>.
\<close>

section \<open>The tables\<close>

record chain_cache =
  c_txs :: "Hash \<rightharpoonup> TransactionIndex"
  c_keys :: "KeyImage set"
  c_outs :: outputs_container
  c_ms :: MultisignatureOutputsContainer

definition empty_cache :: chain_cache where
  "empty_cache = \<lparr>c_txs = Map.empty, c_keys = {}, c_outs = Map.empty, c_ms = Map.empty\<rparr>"

definition cache_of :: "Blockchain \<Rightarrow> chain_cache" where
  "cache_of bc = \<lparr>c_txs = m_transactionMap bc, c_keys = m_spent_keys bc, c_outs = m_outputs bc, c_ms = m_multisignatureOutputs bc\<rparr>"

abbreviation tx_hash :: "Transaction \<Rightarrow> Hash" where
  "tx_hash \<equiv> getObjectHash_value out_Transaction"

section \<open>Marks on multisignature outputs\<close>

fun input_ref :: "TransactionInput \<Rightarrow> (u64 \<times> nat) option" where
  "input_ref (VMultisignatureInput i) = Some (mi_amount i, unat (outputIndex i))"
| "input_ref _ = None"

abbreviation refs_of :: "TransactionInput list \<Rightarrow> (u64 \<times> nat) list" where
  "refs_of \<equiv> List.map_filter input_ref"

definition ref_ok :: "MultisignatureOutputsContainer \<Rightarrow> u64 \<times> nat \<Rightarrow> bool" where
  "ref_ok ms r = (case ms (fst r) of None \<Rightarrow> False | Some us \<Rightarrow> snd r < length us)"

definition ref_unused :: "MultisignatureOutputsContainer \<Rightarrow> u64 \<times> nat \<Rightarrow> bool" where
  "ref_unused ms r = (case ms (fst r) of None \<Rightarrow> False | Some us \<Rightarrow> snd r < length us \<and> \<not> isUsed (us ! snd r))"

definition set_usage :: "bool \<Rightarrow> (u64 \<times> nat) set \<Rightarrow> MultisignatureOutputsContainer \<Rightarrow> MultisignatureOutputsContainer" where
  "set_usage u S ms = (\<lambda>a. map_option (\<lambda>us. map (\<lambda>k. if (a, k) \<in> S then (us ! k)\<lparr>isUsed := u\<rparr> else us ! k) [0..<length us]) (ms a))"

lemma set_usage_empty [simp]: "set_usage u {} ms = ms"
  by (simp add: set_usage_def map_nth option.map_ident)

lemma set_usage_ref_ok [simp]: "ref_ok (set_usage u S ms) r = ref_ok ms r"
  by (simp add: ref_ok_def set_usage_def split: option.splits)

lemma set_usage_insert:
  assumes "ms a = Some us" and "k < length us"
  shows "set_usage u S (ms(a \<mapsto> us[k := (us ! k)\<lparr>isUsed := u\<rparr>])) = set_usage u (insert (a, k) S) ms"
proof
  fix b
  show "set_usage u S (ms(a \<mapsto> us[k := (us ! k)\<lparr>isUsed := u\<rparr>])) b = set_usage u (insert (a, k) S) ms b"
    using assms by (cases "b = a") (auto simp: set_usage_def nth_list_update map_eq_conv intro!: option.map_cong0)
qed

lemma mark_used_eq:
  "(\<forall>r \<in> set (refs_of is). ref_ok ms r) \<Longrightarrow> mark_used u is ms = Inr (set_usage u (set (refs_of is)) ms)"
proof (induction "is" arbitrary: ms)
  case (Cons i "is")
  show ?case
  proof (cases i)
    case (VMultisignatureInput m)
    let ?a = "mi_amount m" and ?n = "unat (outputIndex m)"
    from Cons.prems VMultisignatureInput have "ref_ok ms (?a, ?n)" by (simp add: map_filter_Cons)
    then obtain us where us: "ms ?a = Some us" "?n < length us" by (auto simp: ref_ok_def split: option.splits)
    let ?ms = "ms(?a \<mapsto> us[?n := (us ! ?n)\<lparr>isUsed := u\<rparr>])"
    have "\<forall>r \<in> set (refs_of is). ref_ok ?ms r"
      using Cons.prems us VMultisignatureInput by (auto simp: map_filter_Cons ref_ok_def)
    then have "mark_used u is ?ms = Inr (set_usage u (set (refs_of is)) ?ms)" by (rule Cons.IH)
    then show ?thesis
      using us VMultisignatureInput set_usage_insert [of ms ?a us ?n u "set (refs_of is)"]
      by (simp add: Let_def map_filter_Cons not_le)
  qed (use Cons in \<open>simp_all add: map_filter_Cons\<close>)
qed (simp add: map_filter_simps)

lemma mark_used_throws:
  "mark_used u is ms = Inr ms' \<Longrightarrow> \<forall>r \<in> set (refs_of is). ref_ok ms r"
proof (induction "is" arbitrary: ms)
  case (Cons i "is")
  show ?case
  proof (cases i)
    case (VMultisignatureInput m)
    with Cons.prems obtain us where us: "ms (mi_amount m) = Some us" "unat (outputIndex m) < length us"
      by (auto simp: Let_def split: if_splits option.splits)
    with Cons.prems VMultisignatureInput
    have "mark_used u is (ms(mi_amount m \<mapsto> us[unat (outputIndex m) := (us ! unat (outputIndex m))\<lparr>isUsed := u\<rparr>])) = Inr ms'"
      by (simp add: Let_def not_le)
    then have "\<forall>r \<in> set (refs_of is). ref_ok (ms(mi_amount m \<mapsto> us[unat (outputIndex m) := (us ! unat (outputIndex m))\<lparr>isUsed := u\<rparr>])) r"
      by (rule Cons.IH)
    moreover have "ref_ok (ms(mi_amount m \<mapsto> us[unat (outputIndex m) := x])) r = ref_ok ms r" for r x
      using us by (auto simp: ref_ok_def)
    ultimately have "\<forall>r \<in> set (refs_of is). ref_ok ms r" by simp
    then show ?thesis using us VMultisignatureInput by (simp add: map_filter_Cons ref_ok_def)
  qed (use Cons in \<open>simp_all add: map_filter_Cons\<close>)
qed (simp add: map_filter_simps)

lemma ref_unused_ok: "ref_unused ms r \<Longrightarrow> ref_ok ms r"
  by (auto simp: ref_unused_def ref_ok_def split: option.splits)

lemma set_usage_undo:
  assumes "\<forall>r \<in> S. ref_unused ms r"
  shows "set_usage False S (set_usage True S ms) = ms"
proof
  fix a
  show "set_usage False S (set_usage True S ms) a = ms a"
  proof (cases "ms a")
    case (Some us)
    have "map (\<lambda>k. if (a, k) \<in> S then (us ! k)\<lparr>isUsed := False\<rparr> else us ! k) [0..<length us] = us"
    proof (rule nth_equalityI)
      fix k assume "k < length (map (\<lambda>k. if (a, k) \<in> S then (us ! k)\<lparr>isUsed := False\<rparr> else us ! k) [0..<length us])"
      then have k: "k < length us" by simp
      have "(us ! k)\<lparr>isUsed := False\<rparr> = us ! k" if "(a, k) \<in> S"
        using assms that Some by (cases "us ! k") (auto simp: ref_unused_def)
      then show "map (\<lambda>k. if (a, k) \<in> S then (us ! k)\<lparr>isUsed := False\<rparr> else us ! k) [0..<length us] ! k = us ! k"
        using k by simp
    qed simp
    moreover have "map (\<lambda>k. if (a, k) \<in> S then (map (\<lambda>k. if (a, k) \<in> S then (us ! k)\<lparr>isUsed := True\<rparr> else us ! k) [0..<length us] ! k)\<lparr>isUsed := False\<rparr>
        else map (\<lambda>k. if (a, k) \<in> S then (us ! k)\<lparr>isUsed := True\<rparr> else us ! k) [0..<length us] ! k) [0..<length us]
      = map (\<lambda>k. if (a, k) \<in> S then (us ! k)\<lparr>isUsed := False\<rparr> else us ! k) [0..<length us]" by simp
    ultimately show ?thesis using Some by (simp add: set_usage_def)
  qed (simp add: set_usage_def)
qed

section \<open>Key images\<close>

lemma spend_images_ok:
  "distinct (images_of is) \<Longrightarrow> set (images_of is) \<inter> ks = {} \<Longrightarrow> spend_images before is ks = Inr (True, ks \<union> set (images_of is))"
proof (induction "is" arbitrary: before ks)
  case (Cons i "is")
  then show ?case by (cases i) (auto simp: map_filter_Cons)
qed (simp add: map_filter_simps)

lemma fold_unspend: "fold unspend_image is ks = ks - set (images_of is)"
proof (induction "is" arbitrary: ks)
  case (Cons i "is")
  then show ?case by (cases i) (auto simp: map_filter_Cons)
qed (simp add: map_filter_simps)

section \<open>Outputs\<close>

definition no_empty :: "('a \<rightharpoonup> 'b list) \<Rightarrow> bool" where
  "no_empty m \<longleftrightarrow> (\<forall>a. m a \<noteq> Some [])"

lemma no_empty_update: "no_empty m \<Longrightarrow> no_empty (m(a \<mapsto> xs @ [x]))"
  by (simp add: no_empty_def)

lemma push_outputs_no_empty:
  "no_empty outs \<Longrightarrow> no_empty ms \<Longrightarrow> push_outputs ti n os (outs, ms) = (is, outs', ms') \<Longrightarrow> no_empty outs' \<and> no_empty ms'"
proof (induction os arbitrary: n outs ms "is")
  case (Cons out os)
  show ?case
  proof (cases "to_target out")
    case (VKeyOutput k)
    let ?outs = "outs(to_amount out \<mapsto> (case outs (to_amount out) of None \<Rightarrow> [] | Some xs \<Rightarrow> xs) @ [(ti, n)])"
    from Cons.prems VKeyOutput obtain js where "push_outputs ti (n + 1) os (?outs, ms) = (js, outs', ms')"
      by (auto simp: Let_def split: prod.splits)
    with Cons.prems show ?thesis by (intro Cons.IH) (simp_all add: no_empty_update del: fun_upd_apply)
  next
    case (VMultisignatureOutput k)
    let ?ms = "ms(to_amount out \<mapsto> (case ms (to_amount out) of None \<Rightarrow> [] | Some xs \<Rightarrow> xs)
      @ [\<lparr>mu_transactionIndex = ti, mu_outputIndex = n, isUsed = False\<rparr>])"
    from Cons.prems VMultisignatureOutput obtain js where "push_outputs ti (n + 1) os (outs, ?ms) = (js, outs', ms')"
      by (auto simp: Let_def split: prod.splits)
    with Cons.prems show ?thesis by (intro Cons.IH) (simp_all add: no_empty_update del: fun_upd_apply)
  qed
qed simp

lemma pop_pushed_key:
  assumes "no_empty outs" and "to_target out = VKeyOutput k" and "n < 2 ^ 16"
  shows "pop_output ti (n, out) (outs(to_amount out \<mapsto> (case outs (to_amount out) of None \<Rightarrow> [] | Some xs \<Rightarrow> xs) @ [(ti, of_nat n)]), ms) = (outs, ms)"
  using assms by (auto simp: pop_output_def Let_def no_empty_def unat_of_nat fun_eq_iff split: option.splits)

lemma pop_pushed_ms:
  assumes "no_empty ms" and "to_target out = VMultisignatureOutput k" and "n < 2 ^ 16"
  shows "pop_output ti (n, out) (outs, ms(to_amount out \<mapsto> (case ms (to_amount out) of None \<Rightarrow> [] | Some xs \<Rightarrow> xs)
    @ [\<lparr>mu_transactionIndex = ti, mu_outputIndex = of_nat n, isUsed = False\<rparr>])) = (outs, ms)"
  using assms by (auto simp: pop_output_def Let_def no_empty_def unat_of_nat fun_eq_iff split: option.splits)

text \<open>Popping the outputs of a transaction from the last one on undoes pushing them.\<close>

lemma pop_pushed_outputs:
  "no_empty outs \<Longrightarrow> no_empty ms \<Longrightarrow> n + length os \<le> 2 ^ 16 \<Longrightarrow>
   fold (pop_output ti) (rev (List.enumerate n os)) (snd (push_outputs ti (of_nat n) os (outs, ms))) = (outs, ms)"
proof (induction os arbitrary: n outs ms)
  case (Cons out os)
  have n: "n < 2 ^ 16" "of_nat n + 1 = (of_nat (Suc n) :: u16)" using Cons.prems by simp_all
  show ?case
  proof (cases "to_target out")
    case (VKeyOutput k)
    let ?outs = "outs(to_amount out \<mapsto> (case outs (to_amount out) of None \<Rightarrow> [] | Some xs \<Rightarrow> xs) @ [(ti, of_nat n)])"
    have "fold (pop_output ti) (rev (List.enumerate (Suc n) os)) (snd (push_outputs ti (of_nat (Suc n)) os (?outs, ms))) = (?outs, ms)"
      using Cons.prems by (intro Cons.IH) (simp_all add: no_empty_update del: fun_upd_apply)
    then show ?thesis using VKeyOutput n pop_pushed_key [OF Cons.prems(1) VKeyOutput n(1)]
      by (simp add: Let_def split_beta del: of_nat_Suc)
  next
    case (VMultisignatureOutput k)
    let ?ms = "ms(to_amount out \<mapsto> (case ms (to_amount out) of None \<Rightarrow> [] | Some xs \<Rightarrow> xs)
      @ [\<lparr>mu_transactionIndex = ti, mu_outputIndex = of_nat n, isUsed = False\<rparr>])"
    have "fold (pop_output ti) (rev (List.enumerate (Suc n) os)) (snd (push_outputs ti (of_nat (Suc n)) os (outs, ?ms))) = (outs, ?ms)"
      using Cons.prems by (intro Cons.IH) (simp_all add: no_empty_update del: fun_upd_apply)
    then show ?thesis using VMultisignatureOutput n pop_pushed_ms [OF Cons.prems(2) VMultisignatureOutput n(1)]
      by (simp add: Let_def split_beta del: of_nat_Suc)
  qed
qed simp

lemma set_usage_no_empty: "no_empty ms \<Longrightarrow> no_empty (set_usage u S ms)"
  by (auto simp: no_empty_def set_usage_def)

section \<open>Fitting transactions\<close>

text \<open>
  What \<open>checkTransactionInputs\<close> and the checks of the pool together guarantee of a transaction that is
  pushed.
\<close>

definition fits :: "chain_cache \<Rightarrow> Transaction \<Rightarrow> bool" where
  "fits c tx \<longleftrightarrow> c_txs c (tx_hash tx) = None \<and> distinct (images_of (inputs tx)) \<and> set (images_of (inputs tx)) \<inter> c_keys c = {}
    \<and> distinct (refs_of (inputs tx)) \<and> (\<forall>r \<in> set (refs_of (inputs tx)). ref_unused (c_ms c) r) \<and> length (outputs tx) < 2 ^ 16"

definition apply_tx :: "TransactionIndex \<times> Transaction \<Rightarrow> chain_cache \<Rightarrow> chain_cache" where
  "apply_tx = (\<lambda>(ti, tx) c.
    let (_, outs, ms) = push_outputs ti 0 (outputs tx) (c_outs c, set_usage True (set (refs_of (inputs tx))) (c_ms c)) in
    \<lparr>c_txs = (c_txs c)(tx_hash tx \<mapsto> ti), c_keys = c_keys c \<union> set (images_of (inputs tx)), c_outs = outs, c_ms = ms\<rparr>)"

definition cache_ok :: "chain_cache \<Rightarrow> bool" where
  "cache_ok c \<longleftrightarrow> no_empty (c_outs c) \<and> no_empty (c_ms c)"

lemma empty_cache_ok: "cache_ok empty_cache"
  by (simp add: cache_ok_def empty_cache_def no_empty_def)

lemma apply_tx_ok: "cache_ok c \<Longrightarrow> cache_ok (apply_tx x c)"
  using push_outputs_no_empty [OF _ set_usage_no_empty]
  by (auto simp: cache_ok_def apply_tx_def split_beta Let_def prod_eq_iff)

lemma multisignature_diff_refs:
  "multisignature_diff is S \<longleftrightarrow> distinct (refs_of is) \<and> set (refs_of is) \<inter> (\<lambda>(a, i). (a, unat i)) ` S = {}"
proof (induction "is" S rule: multisignature_diff.induct)
  case (2 i "is" S)
  have "(mi_amount i, unat (outputIndex i)) \<in> (\<lambda>(a, i). (a, unat i)) ` S \<longleftrightarrow> (mi_amount i, outputIndex i) \<in> S"
    by (auto dest!: word_unat_eq_iff [THEN iffD2] intro: rev_image_eqI [of "(mi_amount i, outputIndex i)"])
  with 2 show ?case by (cases "(mi_amount i, outputIndex i) \<in> S") (auto simp: map_filter_Cons)
qed (simp_all add: map_filter_simps)

lemma multisig_diff_refs: "checkMultisignatureInputsDiff tx \<longleftrightarrow> distinct (refs_of (inputs tx))"
  by (simp add: checkMultisignatureInputsDiff_def multisignature_diff_refs)

text \<open>The part of the state that pushing and popping of transactions leaves alone.\<close>

definition cache_frame :: "Blockchain \<Rightarrow> Blockchain" where
  "cache_frame bc = bc\<lparr>m_transactionMap := Map.empty, m_spent_keys := {}, m_outputs := Map.empty,
    m_multisignatureOutputs := Map.empty, bc_paymentIds := \<lparr>pi_index = []\<rparr>\<rparr>"

lemma pushTransaction_ok:
  assumes fit: "fits (cache_of bc) tx" and te: "n < length (be_transactions block)" "te_tx (be_transactions block ! n) = tx"
    and n: "unat (ti_transaction ti) = n"
  shows "\<exists>bc' is. pushTransaction block (tx_hash tx) ti bc =
      Inr (True, block\<lparr>be_transactions := (be_transactions block)[n := \<lparr>te_tx = tx, m_global_output_indexes = is\<rparr>]\<rparr>, bc')
    \<and> cache_of bc' = apply_tx (ti, tx) (cache_of bc) \<and> cache_frame bc' = cache_frame bc
    \<and> bc_paymentIds bc' = snd (payment_add tx (bc_paymentIds bc))"
proof -
  have m: "mark_used True (inputs tx) (m_multisignatureOutputs bc)
    = Inr (set_usage True (set (refs_of (inputs tx))) (m_multisignatureOutputs bc))"
    using fit by (intro mark_used_eq) (auto simp: fits_def cache_of_def ref_unused_ok)
  obtain "is" outs ms where p: "push_outputs ti 0 (outputs tx)
      (m_outputs bc, set_usage True (set (refs_of (inputs tx))) (m_multisignatureOutputs bc)) = (is, outs, ms)"
    by (metis prod_cases3)
  have s: "spend_images [] (inputs tx) (m_spent_keys bc) = Inr (True, m_spent_keys bc \<union> set (images_of (inputs tx)))"
    using fit by (intro spend_images_ok) (auto simp: fits_def cache_of_def)
  have te': "(be_transactions block ! n)\<lparr>m_global_output_indexes := is\<rparr> = \<lparr>te_tx = tx, m_global_output_indexes = is\<rparr>"
    using te(2) by (cases "be_transactions block ! n") simp
  let ?bc = "bc\<lparr>m_transactionMap := (m_transactionMap bc)(tx_hash tx \<mapsto> ti), m_spent_keys := m_spent_keys bc \<union> set (images_of (inputs tx)),
    m_outputs := outs, m_multisignatureOutputs := ms, bc_paymentIds := snd (payment_add tx (bc_paymentIds bc))\<rparr>"
  have f: "m_transactionMap bc (tx_hash tx) = None" "checkMultisignatureInputsDiff tx" "\<not> 2 ^ 16 \<le> length (outputs tx)"
    using fit by (simp_all add: fits_def cache_of_def multisig_diff_refs not_le)
  have "pushTransaction block (tx_hash tx) ti bc =
      Inr (True, block\<lparr>be_transactions := (be_transactions block)[n := \<lparr>te_tx = tx, m_global_output_indexes = is\<rparr>]\<rparr>, ?bc)"
    using te n m s p f unfolding te' [symmetric] by (simp add: pushTransaction_def Let_def)
  moreover have "cache_of ?bc = apply_tx (ti, tx) (cache_of bc)" using p by (simp add: cache_of_def apply_tx_def)
  moreover have "cache_frame ?bc = cache_frame bc" by (simp add: cache_frame_def)
  moreover have "bc_paymentIds ?bc = snd (payment_add tx (bc_paymentIds bc))" by simp
  ultimately show ?thesis by blast
qed

lemma popTransaction_ok:
  assumes fit: "fits c tx" and ok: "cache_ok c" and bc: "cache_of bc = apply_tx (ti, tx) c"
  shows "\<exists>bc'. popTransaction tx (tx_hash tx) bc = Inr bc' \<and> cache_of bc' = c \<and> cache_frame bc' = cache_frame bc
    \<and> bc_paymentIds bc' = snd (payment_remove tx (bc_paymentIds bc))"
proof -
  let ?R = "set (refs_of (inputs tx))"
  let ?ms = "set_usage True ?R (c_ms c)"
  have l: "m_transactionMap bc = (c_txs c)(tx_hash tx \<mapsto> ti)" "m_spent_keys bc = c_keys c \<union> set (images_of (inputs tx))"
    "(m_outputs bc, m_multisignatureOutputs bc) = snd (push_outputs ti 0 (outputs tx) (c_outs c, ?ms))"
    using bc by (auto simp: cache_of_def apply_tx_def Let_def split_beta)
  have p: "fold (pop_output ti) (rev (List.enumerate 0 (outputs tx))) (m_outputs bc, m_multisignatureOutputs bc) = (c_outs c, ?ms)"
    using pop_pushed_outputs [of "c_outs c" ?ms 0 "outputs tx" ti] ok fit l(3)
    by (simp add: cache_ok_def fits_def set_usage_no_empty)
  have "mark_used False (inputs tx) ?ms = Inr (set_usage False ?R ?ms)"
    using fit by (intro mark_used_eq) (auto simp: fits_def ref_unused_ok)
  then have m: "mark_used False (inputs tx) ?ms = Inr (c_ms c)"
    using fit set_usage_undo [of ?R "c_ms c"] by (simp add: fits_def)
  have k: "c_keys c \<union> set (images_of (inputs tx)) - set (images_of (inputs tx)) = c_keys c" using fit by (auto simp: fits_def)
  have t: "(c_txs c)(tx_hash tx := None) = c_txs c" using fit by (auto simp: fits_def)
  have o: "m_transactionMap bc (tx_hash tx) = Some ti" using l by simp
  let ?bc = "bc\<lparr>m_outputs := c_outs c, m_multisignatureOutputs := c_ms c, m_spent_keys := c_keys c,
    bc_paymentIds := snd (payment_remove tx (bc_paymentIds bc)), m_transactionMap := c_txs c\<rparr>"
  have "popTransaction tx (tx_hash tx) bc = Inr ?bc"
    unfolding popTransaction_def o of_opt_simps bindR_Inr Let_def p
    unfolding prod.case m bindR_Inr fold_unspend l(1,2) k using t by simp
  moreover have "cache_of ?bc = c" by (simp add: cache_of_def)
  moreover have "cache_frame ?bc = cache_frame bc" by (simp add: cache_frame_def)
  moreover have "bc_paymentIds ?bc = snd (payment_remove tx (bc_paymentIds bc))" by simp
  ultimately show ?thesis by blast
qed

section \<open>Payment ids\<close>

definition pay_entries :: "Transaction list \<Rightarrow> (Hash \<times> Hash) multiset" where
  "pay_entries txs = mset (List.map_filter (\<lambda>t. map_option (\<lambda>p. (p, tx_hash t)) (getPaymentId t)) txs)"

lemma pay_entries_simps [simp]:
  "pay_entries [] = {#}" "pay_entries (xs @ ys) = pay_entries xs + pay_entries ys"
  by (simp_all add: pay_entries_def map_filter_def)

lemma pay_add_mset: "mset (pi_index (snd (payment_add tx i))) = mset (pi_index i) + pay_entries [tx]"
  using pay.entries_fold_add [of "[tx]" i] by (simp add: pay_entries_def)

lemma pay_remove_mset: "mset (pi_index (snd (payment_remove tx i))) = mset (pi_index i) - pay_entries [tx]"
  using pay.entries_fold_remove [of "[tx]" i] by (simp add: pay_entries_def)

section \<open>Sequences of transactions\<close>

fun all_fit :: "(TransactionIndex \<times> Transaction) list \<Rightarrow> chain_cache \<Rightarrow> bool" where
  "all_fit [] c \<longleftrightarrow> True"
| "all_fit (x # xs) c \<longleftrightarrow> fits c (snd x) \<and> all_fit xs (apply_tx x c)"

lemma all_fit_append: "all_fit (xs @ ys) c \<longleftrightarrow> all_fit xs c \<and> all_fit ys (fold apply_tx xs c)"
  by (induction xs arbitrary: c) auto

lemma fold_apply_ok: "cache_ok c \<Longrightarrow> cache_ok (fold apply_tx xs c)"
  by (induction xs arbitrary: c) (auto simp: apply_tx_ok)

text \<open>Popping the transactions of a fitting sequence, the last first, restores the tables.\<close>

lemma pop_sequence:
  "cache_ok c \<Longrightarrow> all_fit xs c \<Longrightarrow> cache_of bc = fold apply_tx xs c \<Longrightarrow>
   \<exists>bc'. foldR (\<lambda>tx. popTransaction tx (tx_hash tx)) (rev (map snd xs)) bc = Inr bc' \<and> cache_of bc' = c
     \<and> cache_frame bc' = cache_frame bc
     \<and> mset (pi_index (bc_paymentIds bc')) = mset (pi_index (bc_paymentIds bc)) - pay_entries (map snd xs)"
proof (induction xs arbitrary: bc rule: rev_induct)
  case (snoc x xs)
  obtain ti tx where x: "x = (ti, tx)" by (cases x)
  let ?c = "fold apply_tx xs c"
  have "fits ?c tx" "cache_ok ?c" "cache_of bc = apply_tx (ti, tx) ?c"
    using snoc.prems x by (auto simp: all_fit_append fold_apply_ok)
  from popTransaction_ok [OF this] obtain bc1 where bc1: "popTransaction tx (tx_hash tx) bc = Inr bc1" "cache_of bc1 = ?c"
    "cache_frame bc1 = cache_frame bc" "bc_paymentIds bc1 = snd (payment_remove tx (bc_paymentIds bc))" by auto
  from snoc.IH [of bc1] snoc.prems bc1(2) obtain bc2 where
    bc2: "foldR (\<lambda>tx. popTransaction tx (tx_hash tx)) (rev (map snd xs)) bc1 = Inr bc2" "cache_of bc2 = c"
    "cache_frame bc2 = cache_frame bc1"
    "mset (pi_index (bc_paymentIds bc2)) = mset (pi_index (bc_paymentIds bc1)) - pay_entries (map snd xs)"
    by (auto simp: all_fit_append)
  have "mset (pi_index (bc_paymentIds bc2)) = mset (pi_index (bc_paymentIds bc)) - pay_entries (map snd (xs @ [x]))"
    using bc2(4) bc1(4) x by (simp add: pay_remove_mset add.commute)
  with bc1 bc2 x show ?case by (auto intro!: exI [of _ bc2])
qed simp

definition index_txs :: "nat \<Rightarrow> Transaction list \<Rightarrow> (TransactionIndex \<times> Transaction) list" where
  "index_txs b txs = map (\<lambda>(t, tx). (\<lparr>ti_block = of_nat b, ti_transaction = of_nat t\<rparr>, tx)) (List.enumerate 0 txs)"

definition block_txs :: "nat \<Rightarrow> BlockEntry \<Rightarrow> (TransactionIndex \<times> Transaction) list" where
  "block_txs b e = index_txs b (map te_tx (be_transactions e))"

definition chain_txs :: "BlockEntry list \<Rightarrow> (TransactionIndex \<times> Transaction) list" where
  "chain_txs bs = concat (map (\<lambda>(b, e). block_txs b e) (List.enumerate 0 bs))"

lemma snd_index_txs [simp]: "map snd (index_txs b txs) = txs"
proof -
  have "map snd (index_txs b txs) = map snd (List.enumerate 0 txs)"
    unfolding index_txs_def map_map by (rule map_cong) auto
  then show ?thesis by simp
qed

lemma index_txs_snoc [simp]:
  "index_txs b (txs @ [tx]) = index_txs b txs @ [(\<lparr>ti_block = of_nat b, ti_transaction = of_nat (length txs)\<rparr>, tx)]"
  by (simp add: index_txs_def enumerate_append_eq)

lemma snd_block_txs [simp]: "map snd (block_txs b e) = map te_tx (be_transactions e)"
  by (simp add: block_txs_def)

lemma set_block_txs: "snd ` set (block_txs b e) = te_tx ` set (be_transactions e)"
  unfolding set_map [symmetric] by simp

lemma chain_txs_snoc [simp]: "chain_txs [] = []" "chain_txs (bs @ [e]) = chain_txs bs @ block_txs (length bs) e"
  by (simp_all add: chain_txs_def enumerate_append_eq)

text \<open>The entries of a block match its data; \<open>popTransactions\<close> then pops exactly its transactions.\<close>

definition entry_txs :: "BlockEntry \<Rightarrow> bool" where
  "entry_txs e \<longleftrightarrow> be_transactions e \<noteq> [] \<and> te_tx (hd (be_transactions e)) = baseTransaction (be_bl e)
    \<and> map (\<lambda>te. tx_hash (te_tx te)) (tl (be_transactions e)) = take (length (be_transactions e) - 1) (transactionHashes (be_bl e))"

lemma zip_hashes:
  "map f xs = take (length xs) ys \<Longrightarrow> zip xs ys = map (\<lambda>x. (x, f x)) xs"
proof (induction xs arbitrary: ys)
  case (Cons x xs)
  then show ?case by (cases ys) auto
qed simp

lemma foldR_map: "foldR f (map g xs) s = foldR (\<lambda>x. f (g x)) xs s"
  by (induction xs arbitrary: s) (auto intro!: bindR_cong)

lemma popTransactions_eq:
  assumes "entry_txs e"
  shows "popTransactions e (tx_hash (baseTransaction (be_bl e))) bc
    = foldR (\<lambda>tx. popTransaction tx (tx_hash tx)) (rev (map te_tx (be_transactions e))) bc"
proof -
  from assms obtain te tes where e: "be_transactions e = te # tes" "te_tx te = baseTransaction (be_bl e)"
    "map (\<lambda>te. tx_hash (te_tx te)) tes = take (length tes) (transactionHashes (be_bl e))"
    by (cases "be_transactions e") (auto simp: entry_txs_def)
  have "length tes \<le> length (transactionHashes (be_bl e))"
    using arg_cong [OF e(3), of length] by simp
  moreover have "zip tes (transactionHashes (be_bl e)) = map (\<lambda>te. (te, tx_hash (te_tx te))) tes"
    by (rule zip_hashes [OF e(3)])
  ultimately show ?thesis using e(1,2)
    by (simp add: popTransactions_def foldR_append foldR_map rev_map [symmetric] not_less)
       (simp add: rev_map foldR_map bindR_def split: sum.splits)
qed

lemma popTransactions_ok:
  assumes "cache_ok c" and "all_fit (block_txs b e) c" and "cache_of bc = fold apply_tx (block_txs b e) c" and "entry_txs e"
  shows "\<exists>bc'. popTransactions e (tx_hash (baseTransaction (be_bl e))) bc = Inr bc' \<and> cache_of bc' = c
    \<and> cache_frame bc' = cache_frame bc
    \<and> mset (pi_index (bc_paymentIds bc')) = mset (pi_index (bc_paymentIds bc)) - pay_entries (map te_tx (be_transactions e))"
  using pop_sequence [OF assms(1-3)] unfolding popTransactions_eq [OF assms(4)] by simp

section \<open>What has been applied stays spent\<close>

definition ref_used :: "MultisignatureOutputsContainer \<Rightarrow> u64 \<times> nat \<Rightarrow> bool" where
  "ref_used ms r = (case ms (fst r) of None \<Rightarrow> False | Some us \<Rightarrow> snd r < length us \<and> isUsed (us ! snd r))"

lemma ref_used_not_unused: "ref_used ms r \<Longrightarrow> \<not> ref_unused ms r"
  by (auto simp: ref_used_def ref_unused_def split: option.splits)

lemma set_usage_used: "ref_used ms r \<or> r \<in> S \<and> ref_ok ms r \<Longrightarrow> ref_used (set_usage True S ms) r"
  by (cases r) (auto simp: ref_used_def ref_ok_def set_usage_def split: option.splits)

lemma push_outputs_used: "ref_used ms r \<Longrightarrow> ref_used (snd (snd (push_outputs ti n os (outs, ms)))) r"
proof (induction os arbitrary: n outs ms)
  case (Cons out os)
  show ?case
  proof (cases "to_target out")
    case (VMultisignatureOutput k)
    have "ref_used (ms(to_amount out \<mapsto> (case ms (to_amount out) of None \<Rightarrow> [] | Some xs \<Rightarrow> xs) @ [x])) r" for x
      using Cons.prems by (auto simp: ref_used_def nth_append split: option.splits)
    from Cons.IH [OF this] show ?thesis using VMultisignatureOutput by (simp add: Let_def split_beta del: fun_upd_apply)
  qed (use Cons in \<open>simp add: Let_def split_beta del: fun_upd_apply\<close>)
qed simp

definition spent_in :: "chain_cache \<Rightarrow> Transaction \<Rightarrow> bool" where
  "spent_in c tx \<longleftrightarrow> set (images_of (inputs tx)) \<subseteq> c_keys c \<and> (\<forall>r \<in> set (refs_of (inputs tx)). ref_used (c_ms c) r)"

lemma apply_tx_keeps_spent: "spent_in c y \<Longrightarrow> spent_in (apply_tx x c) y"
  by (cases x) (auto simp: spent_in_def apply_tx_def Let_def split_beta intro!: push_outputs_used set_usage_used)

lemma apply_tx_spends: "fits c tx \<Longrightarrow> spent_in (apply_tx (ti, tx) c) tx"
  by (auto simp: spent_in_def apply_tx_def Let_def split_beta fits_def intro!: push_outputs_used set_usage_used ref_unused_ok)

lemma applied_spent:
  "all_fit xs c \<Longrightarrow> tx \<in> snd ` set xs \<Longrightarrow> spent_in (fold apply_tx xs c) tx"
proof (induction xs rule: rev_induct)
  case (snoc x xs)
  show ?case
  proof (cases "tx \<in> snd ` set xs")
    case True
    with snoc show ?thesis by (simp add: all_fit_append apply_tx_keeps_spent)
  next
    case False
    with snoc.prems obtain ti where "x = (ti, tx)" by (cases x) auto
    with snoc.prems show ?thesis by (simp add: all_fit_append apply_tx_spends)
  qed
qed simp

lemma c_txs_apply [simp]: "c_txs (apply_tx x c) = (c_txs c)(tx_hash (snd x) \<mapsto> fst x)"
  by (simp add: apply_tx_def Let_def split_beta)

lemma applied_hashes: "dom (c_txs (fold apply_tx xs c)) = dom (c_txs c) \<union> tx_hash ` snd ` set xs"
proof (induction xs rule: rev_induct)
  case (snoc x xs)
  have e: "fold apply_tx (xs @ [x]) c = apply_tx x (fold apply_tx xs c)" by simp
  show ?case unfolding e c_txs_apply dom_fun_upd using snoc by simp
qed simp

section \<open>Checked transactions fit\<close>

lemma validateInput_unused:
  "validateInput E bc i h sig = Inr True \<Longrightarrow> ref_unused (m_multisignatureOutputs bc) (mi_amount i, unat (outputIndex i))"
  by (auto simp: validateInput_def ref_unused_def Let_def not_le split: option.splits if_splits)

lemma check_inputs_ok:
  "check_inputs E bc h is sigs m = Inr (True, m') \<Longrightarrow> set (images_of is) \<inter> m_spent_keys bc = {}
    \<and> (\<forall>r \<in> set (refs_of is). ref_unused (m_multisignatureOutputs bc) r) \<and> list_all supported_input is"
proof (induction E bc h "is" sigs m rule: check_inputs.induct)
  case (2 E bc h i "is" sigs m)
  then obtain sig sigs' m1 where "sigs = sig # sigs'" "keyImage i \<notin> m_spent_keys bc" "outputIndexes i \<noteq> []"
    "check_tx_input E bc i h sig m = Inr (True, m1)" "check_inputs E bc h is sigs' m1 = Inr (True, m')"
    by (auto simp: have_tx_keyimg_as_spent_def bindR_eq_Inr split: if_splits list.splits)
  with 2 show ?case by (simp add: map_filter_Cons have_tx_keyimg_as_spent_def)
next
  case (3 E bc h i "is" sigs m)
  then obtain sig sigs' where "sigs = sig # sigs'" "validateInput E bc i h sig = Inr True"
    "check_inputs E bc h is sigs' m = Inr (True, m')"
    by (auto simp: bindR_eq_Inr split: if_splits list.splits)
  with 3 validateInput_unused show ?case by (simp add: map_filter_Cons)
qed (simp_all add: map_filter_simps)

text \<open>What the pool guarantees of its transactions.\<close>

definition sem_tx :: "Transaction \<Rightarrow> bool" where
  "sem_tx tx \<longleftrightarrow> inputs tx \<noteq> [] \<and> distinct (images_of (inputs tx)) \<and> distinct (refs_of (inputs tx))"

lemma supported_spends: "list_all supported_input is \<Longrightarrow> is \<noteq> [] \<Longrightarrow> images_of is \<noteq> [] \<or> refs_of is \<noteq> []"
  by (cases "is"; cases "hd is") (auto simp: map_filter_Cons)

text \<open>A transaction that passes the check was not applied before, so no other transaction has its hash.\<close>

lemma checked_fresh:
  assumes fit: "all_fit xs empty_cache" and bc: "cache_of bc = fold apply_tx xs empty_cache"
    and chk: "bc_checkTransactionInputs E bc tx = Inr (True, m)" and ne: "inputs tx \<noteq> []"
    and inj: "inj_on tx_hash (insert tx (snd ` set xs))"
  shows "m_transactionMap bc (tx_hash tx) = None"
proof (rule ccontr)
  assume "m_transactionMap bc (tx_hash tx) \<noteq> None"
  then have "tx_hash tx \<in> dom (c_txs (fold apply_tx xs empty_cache))" unfolding bc [symmetric] by (simp add: cache_of_def domIff)
  then obtain y where y: "y \<in> snd ` set xs" "tx_hash tx = tx_hash y" unfolding applied_hashes by (auto simp: empty_cache_def)
  with inj have "y = tx" by (auto dest: inj_onD)
  with y have sp: "spent_in (cache_of bc) tx" using applied_spent [OF fit] unfolding bc by simp
  have c: "set (images_of (inputs tx)) \<inter> m_spent_keys bc = {}" "\<forall>r \<in> set (refs_of (inputs tx)). ref_unused (m_multisignatureOutputs bc) r"
    "list_all supported_input (inputs tx)"
    using check_inputs_ok chk by (auto simp: bc_checkTransactionInputs_def)
  from supported_spends [OF c(3) ne] show False
  proof
    assume "images_of (inputs tx) \<noteq> []"
    then obtain k where "k \<in> set (images_of (inputs tx))" by (cases "images_of (inputs tx)") auto
    with sp c(1) show False by (auto simp: spent_in_def cache_of_def)
  next
    assume "refs_of (inputs tx) \<noteq> []"
    then obtain r where "r \<in> set (refs_of (inputs tx))" by (cases "refs_of (inputs tx)") auto
    with sp c(2) show False by (auto simp: spent_in_def cache_of_def dest: ref_used_not_unused)
  qed
qed

section \<open>The loop over the transactions of a block\<close>

lemma pushTransaction_big:
  assumes "m_transactionMap bc (tx_hash tx) = None" and "distinct (images_of (inputs tx))"
    and "set (images_of (inputs tx)) \<inter> m_spent_keys bc = {}" and "distinct (refs_of (inputs tx))"
    and "\<forall>r \<in> set (refs_of (inputs tx)). ref_unused (m_multisignatureOutputs bc) r" and "2 ^ 16 \<le> length (outputs tx)"
    and "unat (ti_transaction ti) < length (be_transactions block)"
    and "te_tx (be_transactions block ! unat (ti_transaction ti)) = tx"
  shows "pushTransaction block (tx_hash tx) ti bc = Inl (Failed ''std::bad_alloc'')"
proof -
  have "mark_used True (inputs tx) (m_multisignatureOutputs bc)
    = Inr (set_usage True (set (refs_of (inputs tx))) (m_multisignatureOutputs bc))"
    using assms by (intro mark_used_eq) (auto simp: ref_unused_ok)
  then show ?thesis using assms spend_images_ok [OF assms(2,3), of "[]"]
    by (simp add: pushTransaction_def Let_def multisig_diff_refs)
qed

text \<open>One transaction: it throws on too many outputs, and otherwise it is applied.\<close>

lemma push_checked_tx:
  assumes fit: "all_fit xs empty_cache" "cache_of bc = fold apply_tx xs empty_cache"
    and chk: "bc_checkTransactionInputs E bc tx = Inr (True, m)" and sem: "sem_tx tx"
    and inj: "inj_on tx_hash (insert tx (snd ` set xs))"
    and n: "unat (ti_transaction ti) = length ts" and block: "be_transactions block = ts @ [\<lparr>te_tx = tx, m_global_output_indexes = []\<rparr>]"
    and run: "pushTransaction block (tx_hash tx) ti bc = Inr (ok, block', bc')"
  shows "\<exists>is. ok \<and> block' = block\<lparr>be_transactions := ts @ [\<lparr>te_tx = tx, m_global_output_indexes = is\<rparr>]\<rparr>
    \<and> fits (cache_of bc) tx \<and> cache_of bc' = apply_tx (ti, tx) (cache_of bc) \<and> cache_frame bc' = cache_frame bc
    \<and> bc_paymentIds bc' = snd (payment_add tx (bc_paymentIds bc)) \<and> check_inputs_types_supported tx"
proof -
  have c: "set (images_of (inputs tx)) \<inter> m_spent_keys bc = {}" "\<forall>r \<in> set (refs_of (inputs tx)). ref_unused (m_multisignatureOutputs bc) r"
    "list_all supported_input (inputs tx)"
    using check_inputs_ok chk by (auto simp: bc_checkTransactionInputs_def)
  have new: "m_transactionMap bc (tx_hash tx) = None"
    using checked_fresh [OF fit chk _ inj] sem by (simp add: sem_tx_def)
  have te: "length ts < length (be_transactions block)" "te_tx (be_transactions block ! length ts) = tx" using block by simp_all
  have "length (outputs tx) < 2 ^ 16"
  proof (rule ccontr)
    assume "\<not> length (outputs tx) < 2 ^ 16"
    then have "pushTransaction block (tx_hash tx) ti bc = Inl (Failed ''std::bad_alloc'')"
      using new c sem n te by (intro pushTransaction_big) (auto simp: sem_tx_def)
    with run show False by simp
  qed
  then have f: "fits (cache_of bc) tx" using new c sem by (auto simp: fits_def cache_of_def sem_tx_def)
  from pushTransaction_ok [OF f te n] run c(3) f block show ?thesis
    by (auto simp: check_inputs_types_supported_def)
qed

abbreviation tx_size :: "Transaction \<Rightarrow> u64" where
  "tx_size tx \<equiv> of_nat (getObjectBinarySize out_Transaction tx)"

abbreviation tx_fee :: "Transaction \<Rightarrow> u64" where
  "tx_fee tx \<equiv> getInputAmount tx - getOutputAmount tx"

lemma entry_txs_snoc:
  assumes "entry_txs e" and "transactionHashes (be_bl e) = map (\<lambda>te. tx_hash (te_tx te)) (tl (be_transactions e)) @ tx_hash (te_tx te) # hs"
  shows "entry_txs (e\<lparr>be_transactions := be_transactions e @ [te]\<rparr>)"
  using assms by (cases "be_transactions e") (auto simp: entry_txs_def)

lemma push_transactions_ok:
  "push_transactions E mh txs hs block ti sz fee bc = Inr (ok, block', sz', fee', bc') \<Longrightarrow>
   c = fold apply_tx zs empty_cache \<Longrightarrow> all_fit (zs @ block_txs b block) empty_cache \<Longrightarrow>
   cache_of bc = fold apply_tx (zs @ block_txs b block) empty_cache \<Longrightarrow>
   entry_txs block \<Longrightarrow> mh = tx_hash (baseTransaction (be_bl block)) \<Longrightarrow>
   transactionHashes (be_bl block) = map (\<lambda>te. tx_hash (te_tx te)) (tl (be_transactions block)) @ hs \<Longrightarrow> hs = map tx_hash txs \<Longrightarrow>
   ti = \<lparr>ti_block = of_nat b, ti_transaction = of_nat (length (be_transactions block) - 1)\<rparr> \<Longrightarrow>
   length (be_transactions block) + length txs < 2 ^ 16 \<Longrightarrow> \<forall>tx \<in> set txs. sem_tx tx \<Longrightarrow>
   inj_on tx_hash (snd ` set zs \<union> te_tx ` set (be_transactions block) \<union> set txs) \<Longrightarrow>
   cache_frame bc' = cache_frame bc \<and>
   (if ok then be_bl block' = be_bl block \<and> map te_tx (be_transactions block') = map te_tx (be_transactions block) @ txs
      \<and> entry_txs block' \<and> all_fit (zs @ block_txs b block') empty_cache \<and> cache_of bc' = fold apply_tx (zs @ block_txs b block') empty_cache
      \<and> (\<forall>tx \<in> set txs. check_inputs_types_supported tx)
      \<and> mset (pi_index (bc_paymentIds bc')) = mset (pi_index (bc_paymentIds bc)) + pay_entries txs
      \<and> sz' = fold (\<lambda>tx s. s + tx_size tx) txs sz \<and> fee' = fold (\<lambda>tx f. f + tx_fee tx) txs fee
    else cache_of bc' = c
      \<and> mset (pi_index (bc_paymentIds bc')) = mset (pi_index (bc_paymentIds bc)) - pay_entries (map te_tx (be_transactions block)))"
proof (induction txs arbitrary: hs block ti sz fee bc)
  case Nil
  then show ?case by auto
next
  case (Cons tx txs)
  note run = Cons.prems(1) and fit = Cons.prems(3) and bc = Cons.prems(4) and entry = Cons.prems(5)
  let ?ts = "be_transactions block" and ?te = "\<lparr>te_tx = tx, m_global_output_indexes = []\<rparr>"
  let ?block = "block\<lparr>be_transactions := ?ts @ [?te]\<rparr>"
  let ?ti = "\<lparr>ti_block = of_nat b, ti_transaction = of_nat (length ?ts)\<rparr> :: TransactionIndex"
  have ne: "?ts \<noteq> []" using entry by (simp add: entry_txs_def)
  then have ti: "ti\<lparr>ti_transaction := ti_transaction ti + 1\<rparr> = ?ti"
    unfolding Cons.prems(9) by (cases ?ts) simp_all
  from run Cons.prems(8) obtain ok1 m where chk: "bc_checkTransactionInputs E bc tx = Inr (ok1, m)"
    and run1: "(if \<not> ok1 then bindR (popTransactions block mh bc) (\<lambda>bc. Inr (False, block, sz, fee, bc))
       else bindR (pushTransaction ?block (tx_hash tx) ?ti bc) (\<lambda>(_, block, bc).
          push_transactions E mh txs (map tx_hash txs) block ?ti (sz + tx_size tx)
            (fee + tx_fee tx) bc)) = Inr (ok, block', sz', fee', bc')"
    by (auto simp: bindR_eq_Inr Let_def ti getObjectBinarySize_def cong: if_cong)
  have all: "all_fit (block_txs b block) c" "cache_of bc = fold apply_tx (block_txs b block) c" "cache_ok c"
    using fit bc Cons.prems(2) by (simp_all add: all_fit_append fold_apply_ok empty_cache_ok)
  show ?case
  proof (cases ok1)
    case False
    with run1 obtain bc1 where "popTransactions block mh bc = Inr bc1" "ok = False" "bc' = bc1" by (auto simp: bindR_eq_Inr)
    with popTransactions_ok [OF all(3,1,2) entry] Cons.prems(6) show ?thesis by auto
  next
    case True
    with run1 obtain ok2 block1 bc1 where push: "pushTransaction ?block (tx_hash tx) ?ti bc = Inr (ok2, block1, bc1)"
      and rest: "push_transactions E mh txs (map tx_hash txs) block1 ?ti (sz + tx_size tx)
            (fee + tx_fee tx) bc1 = Inr (ok, block', sz', fee', bc')"
      by (auto simp: bindR_eq_Inr)
    have chk': "bc_checkTransactionInputs E bc tx = Inr (True, m)" using chk True by simp
    have n: "unat (ti_transaction ?ti) = length ?ts" using Cons.prems(10) by (simp add: unat_of_nat)
    have inj: "inj_on tx_hash (insert tx (snd ` set (zs @ block_txs b block)))"
      using Cons.prems(12) by (rule inj_on_subset) (auto simp: image_Un set_block_txs)
    obtain "is" where p: "block1 = block\<lparr>be_transactions := ?ts @ [\<lparr>te_tx = tx, m_global_output_indexes = is\<rparr>]\<rparr>" "fits (cache_of bc) tx"
      "cache_of bc1 = apply_tx (?ti, tx) (cache_of bc)" "cache_frame bc1 = cache_frame bc"
      "bc_paymentIds bc1 = snd (payment_add tx (bc_paymentIds bc))" "check_inputs_types_supported tx"
      using push_checked_tx [OF fit bc chk' _ inj n _ push] Cons.prems(11) by auto
    have txs1: "block_txs b block1 = block_txs b block @ [(?ti, tx)]" using p(1) by (simp add: block_txs_def)
    have fit1: "all_fit (zs @ block_txs b block1) empty_cache" "cache_of bc1 = fold apply_tx (zs @ block_txs b block1) empty_cache"
      using fit bc p(2,3) unfolding txs1 by (simp_all add: all_fit_append)
    have hs: "transactionHashes (be_bl block1) = map (\<lambda>te. tx_hash (te_tx te)) (tl (be_transactions block1)) @ map tx_hash txs"
      using Cons.prems(7,8) p(1) ne by simp
    have entry1: "entry_txs block1" unfolding p(1) using Cons.prems(7,8) by (intro entry_txs_snoc [OF entry]) simp
    have IH: "cache_frame bc' = cache_frame bc1 \<and>
      (if ok then be_bl block' = be_bl block1 \<and> map te_tx (be_transactions block') = map te_tx (be_transactions block1) @ txs
        \<and> entry_txs block' \<and> all_fit (zs @ block_txs b block') empty_cache \<and> cache_of bc' = fold apply_tx (zs @ block_txs b block') empty_cache
        \<and> (\<forall>tx \<in> set txs. check_inputs_types_supported tx)
        \<and> mset (pi_index (bc_paymentIds bc')) = mset (pi_index (bc_paymentIds bc1)) + pay_entries txs
        \<and> sz' = fold (\<lambda>tx s. s + tx_size tx) txs (sz + tx_size tx) \<and> fee' = fold (\<lambda>tx f. f + tx_fee tx) txs (fee + tx_fee tx)
      else cache_of bc' = c
        \<and> mset (pi_index (bc_paymentIds bc')) = mset (pi_index (bc_paymentIds bc1)) - pay_entries (map te_tx (be_transactions block1)))"
      by (rule Cons.IH [OF rest Cons.prems(2) fit1 entry1 _ hs refl])
        (use Cons.prems(6,10,11,12) p(1) in \<open>auto simp: Un_assoc insert_commute\<close>)
    have pays: "mset (pi_index (bc_paymentIds bc1)) = mset (pi_index (bc_paymentIds bc)) + pay_entries [tx]"
      using p(5) by (simp add: pay_add_mset)
    have pc: "pay_entries (tx # txs) = pay_entries [tx] + pay_entries txs" using pay_entries_simps(2) [of "[tx]" txs] by simp
    show ?thesis using IH p(1,4,6) unfolding pays pc by (cases ok) (auto simp: add.assoc)
  qed
qed

end
