(* ===== verification/ChainInvariant.thy ===== *)
theory ChainInvariant
  imports BlockchainCache
begin

text \<open>
  The invariant of the block chain: the tables are those of the blocks, every transaction of the chain
  spends what was not spent before it, and the indices agree with the blocks. \<open>pushBlock\<close> extends the
  chain by one block or leaves it as it was, except for a block that is too large; \<open>popBlock\<close> removes the
  last block; \<open>rebuildCache\<close> computes what is there.
\<close>

section \<open>The invariant\<close>

abbreviation block_id :: "BlockEntry \<Rightarrow> Hash" where
  "block_id e \<equiv> snd (get_block_hash (be_bl e))"

abbreviation coinbase_input :: "nat \<Rightarrow> TransactionInput" where
  "coinbase_input b \<equiv> VBaseInput \<lparr>blockIndex = of_nat b\<rparr>"

definition entry_ok :: "nat \<Rightarrow> BlockEntry \<Rightarrow> bool" where
  "entry_ok b e \<longleftrightarrow> entry_txs e \<and> length (transactionHashes (be_bl e)) = length (be_transactions e) - 1
    \<and> length (be_transactions e) < 2 ^ 16 \<and> be_height e = of_nat b
    \<and> inputs (baseTransaction (be_bl e)) = [coinbase_input b]
    \<and> (\<forall>te \<in> set (tl (be_transactions e)). sem_tx (te_tx te) \<and> check_inputs_types_supported (te_tx te))"

definition indices_ok :: "Blockchain \<Rightarrow> bool" where
  "indices_ok bc \<longleftrightarrow> m_container (m_blockIndex bc) = map block_id (m_blocks bc) \<and> distinct (map block_id (m_blocks bc))
    \<and> mset (pi_index (bc_paymentIds bc)) = pay_entries (map snd (chain_txs (m_blocks bc)))
    \<and> mset (ti_index (bc_timestamps bc)) = mset (map (\<lambda>e. (timestamp (be_bl e), block_id e)) (m_blocks bc))
    \<and> generated_rel (map (\<lambda>e. length (transactionHashes (be_bl e))) (m_blocks bc)) (m_generatedTransactionsIndex bc)"

definition chain_inv :: "Blockchain \<Rightarrow> bool" where
  "chain_inv bc \<longleftrightarrow> all_fit (chain_txs (m_blocks bc)) empty_cache
    \<and> cache_of bc = fold apply_tx (chain_txs (m_blocks bc)) empty_cache
    \<and> (\<forall>b < length (m_blocks bc). entry_ok b (m_blocks bc ! b)) \<and> length (m_blocks bc) < 2 ^ 32 \<and> indices_ok bc"

lemma new_Blockchain_inv: "chain_inv (new_Blockchain p)"
  by (simp add: chain_inv_def new_Blockchain_def indices_ok_def cache_of_def empty_cache_def empty_BlockIndex_def generated_empty)

text \<open>Two states with the same chain, and all other parts but the pool equal.\<close>

definition chain_frame :: "Blockchain \<Rightarrow> Blockchain" where
  "chain_frame bc = (cache_frame bc)\<lparr>m_tx_pool := new_pool\<rparr>"

definition same_chain :: "Blockchain \<Rightarrow> Blockchain \<Rightarrow> bool" where
  "same_chain bc bc' \<longleftrightarrow> cache_of bc' = cache_of bc \<and> chain_frame bc' = chain_frame bc
    \<and> mset (pi_index (bc_paymentIds bc')) = mset (pi_index (bc_paymentIds bc))"

lemma frame_fields:
  assumes "chain_frame bc' = chain_frame bc"
  shows "m_blocks bc' = m_blocks bc" "m_blockIndex bc' = m_blockIndex bc" "bc_timestamps bc' = bc_timestamps bc"
    "m_generatedTransactionsIndex bc' = m_generatedTransactionsIndex bc" "m_alternative_chains bc' = m_alternative_chains bc"
    "m_checkpoints bc' = m_checkpoints bc" "m_orthanBlocksIndex bc' = m_orthanBlocksIndex bc"
    "m_current_block_cumul_sz_limit bc' = m_current_block_cumul_sz_limit bc"
    "m_messageQueueList bc' = m_messageQueueList bc" "bc_observers bc' = bc_observers bc"
    "m_is_in_checkpoint_zone bc' = m_is_in_checkpoint_zone bc"
  using arg_cong [OF assms, of m_blocks] arg_cong [OF assms, of m_blockIndex] arg_cong [OF assms, of bc_timestamps]
    arg_cong [OF assms, of m_generatedTransactionsIndex] arg_cong [OF assms, of m_alternative_chains]
    arg_cong [OF assms, of m_checkpoints] arg_cong [OF assms, of m_orthanBlocksIndex]
    arg_cong [OF assms, of m_current_block_cumul_sz_limit] arg_cong [OF assms, of m_messageQueueList]
    arg_cong [OF assms, of bc_observers] arg_cong [OF assms, of m_is_in_checkpoint_zone]
  by (simp_all add: chain_frame_def cache_frame_def)

lemma cache_frame_pool: "cache_frame bc' = cache_frame bc \<Longrightarrow> m_tx_pool bc' = m_tx_pool bc"
  by (drule arg_cong [of _ _ m_tx_pool]) (simp add: cache_frame_def)

lemma same_chain_refl [simp]: "same_chain bc bc"
  by (simp add: same_chain_def)

lemma same_chain_pool: "same_chain bc (bc\<lparr>m_tx_pool := p\<rparr>)"
  by (simp add: same_chain_def chain_frame_def cache_frame_def cache_of_def)

lemma same_chain_trans: "same_chain a b \<Longrightarrow> same_chain b c \<Longrightarrow> same_chain a c"
  by (simp add: same_chain_def)

lemma same_chain_inv: "same_chain bc bc' \<Longrightarrow> chain_inv bc' \<longleftrightarrow> chain_inv bc"
  using frame_fields [of bc' bc] by (simp add: same_chain_def chain_inv_def indices_ok_def)

lemma frame_same_chain:
  "cache_frame bc' = cache_frame bc \<Longrightarrow> cache_of bc' = cache_of bc \<Longrightarrow>
   mset (pi_index (bc_paymentIds bc')) = mset (pi_index (bc_paymentIds bc)) \<Longrightarrow> same_chain bc bc'"
  by (simp add: same_chain_def chain_frame_def)

section \<open>The coinbase transaction is new\<close>

lemma chain_txs_nth: "snd ` set (chain_txs bs) = (\<Union>b < length bs. te_tx ` set (be_transactions (bs ! b)))"
proof (induction bs rule: rev_induct)
  case (snoc e bs)
  then show ?case by (auto simp: image_Un set_block_txs lessThan_Suc nth_append)
qed simp

lemma chain_tx_cases:
  assumes "chain_inv bc" and "tx \<in> snd ` set (chain_txs (m_blocks bc))"
  shows "(\<exists>b < length (m_blocks bc). inputs tx = [coinbase_input b]) \<or> (inputs tx \<noteq> [] \<and> check_inputs_types_supported tx)"
proof -
  from assms(2) obtain b te where b: "b < length (m_blocks bc)" "te \<in> set (be_transactions (m_blocks bc ! b))" "tx = te_tx te"
    by (auto simp: chain_txs_nth)
  let ?e = "m_blocks bc ! b"
  have ok: "entry_ok b ?e" using assms(1) b(1) by (simp add: chain_inv_def)
  show ?thesis
  proof (cases "be_transactions ?e")
    case (Cons te0 tes)
    with ok b show ?thesis by (auto simp: entry_ok_def entry_txs_def sem_tx_def)
  qed (use b in simp)
qed

lemma coinbase_new:
  assumes inv: "chain_inv bc" and base: "inputs tx = [coinbase_input (length (m_blocks bc))]"
  shows "tx \<notin> snd ` set (chain_txs (m_blocks bc))"
proof
  assume "tx \<in> snd ` set (chain_txs (m_blocks bc))"
  from chain_tx_cases [OF inv this] base have "\<exists>b < length (m_blocks bc). of_nat b = (of_nat (length (m_blocks bc)) :: u32)"
    by (auto simp: check_inputs_types_supported_def)
  moreover have "length (m_blocks bc) < 2 ^ 32" using inv by (simp add: chain_inv_def)
  ultimately show False using of_nat_u32_inj by fastforce
qed

lemma push_coinbase:
  assumes fit: "all_fit xs empty_cache" "cache_of bc = fold apply_tx xs empty_cache"
    and base: "tx \<notin> snd ` set xs" "images_of (inputs tx) = []" "refs_of (inputs tx) = []"
    and inj: "inj_on tx_hash (insert tx (snd ` set xs))"
    and block: "be_transactions block = [\<lparr>te_tx = tx, m_global_output_indexes = []\<rparr>]" and ti: "ti_transaction ti = 0"
    and run: "pushTransaction block (tx_hash tx) ti bc = Inr (ok, block', bc')"
  shows "\<exists>is. block' = block\<lparr>be_transactions := [\<lparr>te_tx = tx, m_global_output_indexes = is\<rparr>]\<rparr>
    \<and> fits (cache_of bc) tx \<and> cache_of bc' = apply_tx (ti, tx) (cache_of bc) \<and> cache_frame bc' = cache_frame bc
    \<and> bc_paymentIds bc' = snd (payment_add tx (bc_paymentIds bc))"
proof -
  have "tx_hash tx \<notin> dom (c_txs (fold apply_tx xs empty_cache))"
  proof
    assume "tx_hash tx \<in> dom (c_txs (fold apply_tx xs empty_cache))"
    then have "tx_hash tx \<in> tx_hash ` snd ` set xs" unfolding applied_hashes by (simp add: empty_cache_def)
    with inj base(1) show False by (auto dest: inj_onD)
  qed
  then have new: "m_transactionMap bc (tx_hash tx) = None" unfolding fit(2) [symmetric] by (simp add: cache_of_def domIff)
  have te: "0 < length (be_transactions block)" "te_tx (be_transactions block ! 0) = tx" "unat (ti_transaction ti) = 0"
    using block ti by simp_all
  have "length (outputs tx) < 2 ^ 16"
  proof (rule ccontr)
    assume "\<not> length (outputs tx) < 2 ^ 16"
    then have "pushTransaction block (tx_hash tx) ti bc = Inl (Failed ''std::bad_alloc'')"
      using new base te by (intro pushTransaction_big) auto
    with run show False by simp
  qed
  then have f: "fits (cache_of bc) tx" using new base by (auto simp: fits_def cache_of_def)
  from pushTransaction_ok [OF f te] run f block show ?thesis by auto
qed

section \<open>Pushing a block\<close>

lemma push_entry_inv:
  assumes inv: "chain_inv bc" and frame: "cache_frame bc2 = cache_frame bc" and len: "length (m_blocks bc) + 1 < 2 ^ 32"
    and fit: "all_fit (chain_txs (m_blocks bc) @ block_txs (length (m_blocks bc)) e) empty_cache"
      "cache_of bc2 = fold apply_tx (chain_txs (m_blocks bc) @ block_txs (length (m_blocks bc)) e) empty_cache"
    and pays: "mset (pi_index (bc_paymentIds bc2)) = mset (pi_index (bc_paymentIds bc)) + pay_entries (map te_tx (be_transactions e))"
    and ok: "entry_ok (length (m_blocks bc)) e" and new: "\<not> hasBlock (m_blockIndex bc) (block_id e)"
    and run: "pushBlock_entry e bc2 = Inr bc3"
  shows "chain_inv bc3 \<and> m_blocks bc3 = m_blocks bc @ [e] \<and> m_tx_pool bc3 = m_tx_pool bc
    \<and> m_alternative_chains bc3 = m_alternative_chains bc \<and> m_checkpoints bc3 = m_checkpoints bc"
proof -
  let ?n = "length (m_blocks bc)"
  have "chain_frame bc2 = chain_frame bc" using frame by (simp add: chain_frame_def)
  note f = frame_fields [OF this] and p = cache_frame_pool [OF frame]
  have h: "base_height (be_bl e) = Some (of_nat ?n)" using ok by (simp add: entry_ok_def base_height_def)
  have g: "generated_rel (map (\<lambda>e. length (transactionHashes (be_bl e))) (m_blocks bc)) (m_generatedTransactionsIndex bc)"
    using inv by (simp add: chain_inv_def indices_ok_def)
  have u: "unat (of_nat ?n :: u32) = ?n" using len by (simp add: unat_of_nat)
  from generated_add_rel [OF g h] u len obtain g' where
    g': "generated_add (be_bl e) (m_generatedTransactionsIndex bc) = Some (True, g')"
      "generated_rel (map (\<lambda>e. length (transactionHashes (be_bl e))) (m_blocks bc @ [e])) g'" by auto
  let ?bc3 = "bc2\<lparr>m_blocks := m_blocks bc @ [e], m_blockIndex := snd (push (m_blockIndex bc) (block_id e)),
         bc_timestamps := snd (timestamp_add (timestamp (be_bl e)) (block_id e) (bc_timestamps bc)),
         m_generatedTransactionsIndex := g'\<rparr>"
  have r: "bc3 = ?bc3" using run g'(1) f unfolding pushBlock_entry_def by (simp add: Let_def)
  have ids: "m_container (snd (push (m_blockIndex bc) (block_id e))) = map block_id (m_blocks bc @ [e])"
    "distinct (map block_id (m_blocks bc @ [e]))"
    using inv new by (auto simp: chain_inv_def indices_ok_def push_def hasBlock_def)
  have ix: "indices_ok ?bc3" using inv ids g'(2) pays unfolding indices_ok_def
    by (simp add: chain_inv_def indices_ok_def timestamp_add_def multimap_emplace_mset)
  have es: "\<forall>b < length (m_blocks bc @ [e]). entry_ok b ((m_blocks bc @ [e]) ! b)"
    using inv ok by (auto simp: chain_inv_def nth_append less_Suc_eq)
  have c: "cache_of ?bc3 = cache_of bc2" by (simp add: cache_of_def)
  have "chain_inv ?bc3" unfolding chain_inv_def c using fit es ix len by simp
  then show ?thesis unfolding r using f p by simp
qed

lemma validate_cong: "m_blocks bc2 = m_blocks bc \<Longrightarrow> validate_miner_transaction E bc2 = validate_miner_transaction E bc"
  by (simp add: validate_miner_transaction_def get_last_n_blocks_sizes_def getBackwardBlocksSize_def fun_eq_iff Let_def)

abbreviation block_size :: "Block \<Rightarrow> Transaction list \<Rightarrow> u64" where
  "block_size b txs \<equiv> fold (\<lambda>tx s. s + tx_size tx) txs (tx_size (baseTransaction b))"

abbreviation block_fee :: "Transaction list \<Rightarrow> u64" where
  "block_fee txs \<equiv> fold (\<lambda>tx f. f + tx_fee tx) txs 0"

text \<open>What a block that was accepted adds to the chain.\<close>

definition extends :: "chain_env \<Rightarrow> Block \<Rightarrow> Transaction list \<Rightarrow> u64 \<Rightarrow> BlockEntry list \<Rightarrow> BlockEntry \<Rightarrow> bool" where
  "extends E b txs diff bs e \<longleftrightarrow> be_bl e = b \<and> map te_tx (be_transactions e) = baseTransaction b # txs
    \<and> block_cumulative_size e = block_size b txs
    \<and> checkCumulativeBlockSize E (block_size b txs) (of_nat (length bs)) = Inr True
    \<and> cumulative_difficulty e = (if bs = [] then diff else diff + cumulative_difficulty (last bs))
    \<and> (\<exists>bc reward emission. m_blocks bc = bs
        \<and> validate_miner_transaction E bc b (block_size b txs) (getCoinsInCirculation bc) (block_fee txs) = Inr (True, reward, emission)
        \<and> already_generated_coins e = getCoinsInCirculation bc + emission)"

text \<open>What a block that is too large leaves behind: the transactions stay in the tables.\<close>

definition leaks :: "chain_env \<Rightarrow> Block \<Rightarrow> Transaction list \<Rightarrow> Blockchain \<Rightarrow> Blockchain \<Rightarrow> bool" where
  "leaks E b txs bc bc' \<longleftrightarrow> checkCumulativeBlockSize E (block_size b txs) (of_nat (length (m_blocks bc))) = Inr False
    \<and> cache_of bc' = fold apply_tx (index_txs (length (m_blocks bc)) (baseTransaction b # txs)) (cache_of bc)
    \<and> chain_frame bc' = chain_frame bc"

text \<open>What is asked of a block and of the transactions that are pushed with it.\<close>

definition push_ready :: "Blockchain \<Rightarrow> Block \<Rightarrow> Transaction list \<Rightarrow> bool" where
  "push_ready bc b txs \<longleftrightarrow> transactionHashes b = map tx_hash txs \<and> (\<forall>tx \<in> set txs. sem_tx tx) \<and> length txs + 1 < 2 ^ 16
    \<and> length (m_blocks bc) + 1 < 2 ^ 32
    \<and> inj_on tx_hash (insert (baseTransaction b) (snd ` set (chain_txs (m_blocks bc)) \<union> set txs))"

lemma push_checked_cases:
  assumes inv: "chain_inv bc" and rdy: "push_ready bc b txs"
    and base: "inputs (baseTransaction b) = [coinbase_input (length (m_blocks bc))]"
    and new: "\<not> hasBlock (m_blockIndex bc) (snd (get_block_hash b))"
    and run: "push_checked E b txs diff bvc bc = Inr (ok, bvc', bc')"
  shows "if ok
    then \<exists>e. m_blocks bc' = m_blocks bc @ [e] \<and> extends E b txs diff (m_blocks bc) e \<and> chain_inv bc' \<and> m_tx_pool bc' = m_tx_pool bc
      \<and> m_alternative_chains bc' = m_alternative_chains bc \<and> m_checkpoints bc' = m_checkpoints bc \<and> bvc' = bvc\<lparr>m_added_to_main_chain := True\<rparr>
    else bvc' = bvc_failed bvc \<and> m_tx_pool bc' = m_tx_pool bc \<and> (same_chain bc bc' \<or> leaks E b txs bc bc')"
proof -
  let ?n = "length (m_blocks bc)" and ?xs = "chain_txs (m_blocks bc)" and ?base = "baseTransaction b"
  let ?b0 = "\<lparr>be_bl = b, be_height = 0, block_cumulative_size = 0, cumulative_difficulty = 0,
           already_generated_coins = 0, be_transactions = [\<lparr>te_tx = ?base, m_global_output_indexes = []\<rparr>]\<rparr> :: BlockEntry"
  let ?ti = "\<lparr>ti_block = of_nat ?n, ti_transaction = 0\<rparr> :: TransactionIndex"
  note rdy' = rdy [unfolded push_ready_def]
  have fit: "all_fit ?xs empty_cache" "cache_of bc = fold apply_tx ?xs empty_cache" using inv by (simp_all add: chain_inv_def)
  have injB: "inj_on tx_hash (insert ?base (snd ` set ?xs))" 
    by (rule inj_on_subset [of _ "insert ?base (snd ` set ?xs \<union> set txs)"]) (use rdy' in \<open>blast+\<close>)
  from run obtain ok1 block1 bc1 ok2 block2 sz fee bc2 where
    r1: "pushTransaction ?b0 (tx_hash ?base) ?ti bc = Inr (ok1, block1, bc1)" and
    r2: "push_transactions E (tx_hash ?base) txs (transactionHashes b) block1 ?ti (tx_size ?base) 0 bc1 = Inr (ok2, block2, sz, fee, bc2)" and
    r3: "(if \<not> ok2 then Inr (False, bvc_failed bvc, bc2)
     else bindR (checkCumulativeBlockSize E sz (of_nat (length (m_blocks bc2)))) (\<lambda>ok.
     if \<not> ok then Inr (False, bvc_failed bvc, bc2)
     else
       bindR (validate_miner_transaction E bc2 b sz (getCoinsInCirculation bc2) fee) (\<lambda>(ok, reward, emissionChange).
       if \<not> ok
       then bindR (popTransactions block2 (tx_hash ?base) bc2) (\<lambda>bc. Inr (False, bvc_failed bvc, bc))
       else
         bindR (pushBlock_entry (block2\<lparr>be_height := of_nat (length (m_blocks bc2)), block_cumulative_size := sz,
               cumulative_difficulty := (if m_blocks bc2 = [] then diff
                 else diff + cumulative_difficulty (last (m_blocks bc2))),
               already_generated_coins := getCoinsInCirculation bc2 + emissionChange\<rparr>) bc2) (\<lambda>bc.
           Inr (True, bvc\<lparr>m_added_to_main_chain := True\<rparr>, update_next_comulative_size_limit E bc))))) = Inr (ok, bvc', bc')"
    unfolding push_checked_def Let_def by (auto simp: bindR_eq_Inr)
  obtain "is" where p1: "block1 = ?b0\<lparr>be_transactions := [\<lparr>te_tx = ?base, m_global_output_indexes = is\<rparr>]\<rparr>" "fits (cache_of bc) ?base"
    "cache_of bc1 = apply_tx (?ti, ?base) (cache_of bc)" "cache_frame bc1 = cache_frame bc" "bc_paymentIds bc1 = snd (payment_add ?base (bc_paymentIds bc))"
    using push_coinbase [OF fit coinbase_new [OF inv base] _ _ injB _ _ r1] base by (auto simp: map_filter_simps)
  have t1: "block_txs ?n block1 = [(?ti, ?base)]" unfolding p1(1) by (simp add: block_txs_def index_txs_def)
  have fit1: "all_fit (?xs @ block_txs ?n block1) empty_cache" "cache_of bc1 = fold apply_tx (?xs @ block_txs ?n block1) empty_cache"
    using fit p1(2,3) unfolding t1 by (simp_all add: all_fit_append)
  have e1: "entry_txs block1" unfolding p1(1) by (simp add: entry_txs_def)
  have pays1: "mset (pi_index (bc_paymentIds bc1)) = mset (pi_index (bc_paymentIds bc)) + pay_entries [?base]"
    using p1(5) by (simp add: pay_add_mset)
  have loop: "cache_frame bc2 = cache_frame bc1 \<and>
   (if ok2 then be_bl block2 = be_bl block1 \<and> map te_tx (be_transactions block2) = map te_tx (be_transactions block1) @ txs
      \<and> entry_txs block2 \<and> all_fit (?xs @ block_txs ?n block2) empty_cache \<and> cache_of bc2 = fold apply_tx (?xs @ block_txs ?n block2) empty_cache
      \<and> (\<forall>tx \<in> set txs. check_inputs_types_supported tx)
      \<and> mset (pi_index (bc_paymentIds bc2)) = mset (pi_index (bc_paymentIds bc1)) + pay_entries txs
      \<and> sz = block_size b txs \<and> fee = block_fee txs
    else cache_of bc2 = cache_of bc
      \<and> mset (pi_index (bc_paymentIds bc2)) = mset (pi_index (bc_paymentIds bc1)) - pay_entries (map te_tx (be_transactions block1)))"
    by (rule push_transactions_ok [OF r2 fit(2) fit1 e1]) (use rdy' p1(1) in \<open>auto simp: insert_commute Un_commute Un_assoc\<close>)
  have frame2: "cache_frame bc2 = cache_frame bc" using loop p1(4) by simp
  then have cf: "chain_frame bc2 = chain_frame bc" by (simp add: chain_frame_def)
  have m2: "m_blocks bc2 = m_blocks bc" and pool2: "m_tx_pool bc2 = m_tx_pool bc"
    using frame_fields(1) [OF cf] cache_frame_pool [OF frame2] .
  show ?thesis
  proof (cases ok2)
    case False
    with loop pays1 have "same_chain bc bc2" by (intro frame_same_chain [OF frame2]) (auto simp: p1(1))
    with False r3 pool2 show ?thesis by auto
  next
    case True
    with loop have l: "be_bl block2 = b" "map te_tx (be_transactions block2) = ?base # txs" "entry_txs block2"
      "all_fit (?xs @ block_txs ?n block2) empty_cache" "cache_of bc2 = fold apply_tx (?xs @ block_txs ?n block2) empty_cache"
      "\<forall>tx \<in> set txs. check_inputs_types_supported tx" "sz = block_size b txs" "fee = block_fee txs"
      and pays2: "mset (pi_index (bc_paymentIds bc2)) = mset (pi_index (bc_paymentIds bc)) + pay_entries (map te_tx (be_transactions block2))"
      using pays1 pay_entries_simps(2) [of "[?base]" txs] by (auto simp: p1(1))
    have coins: "getCoinsInCirculation bc2 = getCoinsInCirculation bc" using m2 by (simp add: getCoinsInCirculation_def)
    from True r3 obtain fits_size where r4: "checkCumulativeBlockSize E sz (of_nat ?n) = Inr fits_size" and
      r5: "(if \<not> fits_size then Inr (False, bvc_failed bvc, bc2)
     else
       bindR (validate_miner_transaction E bc b sz (getCoinsInCirculation bc) fee) (\<lambda>(ok, reward, emissionChange).
       if \<not> ok
       then bindR (popTransactions block2 (tx_hash ?base) bc2) (\<lambda>bc. Inr (False, bvc_failed bvc, bc))
       else
         bindR (pushBlock_entry (block2\<lparr>be_height := of_nat ?n, block_cumulative_size := sz,
               cumulative_difficulty := (if m_blocks bc = [] then diff else diff + cumulative_difficulty (last (m_blocks bc))),
               already_generated_coins := getCoinsInCirculation bc + emissionChange\<rparr>) bc2) (\<lambda>bc.
           Inr (True, bvc\<lparr>m_added_to_main_chain := True\<rparr>, update_next_comulative_size_limit E bc)))) = Inr (ok, bvc', bc')"
      unfolding m2 coins validate_cong [OF m2] by (auto simp: bindR_eq_Inr)
    show ?thesis
    proof (cases fits_size)
      case False
      have "leaks E b txs bc bc2" using False r4 l cf fit(2) by (auto simp: leaks_def block_txs_def)
      with False r5 pool2 show ?thesis by auto
    next
      case fs: True
      from r5 fs obtain ok3 reward emission where v: "validate_miner_transaction E bc b sz (getCoinsInCirculation bc) fee = Inr (ok3, reward, emission)"
        by (auto simp: bindR_eq_Inr)
      show ?thesis
      proof (cases ok3)
        case False
        with r5 fs v obtain bc3 where r6: "popTransactions block2 (tx_hash ?base) bc2 = Inr bc3" "\<not> ok" "bvc' = bvc_failed bvc" "bc' = bc3"
          by (auto simp: bindR_eq_Inr)
        have "all_fit (block_txs ?n block2) (cache_of bc)" "cache_of bc2 = fold apply_tx (block_txs ?n block2) (cache_of bc)" "cache_ok (cache_of bc)"
          using l(4,5) fit(2) by (simp_all add: all_fit_append fold_apply_ok empty_cache_ok)
        from popTransactions_ok [OF this(3,1,2) l(3)] r6(1) l(1) have p3: "cache_of bc3 = cache_of bc" "cache_frame bc3 = cache_frame bc2"
          "mset (pi_index (bc_paymentIds bc3)) = mset (pi_index (bc_paymentIds bc2)) - pay_entries (map te_tx (be_transactions block2))" by auto
        have "same_chain bc bc3" using p3 frame2 pays2 by (intro frame_same_chain) auto
        then show ?thesis using r6 cache_frame_pool [OF p3(2)] pool2 by simp
      next
        case ok3: True
        let ?e = "block2\<lparr>be_height := of_nat ?n, block_cumulative_size := sz,
               cumulative_difficulty := (if m_blocks bc = [] then diff else diff + cumulative_difficulty (last (m_blocks bc))),
               already_generated_coins := getCoinsInCirculation bc + emission\<rparr>"
        from r5 fs v ok3 obtain bc3 where r6: "pushBlock_entry ?e bc2 = Inr bc3" "ok" "bvc' = bvc\<lparr>m_added_to_main_chain := True\<rparr>"
          "bc' = update_next_comulative_size_limit E bc3" by (auto simp: bindR_eq_Inr)
        have te: "block_txs ?n ?e = block_txs ?n block2" "entry_txs ?e = entry_txs block2" by (simp_all add: block_txs_def entry_txs_def)
        have tl: "map te_tx (tl (be_transactions block2)) = txs" using l(2) by (simp add: map_tl)
        have "length (be_transactions block2) = Suc (length txs)" using arg_cong [OF l(2), of length] by simp
        moreover have "\<forall>te \<in> set (tl (be_transactions block2)). te_tx te \<in> set txs" unfolding tl [symmetric] by simp
        ultimately have "entry_ok ?n ?e" unfolding entry_ok_def te using l(1,3,6) rdy' base by auto
        from push_entry_inv [OF inv frame2 _ _ _ _ this _ r6(1)] l(1,4,5) te pays2 rdy' new
        have p3: "chain_inv bc3" "m_blocks bc3 = m_blocks bc @ [?e]" "m_tx_pool bc3 = m_tx_pool bc"
          "m_alternative_chains bc3 = m_alternative_chains bc" "m_checkpoints bc3 = m_checkpoints bc" by simp_all
        have "chain_inv bc'" using p3(1) unfolding r6(4) update_next_comulative_size_limit_def Let_def
          by (simp add: chain_inv_def indices_ok_def cache_of_def)
        moreover have "extends E b txs diff (m_blocks bc) ?e" unfolding extends_def using l r4 fs v ok3 by auto
        ultimately show ?thesis using r6(2,3) p3 unfolding r6(4) by (simp add: update_next_comulative_size_limit_def Let_def)
      qed
    qed
  qed
qed

section \<open>Transactions from and to the pool\<close>

definition pool_sem :: "tx_memory_pool \<Rightarrow> bool" where
  "pool_sem p \<longleftrightarrow> pool_inv p \<and> (\<forall>d \<in> set (m_transactions p). td_id d = tx_hash (td_tx d) \<and> sem_tx (td_tx d))"

abbreviation pool_txs :: "Blockchain \<Rightarrow> Transaction set" where
  "pool_txs bc \<equiv> td_tx ` set (m_transactions (m_tx_pool bc))"

lemma add_kept_true:
  assumes "add_tx c v now tx h sz tvc True p = (True, tvc', p')"
  shows "accepts c v tx h sz True p \<and> \<not> have_tx h p"
  using assms by (auto simp: add_tx_def accepts_def add_to_pool_def container_insert_def have_tx_def pool_fee_def pool_fusion_def
      Let_def split_beta not_less split: if_splits)

lemma save_transaction_ok:
  assumes run: "save_transaction msg E tx bc = Inr bc'" and sem: "sem_tx tx" and pool: "pool_sem (m_tx_pool bc)"
  shows "same_chain bc bc' \<and> pool_sem (m_tx_pool bc') \<and> pool_txs bc' = insert tx (pool_txs bc)"
proof -
  obtain tok h sz where o: "getObjectHash_size out_Transaction tx = (tok, h, sz)" by (metis prod_cases3)
  have h: "h = tx_hash tx" using o
    by (auto simp: getObjectHash_size_def getObjectHash_value_def getObjectHash_def split: option.splits)
  from run obtain tvc p where a: "add_tx (ce_currency E) (validator_of E bc) (ce_time E) tx h (of_nat sz) new_tvc True (m_tx_pool bc) = (True, tvc, p)"
    and bc': "bc' = bc\<lparr>m_tx_pool := p\<rparr>"
    by (auto simp: save_transaction_def add_kept_def add_tx_object_def bindR_eq_Inr o Let_def split_beta prod_eq_iff split: if_splits)
  let ?d = "pool_entry (validator_of E bc) (ce_time E) tx h (of_nat sz) True"
  have inv: "pool_inv (m_tx_pool bc)" "distinct (images_of (inputs tx))" using pool sem by (auto simp: pool_sem_def sem_tx_def)
  from add_tx_cases [OF inv a] add_kept_true [OF a] have p: "pool_inv p" "m_transactions p = priority_insert ?d (m_transactions (m_tx_pool bc))" by auto
  have d: "td_id ?d = tx_hash tx" "td_tx ?d = tx" by (simp_all add: pool_entry_def h)
  have "pool_sem p" using p d pool sem by (auto simp: pool_sem_def)
  moreover have "td_tx ` set (m_transactions p) = insert tx (pool_txs bc)" using p(2) d by simp
  ultimately show ?thesis unfolding bc' by (simp add: same_chain_pool)
qed

lemma save_all_ok:
  "foldR (save_transaction msg E) txs bc = Inr bc' \<Longrightarrow> \<forall>tx \<in> set txs. sem_tx tx \<Longrightarrow> pool_sem (m_tx_pool bc) \<Longrightarrow>
   same_chain bc bc' \<and> pool_sem (m_tx_pool bc') \<and> pool_txs bc' = set txs \<union> pool_txs bc"
proof (induction txs arbitrary: bc)
  case (Cons tx txs)
  then obtain bc1 where r: "save_transaction msg E tx bc = Inr bc1" "foldR (save_transaction msg E) txs bc1 = Inr bc'"
    by (auto simp: bindR_eq_Inr)
  have s: "same_chain bc bc1 \<and> pool_sem (m_tx_pool bc1) \<and> pool_txs bc1 = insert tx (pool_txs bc)"
    using save_transaction_ok [OF r(1)] Cons.prems by simp
  then have "same_chain bc1 bc' \<and> pool_sem (m_tx_pool bc') \<and> pool_txs bc' = set txs \<union> pool_txs bc1"
    using Cons.IH [OF r(2)] Cons.prems by simp
  with s show ?case using same_chain_trans by auto
qed simp

lemma load_loop_ok:
  "load_loop E hs taken bc = Inr (r, bc') \<Longrightarrow> pool_sem (m_tx_pool bc) \<Longrightarrow> \<forall>tx \<in> set taken. sem_tx tx \<Longrightarrow>
   same_chain bc bc' \<and> pool_sem (m_tx_pool bc') \<and>
   (case r of
      None \<Rightarrow> pool_txs bc' = set taken \<union> pool_txs bc
    | Some txs \<Rightarrow> \<exists>new. txs = rev taken @ new \<and> map tx_hash new = hs \<and> set new \<subseteq> pool_txs bc \<and> pool_txs bc = pool_txs bc' \<union> set new
        \<and> (\<forall>tx \<in> set new. sem_tx tx))"
proof (induction hs arbitrary: taken bc)
  case (Cons h hs)
  have inv: "pool_inv (m_tx_pool bc)" using Cons.prems by (simp add: pool_sem_def)
  show ?case
  proof (cases "have_tx h (m_tx_pool bc)")
    case True
    with take_tx_ok [OF inv, of h] obtain d p where d: "d \<in> set (m_transactions (m_tx_pool bc))" "td_id d = h"
      "take_tx h (m_tx_pool bc) = (Some (td_tx d, blobSize d, td_fee d), p)" "pool_inv p" "m_transactions p = remove1 d (m_transactions (m_tx_pool bc))"
      by auto
    let ?bc = "bc\<lparr>m_tx_pool := p\<rparr>"
    have sub: "set (m_transactions p) \<subseteq> set (m_transactions (m_tx_pool bc))" unfolding d(5) by (rule set_remove1_subset)
    have sup: "set (m_transactions (m_tx_pool bc)) = insert d (set (m_transactions p))"
      using d(1) sub unfolding d(5) by (metis insert_subset set_mset_mset mset_remove1 insert_DiffM set_mset_add_mset_insert)
    have sem: "sem_tx (td_tx d)" "tx_hash (td_tx d) = h" using Cons.prems(2) d(1,2) by (auto simp: pool_sem_def)
    have ps: "pool_sem (m_tx_pool ?bc)" using Cons.prems(2) d(4) sub by (auto simp: pool_sem_def)
    have "load_loop E hs (td_tx d # taken) ?bc = Inr (r, bc')" using Cons.prems(1) d(3) by simp
    from Cons.IH [OF this ps] Cons.prems(3) sem(1) have IH: "same_chain ?bc bc'" "pool_sem (m_tx_pool bc')"
      "case r of None \<Rightarrow> pool_txs bc' = set (td_tx d # taken) \<union> pool_txs ?bc
       | Some txs \<Rightarrow> \<exists>new. txs = rev (td_tx d # taken) @ new \<and> map tx_hash new = hs \<and> set new \<subseteq> pool_txs ?bc \<and> pool_txs ?bc = pool_txs bc' \<union> set new
          \<and> (\<forall>tx \<in> set new. sem_tx tx)" by auto
    have sc: "same_chain bc bc'" using same_chain_trans [OF same_chain_pool IH(1)] .
    have pt: "pool_txs bc = insert (td_tx d) (pool_txs ?bc)" using sup by simp
    show ?thesis
    proof (cases r)
      case None
      then show ?thesis using IH sc pt by auto
    next
      case (Some txs)
      with IH(3) obtain new where "txs = rev (td_tx d # taken) @ new" "map tx_hash new = hs" "set new \<subseteq> pool_txs ?bc"
        "pool_txs ?bc = pool_txs bc' \<union> set new" "\<forall>tx \<in> set new. sem_tx tx" by auto
      then show ?thesis using Some IH(2) sc sem unfolding pt by (auto intro!: exI [of _ "td_tx d # new"])
    qed
  next
    case False
    with take_tx_ok [OF inv, of h] have t: "take_tx h (m_tx_pool bc) = (None, m_tx_pool bc)" by simp
    have bcs: "bc\<lparr>m_tx_pool := m_tx_pool bc\<rparr> = bc" by simp
    from Cons.prems(1) t obtain msg where "foldR (save_transaction msg E) taken bc = Inr bc'" "r = None" by (auto simp: bindR_eq_Inr bcs)
    with save_all_ok [OF this(1)] Cons.prems show ?thesis by auto
  qed
qed auto

section \<open>Blocks from the network\<close>

lemma prevalidate_input:
  assumes "prevalidate_miner_transaction E b (getCurrentBlockchainHeight bc)"
  shows "inputs (baseTransaction b) = [coinbase_input (length (m_blocks bc))]"
proof -
  from assms obtain i where "inputs (baseTransaction b) = [VBaseInput i]" "blockIndex i = getCurrentBlockchainHeight bc"
    by (cases "inputs (baseTransaction b)" rule: remdups_adj.cases)
      (auto simp: prevalidate_miner_transaction_def split: list.splits TransactionInput.splits if_splits)
  then show ?thesis by (cases i) (simp add: getCurrentBlockchainHeight_def)
qed

text \<open>The checks of the header.\<close>

definition header_ok :: "chain_env \<Rightarrow> Blockchain \<Rightarrow> Block \<Rightarrow> u64 \<Rightarrow> bool" where
  "header_ok E bc b diff \<longleftrightarrow> \<not> hasBlock (m_blockIndex bc) (snd (get_block_hash b)) \<and> bc_getTailId bc = Inr (previousBlockHash b)
    \<and> check_block_timestamp_main E bc b \<and> getDifficultyForNextBlock E bc = Inr diff \<and> diff \<noteq> 0
    \<and> (if is_in_checkpoint_zone (m_checkpoints bc) (getCurrentBlockchainHeight bc)
       then check_block (m_checkpoints bc) (getCurrentBlockchainHeight bc) (snd (get_block_hash b))
       else checkProofOfWork (ce_slow_hash E) b diff)
    \<and> prevalidate_miner_transaction E b (getCurrentBlockchainHeight bc)"

lemma pushBlock_header_ok: "header_ok E bc b diff \<Longrightarrow> pushBlock_transactions E b txs bvc bc = push_checked E b txs diff bvc bc"
  unfolding pushBlock_transactions_def Let_def header_ok_def by (simp only: bindR_Inr if_False not_True_eq_False if_True simp_thms cong: if_cong) simp

lemma pushBlock_transactions_eq:
  assumes "pushBlock_transactions E b txs bvc bc = Inr (ok, bvc', bc')"
  shows "(\<not> ok \<and> bc' = bc \<and> (\<forall>diff. \<not> header_ok E bc b diff))
    \<or> (\<exists>diff. header_ok E bc b diff \<and> push_checked E b txs diff bvc bc = Inr (ok, bvc', bc'))"
proof (cases "\<exists>diff. header_ok E bc b diff")
  case True
  then obtain diff where d: "header_ok E bc b diff" by auto
  with pushBlock_header_ok [OF d, of txs bvc] assms show ?thesis by auto
next
  case False
  then have n: "\<not> header_ok E bc b diff" for diff by auto
  show ?thesis
  proof (cases "bc_getTailId bc"; cases "getDifficultyForNextBlock E bc")
    fix t d assume "bc_getTailId bc = Inr t" "getDifficultyForNextBlock E bc = Inr d"
    then show ?thesis using assms n [of d] n unfolding pushBlock_transactions_def Let_def header_ok_def
      by (simp split: if_split_asm)
  qed (use assms n in \<open>simp_all add: pushBlock_transactions_def Let_def split: if_split_asm\<close>)
qed

definition no_collision :: "Blockchain \<Rightarrow> Block \<Rightarrow> bool" where
  "no_collision bc b \<longleftrightarrow> inj_on tx_hash (insert (baseTransaction b) (snd ` set (chain_txs (m_blocks bc)) \<union> pool_txs bc))"

definition block_fits :: "Blockchain \<Rightarrow> Block \<Rightarrow> bool" where
  "block_fits bc b \<longleftrightarrow> length (transactionHashes b) + 1 < 2 ^ 16 \<and> length (m_blocks bc) + 1 < 2 ^ 32 \<and> no_collision bc b"

lemma leaks_trans: "leaks E b txs bc bc1 \<Longrightarrow> same_chain bc1 bc2 \<Longrightarrow> leaks E b txs bc bc2"
  by (simp add: leaks_def same_chain_def)

lemma header_cong:
  assumes "same_chain bc bc1"
  shows "header_ok E bc1 b diff = header_ok E bc b diff"
proof -
  have "chain_frame bc1 = chain_frame bc" using assms by (simp add: same_chain_def)
  note f = frame_fields [OF this]
  show ?thesis
    by (simp add: header_ok_def f bc_getTailId_def check_block_timestamp_main_def getDifficultyForNextBlock_def getCurrentBlockchainHeight_def)
qed

lemma leaks_cong:
  assumes "same_chain bc bc1"
  shows "leaks E b txs bc1 bc2 = leaks E b txs bc bc2"
proof -
  have c: "chain_frame bc1 = chain_frame bc" "cache_of bc1 = cache_of bc" using assms by (simp_all add: same_chain_def)
  show ?thesis by (simp add: leaks_def c frame_fields(1) [OF c(1)])
qed

text \<open>
  The outcome of \<open>pushBlock\<close>: the chain is extended by the block, with the transactions taken from the
  pool; or the chain and the transactions of the pool are as before, unless the block was too large.
\<close>

lemma pushBlock_cases:
  assumes inv: "chain_inv bc" and pool: "pool_sem (m_tx_pool bc)" and fits: "block_fits bc b"
    and run: "pushBlock E b bvc bc = Inr (ok, bvc', bc')"
  shows "pool_sem (m_tx_pool bc') \<and>
    (if ok
     then \<exists>e txs diff. m_blocks bc' = m_blocks bc @ [e] \<and> extends E b txs diff (m_blocks bc) e \<and> header_ok E bc b diff
       \<and> chain_inv bc' \<and> map tx_hash txs = transactionHashes b \<and> pool_txs bc = pool_txs bc' \<union> set txs
       \<and> m_alternative_chains bc' = m_alternative_chains bc \<and> m_checkpoints bc' = m_checkpoints bc \<and> bvc' = bvc\<lparr>m_added_to_main_chain := True\<rparr>
     else pool_txs bc' = pool_txs bc \<and> (same_chain bc bc'
       \<or> (\<exists>txs diff. map tx_hash txs = transactionHashes b \<and> set txs \<subseteq> pool_txs bc \<and> header_ok E bc b diff \<and> leaks E b txs bc bc')))"
proof -
  from run obtain r bc1 where l: "load_loop E (transactionHashes b) [] bc = Inr (r, bc1)" and
    r1: "(case r of None \<Rightarrow> Inr (False, bvc_failed bvc, bc1)
      | Some txs \<Rightarrow> bindR (pushBlock_transactions E b txs bvc bc1) (\<lambda>(ok, bvc, bc).
            if \<not> ok then bindR (saveTransactions E txs bc) (\<lambda>bc. Inr (False, bvc, bc)) else Inr (True, bvc, bc))) = Inr (ok, bvc', bc')"
    by (auto simp: pushBlock_def loadTransactions_def bindR_eq_Inr)
  note load = load_loop_ok [OF l pool]
  show ?thesis
  proof (cases r)
    case None
    with load r1 show ?thesis by auto
  next
    case (Some txs)
    with load have t: "same_chain bc bc1" "pool_sem (m_tx_pool bc1)" "map tx_hash txs = transactionHashes b"
      "set txs \<subseteq> pool_txs bc" "pool_txs bc = pool_txs bc1 \<union> set txs" "\<forall>tx \<in> set txs. sem_tx tx" by auto
    have cf: "chain_frame bc1 = chain_frame bc" using t(1) by (simp add: same_chain_def)
    note f = frame_fields [OF cf]
    have inv1: "chain_inv bc1" using same_chain_inv [OF t(1)] inv by simp
    have len: "length txs = length (transactionHashes b)" using arg_cong [OF t(3), of length] by simp
    have "inj_on tx_hash (insert (baseTransaction b) (snd ` set (chain_txs (m_blocks bc1)) \<union> set txs))"
      unfolding f by (rule inj_on_subset [OF fits [unfolded block_fits_def no_collision_def, THEN conjunct2, THEN conjunct2]]) (use t(4) in blast)
    then have rdy: "push_ready bc1 b txs" using fits t(3,6) len f by (auto simp: push_ready_def block_fits_def)
    from r1 Some obtain ok2 bvc2 bc2 where r2: "pushBlock_transactions E b txs bvc bc1 = Inr (ok2, bvc2, bc2)" and
      r3: "(if \<not> ok2 then bindR (saveTransactions E txs bc2) (\<lambda>bc. Inr (False, bvc2, bc)) else Inr (True, bvc2, bc2)) = Inr (ok, bvc', bc')"
      by (auto simp: bindR_eq_Inr)
    have res: "if ok2 then \<exists>e diff. m_blocks bc2 = m_blocks bc @ [e] \<and> extends E b txs diff (m_blocks bc) e \<and> header_ok E bc b diff
        \<and> chain_inv bc2 \<and> m_tx_pool bc2 = m_tx_pool bc1
        \<and> m_alternative_chains bc2 = m_alternative_chains bc \<and> m_checkpoints bc2 = m_checkpoints bc \<and> bvc2 = bvc\<lparr>m_added_to_main_chain := True\<rparr>
      else m_tx_pool bc2 = m_tx_pool bc1 \<and> (same_chain bc bc2 \<or> (\<exists>diff. header_ok E bc b diff \<and> leaks E b txs bc bc2))"
      using pushBlock_transactions_eq [OF r2]
    proof
      assume "\<not> ok2 \<and> bc2 = bc1 \<and> (\<forall>diff. \<not> header_ok E bc1 b diff)"
      with t(1) show ?thesis by simp
    next
      assume "\<exists>diff. header_ok E bc1 b diff \<and> push_checked E b txs diff bvc bc1 = Inr (ok2, bvc2, bc2)"
      then obtain diff where d: "header_ok E bc1 b diff" "push_checked E b txs diff bvc bc1 = Inr (ok2, bvc2, bc2)" by auto
      have "inputs (baseTransaction b) = [coinbase_input (length (m_blocks bc1))]" "\<not> hasBlock (m_blockIndex bc1) (snd (get_block_hash b))"
        using d(1) prevalidate_input by (auto simp: header_ok_def)
      from push_checked_cases [OF inv1 rdy this d(2)] d(1) show ?thesis
        unfolding f header_cong [OF t(1)] leaks_cong [OF t(1)] using same_chain_trans [OF t(1)] by (auto split: if_splits)
    qed
    show ?thesis
    proof (cases ok2)
      case True
      with res obtain e diff where "m_blocks bc2 = m_blocks bc @ [e] \<and> extends E b txs diff (m_blocks bc) e \<and> header_ok E bc b diff
        \<and> chain_inv bc2 \<and> m_tx_pool bc2 = m_tx_pool bc1
        \<and> m_alternative_chains bc2 = m_alternative_chains bc \<and> m_checkpoints bc2 = m_checkpoints bc \<and> bvc2 = bvc\<lparr>m_added_to_main_chain := True\<rparr>" by auto
      with True r3 t show ?thesis by (auto intro!: exI [of _ e] exI [of _ txs] exI [of _ diff])
    next
      case False
      with r3 have s: "foldR (save_transaction ''Blockchain::saveTransactions, failed to add transaction to pool'' E) (rev txs) bc2 = Inr bc'" "\<not> ok"
        by (auto simp: saveTransactions_def bindR_eq_Inr)
      have p2: "m_tx_pool bc2 = m_tx_pool bc1" "same_chain bc bc2 \<or> (\<exists>diff. header_ok E bc b diff \<and> leaks E b txs bc bc2)" using res False by auto
      from save_all_ok [OF s(1)] t(2,6) p2(1) have s2: "same_chain bc2 bc'" "pool_sem (m_tx_pool bc')" "pool_txs bc' = set txs \<union> pool_txs bc1"
        by auto
      then show ?thesis using s(2) p2(2) t(3,4,5) same_chain_trans [of bc bc2 bc'] leaks_trans [of E b txs bc bc2 bc'] by auto
    qed
  qed
qed

section \<open>Popping a block\<close>

lemma all_fit_last:
  assumes "chain_inv bc" and "m_blocks bc = bs @ [e]"
  shows "all_fit (block_txs (length bs) e) (fold apply_tx (chain_txs bs) empty_cache)"
    "cache_of bc = fold apply_tx (block_txs (length bs) e) (fold apply_tx (chain_txs bs) empty_cache)" "all_fit (chain_txs bs) empty_cache"
    "entry_ok (length bs) e"
  using assms by (auto simp: chain_inv_def all_fit_append nth_append split: if_splits dest: spec [of _ "length bs"])

text \<open>\<open>popBlock\<close> fails only if the pool does not take back the transactions.\<close>

lemma popBlock_ok:
  assumes inv: "chain_inv bc" and pool: "pool_sem (m_tx_pool bc)" and bs: "m_blocks bc = bs @ [e]"
    and save: "saveTransactions E (map te_tx (tl (be_transactions e))) bc = Inr bc1"
  shows "\<exists>bc'. popBlock E (block_id e) bc = Inr bc' \<and> chain_inv bc' \<and> m_blocks bc' = bs \<and> pool_sem (m_tx_pool bc')
    \<and> pool_txs bc' = te_tx ` set (tl (be_transactions e)) \<union> pool_txs bc
    \<and> cache_of bc' = fold apply_tx (chain_txs bs) empty_cache \<and> m_alternative_chains bc' = m_alternative_chains bc
    \<and> m_checkpoints bc' = m_checkpoints bc"
proof -
  let ?c = "fold apply_tx (chain_txs bs) empty_cache" and ?base = "baseTransaction (be_bl e)"
  note last = all_fit_last [OF inv bs]
  have e: "entry_txs e" "be_transactions e \<noteq> []" using last(4) by (auto simp: entry_ok_def entry_txs_def)
  have sem: "\<forall>tx \<in> set (rev (map te_tx (tl (be_transactions e)))). sem_tx tx" using last(4) by (auto simp: entry_ok_def)
  from save_all_ok [OF save [unfolded saveTransactions_def] sem pool] have s1: "same_chain bc bc1" "pool_sem (m_tx_pool bc1)"
    "pool_txs bc1 = te_tx ` set (tl (be_transactions e)) \<union> pool_txs bc" by auto
  have c1: "cache_of bc1 = fold apply_tx (block_txs (length bs) e) ?c" "chain_frame bc1 = chain_frame bc"
    "mset (pi_index (bc_paymentIds bc1)) = mset (pi_index (bc_paymentIds bc))"
    using s1(1) last(2) by (simp_all add: same_chain_def)
  note f1 = frame_fields [OF c1(2)]
  from popTransactions_ok [OF fold_apply_ok [OF empty_cache_ok] last(1) c1(1) e(1)] obtain bc2 where
    p: "popTransactions e (tx_hash ?base) bc1 = Inr bc2" and p2: "cache_of bc2 = ?c" "cache_frame bc2 = cache_frame bc1"
    "mset (pi_index (bc_paymentIds bc2)) = mset (pi_index (bc_paymentIds bc1)) - pay_entries (map te_tx (be_transactions e))" by auto
  have cf2: "chain_frame bc2 = chain_frame bc1" using p2(2) by (simp add: chain_frame_def)
  note f2 = frame_fields [OF cf2]
  have ix: "indices_ok bc" "length bs + 1 < 2 ^ 32" using inv bs by (simp_all add: chain_inv_def)
  have h: "base_height (be_bl e) = Some (of_nat (length bs))" using last(4) by (simp add: entry_ok_def base_height_def)
  have gr: "generated_rel (map (\<lambda>e. length (transactionHashes (be_bl e))) (bs @ [e])) (m_generatedTransactionsIndex bc2)"
    using ix(1) f1 f2 bs by (simp add: indices_ok_def)
  have u: "unat (of_nat (length bs) :: u32) = length bs" using ix(2) by (simp add: unat_of_nat)
  from generated_remove_rel [OF gr h] u obtain ok g where g: "generated_remove (be_bl e) (m_generatedTransactionsIndex bc2) = Some (ok, g)"
    "generated_rel (map (\<lambda>e. length (transactionHashes (be_bl e))) bs) g" by auto
  have "m_container (m_blockIndex bc2) = map block_id (bs @ [e])" using ix(1) f1 f2 bs by (simp add: indices_ok_def)
  then have "\<exists>bi. pop (m_blockIndex bc2) = Some bi \<and> m_container bi = map block_id bs" by (simp add: pop_def)
  then obtain bi where bi: "pop (m_blockIndex bc2) = Some bi" "m_container bi = map block_id bs" by blast
  let ?bc = "bc2\<lparr>bc_timestamps := snd (timestamp_remove (timestamp (be_bl e)) (block_id e) (bc_timestamps bc2)),
             m_generatedTransactionsIndex := g, m_blocks := butlast (m_blocks bc2), m_blockIndex := bi\<rparr>"
  have run: "popBlock E (block_id e) bc = Inr ?bc"
    using bs e(2) save p g(1) bi(1) by (simp add: popBlock_def Let_def)
  have tm: "mset (ti_index (snd (timestamp_remove (timestamp (be_bl e)) (block_id e) (bc_timestamps bc2))))
      = mset (map (\<lambda>e. (timestamp (be_bl e), block_id e)) bs)"
    using ix(1) f1 f2 bs by (simp add: timestamp_remove_def indices_ok_def Let_def split_beta)
  have pe: "mset (pi_index (bc_paymentIds bc2)) = pay_entries (map snd (chain_txs bs))"
    using ix(1) p2(3) c1(3) bs by (simp add: indices_ok_def)
  have m: "butlast (m_blocks bc2) = bs" using f1 f2 bs by simp
  have "indices_ok ?bc" unfolding indices_ok_def using bi tm pe g ix(1) bs m by (simp add: indices_ok_def)
  moreover have "cache_of ?bc = ?c" using p2(1) by (simp add: cache_of_def)
  moreover have "\<forall>b < length bs. entry_ok b (bs ! b)"
  proof (intro allI impI)
    fix b assume "b < length bs"
    moreover have "\<forall>b < length (bs @ [e]). entry_ok b ((bs @ [e]) ! b)" using inv unfolding chain_inv_def bs by blast
    ultimately show "entry_ok b (bs ! b)" by (auto simp: nth_append dest!: spec [of _ b])
  qed
  moreover have "m_blocks ?bc = bs" using m by simp
  moreover have "m_tx_pool ?bc = m_tx_pool bc1" "m_alternative_chains ?bc = m_alternative_chains bc" "m_checkpoints ?bc = m_checkpoints bc"
    using cache_frame_pool [OF p2(2)] f1 f2 by simp_all
  ultimately show ?thesis using last(3) s1 ix(2) run by (intro exI [of _ ?bc]) (simp add: chain_inv_def)
qed

lemma popBlock_error:
  assumes inv: "chain_inv bc" and bs: "m_blocks bc = bs @ [e]"
    and save: "saveTransactions E (map te_tx (tl (be_transactions e))) bc = Inl x"
  shows "popBlock E h bc = Inl x"
  using all_fit_last(4) [OF inv bs] bs save by (auto simp: entry_ok_def entry_txs_def popBlock_def Let_def)

section \<open>Rebuilding computes the tables\<close>

definition set_cache :: "chain_cache \<Rightarrow> Blockchain \<Rightarrow> Blockchain" where
  "set_cache c bc = bc\<lparr>m_transactionMap := c_txs c, m_spent_keys := c_keys c, m_outputs := c_outs c, m_multisignatureOutputs := c_ms c\<rparr>"

lemma set_cache_id: "set_cache (cache_of bc) bc = bc"
  by (simp add: set_cache_def cache_of_def)

lemma rebuild_inputs_eq:
  "(\<forall>r \<in> set (refs_of is). ref_ok ms r) \<Longrightarrow>
   rebuild_inputs is (ks, ms) = Inr (ks \<union> set (images_of is), set_usage True (set (refs_of is)) ms)"
proof (induction "is" arbitrary: ks ms)
  case (Cons i "is")
  show ?case
  proof (cases i)
    case (VMultisignatureInput m)
    let ?r = "(mi_amount m, unat (outputIndex m))"
    have r: "refs_of (i # is) = ?r # refs_of is" "images_of (i # is) = images_of is" using VMultisignatureInput by (simp_all add: map_filter_Cons)
    have "\<forall>r \<in> set (refs_of [VMultisignatureInput m]). ref_ok ms r" using Cons.prems VMultisignatureInput by (simp add: map_filter_Cons map_filter_simps)
    from mark_used_eq [OF this] have m: "mark_used True [VMultisignatureInput m] ms = Inr (set_usage True {?r} ms)"
      by (simp add: map_filter_Cons map_filter_simps)
    have "\<forall>r \<in> set (refs_of is). ref_ok (set_usage True {?r} ms) r" using Cons.prems r by simp
    from Cons.IH [OF this] have IH: "rebuild_inputs is (ks, set_usage True {?r} ms)
      = Inr (ks \<union> set (images_of is), set_usage True (set (refs_of is)) (set_usage True {?r} ms))" .
    have "set_usage True (set (refs_of is)) (set_usage True {?r} ms) = set_usage True (insert ?r (set (refs_of is))) ms"
      by (auto simp: set_usage_def fun_eq_iff option.map_comp comp_def intro!: option.map_cong0)
    then show ?thesis using IH m r VMultisignatureInput by (simp del: mark_used.simps)
  qed (use Cons in \<open>simp_all add: map_filter_Cons\<close>)
qed (simp add: map_filter_simps)

lemma rebuild_transaction_eq:
  assumes "fits c (te_tx te)"
  shows "rebuild_transaction b (t, te) (set_cache c bc)
    = Inr (set_cache (apply_tx (\<lparr>ti_block = of_nat b, ti_transaction = of_nat t\<rparr>, te_tx te) c) bc)"
proof -
  let ?tx = "te_tx te" and ?ti = "\<lparr>ti_block = of_nat b, ti_transaction = of_nat t\<rparr> :: TransactionIndex"
  have r: "rebuild_inputs (inputs ?tx) (c_keys c, c_ms c)
    = Inr (c_keys c \<union> set (images_of (inputs ?tx)), set_usage True (set (refs_of (inputs ?tx))) (c_ms c))"
    using assms by (intro rebuild_inputs_eq) (auto simp: fits_def ref_unused_ok)
  obtain "is" outs ms where p: "push_outputs ?ti 0 (outputs ?tx) (c_outs c, set_usage True (set (refs_of (inputs ?tx))) (c_ms c)) = (is, outs, ms)"
    by (metis prod_cases3)
  show ?thesis using assms r p by (simp add: rebuild_transaction_def set_cache_def Let_def fits_def apply_tx_def)
qed

lemma rebuild_transactions_eq:
  "all_fit (map (\<lambda>(t, te). (\<lparr>ti_block = of_nat b, ti_transaction = of_nat t\<rparr>, te_tx te)) xs) c \<Longrightarrow>
   foldR (rebuild_transaction b) xs (set_cache c bc)
     = Inr (set_cache (fold apply_tx (map (\<lambda>(t, te). (\<lparr>ti_block = of_nat b, ti_transaction = of_nat t\<rparr>, te_tx te)) xs) c) bc)"
proof (induction xs arbitrary: c)
  case (Cons x xs)
  then show ?case by (cases x) (simp add: rebuild_transaction_eq)
qed simp

lemma enumerate_map_eq: "List.enumerate n (map f xs) = map (\<lambda>(i, x). (i, f x)) (List.enumerate n xs)"
  by (induction xs arbitrary: n) auto

lemma block_txs_enumerate:
  "block_txs b e = map (\<lambda>(t, te). (\<lparr>ti_block = of_nat b, ti_transaction = of_nat t\<rparr>, te_tx te)) (List.enumerate 0 (be_transactions e))"
  by (simp add: block_txs_def index_txs_def enumerate_map_eq split_beta comp_def)

lemma rebuild_block_eq:
  assumes "all_fit (block_txs b e) c" and "length (be_transactions e) < 2 ^ 16"
  shows "rebuild_block (b, e) (set_cache c bc)
    = Inr (set_cache (fold apply_tx (block_txs b e) c) (bc\<lparr>m_blockIndex := snd (push (m_blockIndex bc) (block_id e))\<rparr>))"
proof -
  have "(set_cache c bc)\<lparr>m_blockIndex := x\<rparr> = set_cache c (bc\<lparr>m_blockIndex := x\<rparr>)" for x by (simp add: set_cache_def)
  moreover have "m_blockIndex (set_cache c bc) = m_blockIndex bc" by (simp add: set_cache_def)
  ultimately show ?thesis using assms unfolding block_txs_enumerate rebuild_block_def by (simp add: rebuild_transactions_eq)
qed

lemma rebuild_blocks_eq:
  "all_fit (chain_txs bs) empty_cache \<Longrightarrow> \<forall>e \<in> set bs. length (be_transactions e) < 2 ^ 16 \<Longrightarrow> distinct (map block_id bs) \<Longrightarrow>
   foldR rebuild_block (List.enumerate 0 bs) (set_cache empty_cache (bc\<lparr>m_blockIndex := \<lparr>m_container = []\<rparr>\<rparr>))
     = Inr (set_cache (fold apply_tx (chain_txs bs) empty_cache) (bc\<lparr>m_blockIndex := \<lparr>m_container = map block_id bs\<rparr>\<rparr>))"
proof (induction bs rule: rev_induct)
  case (snoc e bs)
  have "foldR rebuild_block (List.enumerate 0 bs) (set_cache empty_cache (bc\<lparr>m_blockIndex := \<lparr>m_container = []\<rparr>\<rparr>))
     = Inr (set_cache (fold apply_tx (chain_txs bs) empty_cache) (bc\<lparr>m_blockIndex := \<lparr>m_container = map block_id bs\<rparr>\<rparr>))"
    using snoc by (simp add: all_fit_append)
  moreover have "snd (push \<lparr>m_container = map block_id bs\<rparr> (block_id e)) = \<lparr>m_container = map block_id (bs @ [e])\<rparr>"
    using snoc.prems(3) by (auto simp: push_def)
  ultimately show ?case using snoc.prems by (simp add: foldR_append enumerate_append_eq rebuild_block_eq all_fit_append)
qed simp

text \<open>Rebuilding the tables of a chain changes nothing.\<close>

lemma rebuildCache_id:
  assumes inv: "chain_inv bc"
  shows "rebuildCache bc = Inr bc"
proof -
  have e: "\<forall>e \<in> set (m_blocks bc). length (be_transactions e) < 2 ^ 16"
    using inv by (auto simp: chain_inv_def entry_ok_def in_set_conv_nth)
  have i: "m_blockIndex bc = \<lparr>m_container = map block_id (m_blocks bc)\<rparr>" "distinct (map block_id (m_blocks bc))"
    using inv by (simp_all add: chain_inv_def indices_ok_def)
  have start: "bc\<lparr>m_blockIndex := clear (m_blockIndex bc), m_transactionMap := Map.empty, m_spent_keys := {},
        m_outputs := Map.empty, m_multisignatureOutputs := Map.empty\<rparr> = set_cache empty_cache (bc\<lparr>m_blockIndex := \<lparr>m_container = []\<rparr>\<rparr>)"
    by (simp add: set_cache_def empty_cache_def clear_def i(1))
  have "rebuildCache bc = Inr (set_cache (cache_of bc) (bc\<lparr>m_blockIndex := m_blockIndex bc\<rparr>))"
    unfolding rebuildCache_def start using rebuild_blocks_eq [OF _ e i(2), of bc] inv by (simp add: chain_inv_def i(1))
  then show ?thesis by (simp add: set_cache_id)
qed

section \<open>Consequences\<close>

text \<open>Everything that is spent in the chain is spent once.\<close>

lemma all_fit_images:
  "all_fit xs c \<Longrightarrow> distinct (concat (map (\<lambda>x. images_of (inputs (snd x))) xs))
    \<and> set (concat (map (\<lambda>x. images_of (inputs (snd x))) xs)) \<inter> c_keys c = {}"
proof (induction xs arbitrary: c)
  case (Cons x xs)
  have k: "c_keys (apply_tx x c) = c_keys c \<union> set (images_of (inputs (snd x)))" by (cases x) (simp add: apply_tx_def Let_def split_beta)
  have "fits c (snd x)" "all_fit xs (apply_tx x c)" using Cons.prems by simp_all
  with Cons.IH [OF this(2)] show ?case unfolding k by (auto simp: fits_def)
qed simp

lemma all_fit_refs:
  "all_fit xs c \<Longrightarrow> distinct (concat (map (\<lambda>x. refs_of (inputs (snd x))) xs))
    \<and> (\<forall>r \<in> set (concat (map (\<lambda>x. refs_of (inputs (snd x))) xs)). \<not> ref_used (c_ms c) r)"
proof (induction xs arbitrary: c)
  case (Cons x xs)
  obtain ti tx where x: "x = (ti, tx)" by (cases x)
  have f: "fits c tx" "all_fit xs (apply_tx x c)" using Cons.prems x by simp_all
  note IH = Cons.IH [OF f(2)]
  have used: "\<forall>r \<in> set (refs_of (inputs tx)). ref_used (c_ms (apply_tx x c)) r"
    using apply_tx_spends [OF f(1), of ti] x by (simp add: spent_in_def)
  have keep: "ref_used (c_ms c) r \<Longrightarrow> ref_used (c_ms (apply_tx x c)) r" for r
    unfolding x by (simp add: apply_tx_def Let_def split_beta push_outputs_used set_usage_used)
  have "\<forall>r \<in> set (refs_of (inputs tx)). \<not> ref_used (c_ms c) r" using f(1) by (auto simp: fits_def dest: ref_used_not_unused)
  moreover have "\<not> ref_used (c_ms c) r" if "r \<in> set (concat (map (\<lambda>x. refs_of (inputs (snd x))) xs))" for r
    using IH that keep by blast
  moreover have "set (refs_of (inputs tx)) \<inter> set (concat (map (\<lambda>x. refs_of (inputs (snd x))) xs)) = {}"
    using IH used by blast
  moreover have "distinct (refs_of (inputs tx))" using f(1) by (simp add: fits_def)
  ultimately show ?case using IH unfolding x list.map concat.simps set_append snd_conv distinct_append by blast
qed simp

end
