(* ===== verification/ForkChoice.thy ===== *)
theory ForkChoice
  imports AlternativeChains ChainInvariant
begin

text \<open>
  The main chain and the alternative blocks over time. The blocks and transactions that a node ever sees
  are a world, in which hashes are names. The invariant of a state is that the tables belong to the chain
  (theory ChainInvariant) and that the main chain and the chain behind every alternative block carry the
  work that the difficulty function gives. Every operation keeps it, and a switch to an alternative chain
  is one to a chain with more work.
\<close>

section \<open>The difficulty of an alternative block\<close>

definition next_work :: "currency \<Rightarrow> BlockEntry list \<Rightarrow> u64 result" where
  "next_work c es =
    (let n = length es; offset = n - min n (difficultyBlocksCount c); es = drop (if offset = 0 then 1 else offset) es in
     of_opt Undefined (nextDifficulty c (map (\<lambda>e. timestamp (be_bl e)) es) (map cumulative_difficulty es)))"

lemma main_difficulty: "getDifficultyForNextBlock E bc = next_work (ce_currency E) (m_blocks bc)"
  by (simp add: getDifficultyForNextBlock_def next_work_def Let_def)

text \<open>It is the difficulty that the block would have on a main chain that ends with its predecessors.\<close>

lemma alternative_difficulty_eq:
  assumes "0 < s" and "s \<le> length (m_blocks bc)" and "s < 2 ^ 32" and "0 < difficultyBlocksCount (ce_currency E)"
    and h: "(if es \<noteq> [] then be_height (hd es) else height) = of_nat s"
  shows "get_next_difficulty_for_alternative_chain E bc es height = next_work (ce_currency E) (take s (m_blocks bc) @ es)"
proof -
  define c where "c = difficultyBlocksCount (ce_currency E)"
  let ?L = "take s (m_blocks bc) @ es" and ?k = "length es"
  have u: "unat (of_nat s :: u32) = s" using assms(3) by (simp add: unat_of_nat)
  have len: "length ?L = s + ?k" using assms(2) by simp
  let ?off = "let o1 = (s + ?k) - min (s + ?k) c in if o1 = 0 then 1 else o1"
  have main: "next_work (ce_currency E) ?L
    = of_opt Undefined (nextDifficulty (ce_currency E) (map (\<lambda>e. timestamp (be_bl e)) (drop ?off ?L)) (map cumulative_difficulty (drop ?off ?L)))"
    unfolding next_work_def Let_def c_def [symmetric] len by simp
  show ?thesis
  proof (cases "?k < c")
    case True
    let ?st = "let o1 = s - min (c - min c ?k) s in if o1 = 0 then 1 else o1"
    have st: "?st = ?off" "?st \<le> s" using True assms(1) by (auto simp: Let_def min_def)
    have d: "drop ?off ?L = drop ?st (take s (m_blocks bc)) @ es" using st assms(2) by simp
    have small: "?k + length (drop ?st (take s (m_blocks bc))) \<le> c" using True assms(1,2) by (auto simp: Let_def min_def)
    show ?thesis unfolding main d unfolding get_next_difficulty_for_alternative_chain_def c_def [symmetric]
      using True assms(2) h u small by (simp add: Let_def)
  next
    case False
    have d: "drop ?off ?L = drop (?k - c) es" using False assms(1,2,4) by (auto simp: Let_def c_def min_def)
    show ?thesis unfolding main d unfolding get_next_difficulty_for_alternative_chain_def c_def [symmetric]
      using False assms(4) by (simp add: Let_def c_def)
  qed
qed

lemma next_work_cong:
  assumes "map be_bl es = map be_bl fs" and "map cumulative_difficulty es = map cumulative_difficulty fs"
  shows "next_work c es = next_work c fs"
proof -
  have t: "map (\<lambda>e. timestamp (be_bl e)) xs = map timestamp (map be_bl xs)" for xs :: "BlockEntry list" by simp
  show ?thesis unfolding next_work_def Let_def t drop_map [symmetric] assms using arg_cong [OF assms(1), of length] by simp
qed

section \<open>Worlds\<close>

record world =
  w_currency :: currency
  w_checkpoints :: Checkpoints
  w_blocks :: "Block set"
  w_txs :: "Transaction set"

text \<open>
  Hashes are names, blocks have few enough transactions and none is too large; there are fewer blocks than
  heights.
\<close>

definition block_ok :: "world \<Rightarrow> Block \<Rightarrow> bool" where
  "block_ok W b \<longleftrightarrow> baseTransaction b \<in> w_txs W \<and> length (transactionHashes b) + 1 < 2 ^ 16
    \<and> (\<forall>txs m. set txs \<subseteq> w_txs W \<longrightarrow> map tx_hash txs = transactionHashes b \<longrightarrow>
        maxBlockCumulativeSize (w_currency W) (ucast (get_block_height b)) = Some m \<longrightarrow> block_size b txs \<le> m)"

definition world_ok :: "world \<Rightarrow> bool" where
  "world_ok W \<longleftrightarrow> inj_on tx_hash (w_txs W) \<and> inj_on (\<lambda>b. snd (get_block_hash b)) (w_blocks W)
    \<and> finite (w_blocks W) \<and> card (w_blocks W) + 1 < 2 ^ 32 \<and> (\<forall>b \<in> w_blocks W. block_ok W b)
    \<and> 0 < difficultyBlocksCount (w_currency W)"

text \<open>A chain of blocks from the first one, with the work that the difficulty function gives.\<close>

inductive path :: "world \<Rightarrow> BlockEntry list \<Rightarrow> bool" for W where
  path_nil: "path W []"
| path_snoc: "path W es \<Longrightarrow> be_bl e \<in> w_blocks W \<Longrightarrow> length es + 1 < 2 ^ 32 \<Longrightarrow> be_height e = of_nat (length es) \<Longrightarrow>
    inputs (baseTransaction (be_bl e)) = [coinbase_input (length es)] \<Longrightarrow>
    (es \<noteq> [] \<Longrightarrow> previousBlockHash (be_bl e) = block_id (last es)) \<Longrightarrow>
    next_work (w_currency W) es = Inr d \<Longrightarrow>
    cumulative_difficulty e = (if es = [] then d else d + cumulative_difficulty (last es)) \<Longrightarrow> path W (es @ [e])"

inductive_cases path_snocE: "path W (es @ [e])"

lemma path_snocD:
  assumes "path W (es @ [e])"
  shows "path W es \<and> be_bl e \<in> w_blocks W \<and> length es + 1 < 2 ^ 32 \<and> be_height e = of_nat (length es)
    \<and> inputs (baseTransaction (be_bl e)) = [coinbase_input (length es)]
    \<and> (es \<noteq> [] \<longrightarrow> previousBlockHash (be_bl e) = block_id (last es))
    \<and> (\<exists>d. next_work (w_currency W) es = Inr d \<and> cumulative_difficulty e = (if es = [] then d else d + cumulative_difficulty (last es)))"
  using assms by (rule path_snocE) auto

lemma path_butlast: "path W (es @ [e]) \<Longrightarrow> path W es"
  by (drule path_snocD) simp

lemma path_take: "path W es \<Longrightarrow> path W (take n es)"
proof (induction es rule: rev_induct)
  case (snoc e es)
  then show ?case using path_butlast [OF snoc.prems] by (cases "n \<le> length es") auto
qed simp

lemma path_blocks: "path W es \<Longrightarrow> be_bl ` set es \<subseteq> w_blocks W"
  by (induction rule: path.induct) auto

lemma path_height: "path W es \<Longrightarrow> length es < 2 ^ 32"
  by (erule path.cases) auto

text \<open>The last block of a chain determines the chain and its work.\<close>

lemma path_unique:
  assumes W: "world_ok W"
  shows "path W (es @ [e]) \<Longrightarrow> path W (fs @ [f]) \<Longrightarrow> be_bl e = be_bl f \<Longrightarrow>
    map be_bl es = map be_bl fs \<and> map cumulative_difficulty es = map cumulative_difficulty fs
    \<and> cumulative_difficulty e = cumulative_difficulty f \<and> be_height e = be_height f"
proof (induction es arbitrary: e fs f rule: rev_induct)
  case Nil
  note e = path_snocD [OF Nil.prems(1)] and f = path_snocD [OF Nil.prems(2)]
  then have "fs = []" using Nil.prems(3) of_nat_u32_inj [of 0 "length fs"] by auto
  with e f show ?case by auto
next
  case (snoc x es)
  let ?es = "es @ [x]"
  from path_snocD [OF snoc.prems(1)] obtain d where e: "path W ?es" "length ?es + 1 < 2 ^ 32" "inputs (baseTransaction (be_bl e)) = [coinbase_input (length ?es)]"
    "previousBlockHash (be_bl e) = block_id x" "next_work (w_currency W) ?es = Inr d" "cumulative_difficulty e = d + cumulative_difficulty x"
    "be_height e = of_nat (length ?es)"
    by auto
  from path_snocD [OF snoc.prems(2)] have f: "path W fs" "length fs + 1 < 2 ^ 32" "inputs (baseTransaction (be_bl f)) = [coinbase_input (length fs)]"
    by auto
  have len: "length fs = length ?es" using e(2,3) f(2,3) snoc.prems(3) of_nat_u32_inj [of "length fs" "length ?es"] by auto
  then obtain ys y where y: "fs = ys @ [y]" by (metis length_append_singleton length_0_conv nat.distinct(1) rev_exhaust)
  from path_snocD [OF snoc.prems(2)] y obtain d' where f': "previousBlockHash (be_bl f) = block_id y" "next_work (w_currency W) fs = Inr d'"
    "cumulative_difficulty f = d' + cumulative_difficulty y" "be_height f = of_nat (length fs)"
    by auto
  have "block_id x = block_id y" using e(4) f'(1) snoc.prems(3) by simp
  moreover have "be_bl x \<in> w_blocks W" "be_bl y \<in> w_blocks W" using path_blocks [OF e(1)] path_blocks [OF f(1)] y by auto
  ultimately have xy: "be_bl x = be_bl y" using W by (auto simp: world_ok_def dest: inj_onD)
  note IH = snoc.IH [OF e(1) f(1) [unfolded y] xy]
  then have m: "map be_bl ?es = map be_bl fs" "map cumulative_difficulty ?es = map cumulative_difficulty fs" using y xy by simp_all
  have "d = d'" using next_work_cong [OF m] e(5) f'(2) by simp
  with m e(6,7) f'(3,4) IH len show ?case by simp
qed

lemma path_extend:
  assumes W: "world_ok W" and L: "path W L" "L \<noteq> []" and e: "path W (es @ [e])" "es \<noteq> []" and link: "previousBlockHash (be_bl e) = block_id (last L)"
  shows "path W (L @ [e])"
proof -
  obtain ys y where y: "es = ys @ [y]" using e(2) by (metis rev_exhaust)
  obtain ls l where l: "L = ls @ [l]" using L(2) by (metis rev_exhaust)
  from path_snocD [OF e(1)] y obtain d where p: "path W es" "be_bl e \<in> w_blocks W" "length es + 1 < 2 ^ 32" "be_height e = of_nat (length es)"
    "inputs (baseTransaction (be_bl e)) = [coinbase_input (length es)]" "previousBlockHash (be_bl e) = block_id y"
    "next_work (w_currency W) es = Inr d" "cumulative_difficulty e = d + cumulative_difficulty y"
    by auto
  have "be_bl y \<in> w_blocks W" "be_bl l \<in> w_blocks W" using path_blocks [OF p(1)] path_blocks [OF L(1)] y l by auto
  moreover have "block_id y = block_id l" using p(6) link l by simp
  ultimately have yl: "be_bl y = be_bl l" using W by (auto simp: world_ok_def dest: inj_onD)
  from path_unique [OF W p(1) [unfolded y] L(1) [unfolded l] yl]
  have m: "map be_bl es = map be_bl L" "map cumulative_difficulty es = map cumulative_difficulty L" "cumulative_difficulty y = cumulative_difficulty l"
    using y l yl by simp_all
  have len: "length es = length L" using arg_cong [OF m(1), of length] by simp
  show ?thesis
    by (rule path_snoc [OF L(1), where d = d]) (use p len next_work_cong [OF m(1,2)] link m(3) l L(2) in auto)
qed

lemma path_coinbase: "path W es \<Longrightarrow> k < length es \<Longrightarrow> inputs (baseTransaction (be_bl (es ! k))) = [coinbase_input k]"
proof (induction es rule: rev_induct)
  case (snoc e es)
  then show ?case using path_snocD [OF snoc.prems(1)] by (cases "k < length es") (auto simp: nth_append less_Suc_eq)
qed simp

lemma path_length:
  assumes W: "world_ok W" and es: "path W es"
  shows "length es + 1 < 2 ^ 32"
proof -
  have "distinct (map be_bl es)"
  proof (rule distinct_conv_nth [THEN iffD2], intro allI impI)
    fix i j assume ij: "i < length (map be_bl es)" "j < length (map be_bl es)" "i \<noteq> j"
    have "coinbase_input i \<noteq> coinbase_input j" using ij path_height [OF es] of_nat_u32_inj [of i j] by auto
    then show "map be_bl es ! i \<noteq> map be_bl es ! j" using path_coinbase [OF es, of i] path_coinbase [OF es, of j] ij by auto
  qed
  then have "length es = card (be_bl ` set es)" using distinct_card by fastforce
  also have "\<dots> \<le> card (w_blocks W)" using W path_blocks [OF es] by (intro card_mono) (auto simp: world_ok_def)
  finally show ?thesis using W by (simp add: world_ok_def)
qed

section \<open>The invariant\<close>

definition alt_ok :: "world \<Rightarrow> (Hash \<rightharpoonup> BlockEntry) \<Rightarrow> bool" where
  "alt_ok W alts \<longleftrightarrow> (\<forall>h e. alts h = Some e \<longrightarrow> h = block_id e \<and> (\<exists>es. es \<noteq> [] \<and> path W (es @ [e])))"

definition chain_ok :: "world \<Rightarrow> Blockchain \<Rightarrow> bool" where
  "chain_ok W bc \<longleftrightarrow> chain_inv bc \<and> pool_sem (m_tx_pool bc) \<and> pool_txs bc \<subseteq> w_txs W \<and> snd ` set (chain_txs (m_blocks bc)) \<subseteq> w_txs W
    \<and> path W (m_blocks bc) \<and> alt_ok W (m_alternative_chains bc) \<and> m_checkpoints bc = w_checkpoints W"

definition total_work :: "Blockchain \<Rightarrow> u64" where
  "total_work bc = (if m_blocks bc = [] then 0 else cumulative_difficulty (last (m_blocks bc)))"

lemma chain_ok_parts:
  assumes "chain_ok W bc"
  shows "chain_inv bc" "pool_sem (m_tx_pool bc)" "pool_txs bc \<subseteq> w_txs W" "snd ` set (chain_txs (m_blocks bc)) \<subseteq> w_txs W"
    "path W (m_blocks bc)" "alt_ok W (m_alternative_chains bc)" "m_checkpoints bc = w_checkpoints W"
  using assms by (simp_all add: chain_ok_def)

lemma chain_ok_frame [simp]:
  "chain_ok W (bc\<lparr>m_is_in_checkpoint_zone := z\<rparr>) = chain_ok W bc"
  "chain_ok W (bc\<lparr>m_orthanBlocksIndex := ob\<rparr>) = chain_ok W bc"
  "chain_ok W (bc\<lparr>m_messageQueueList := ml\<rparr>) = chain_ok W bc"
  by (simp_all add: chain_ok_def chain_inv_def indices_ok_def cache_of_def)

lemma chain_ok_alt: "chain_ok W bc \<Longrightarrow> alt_ok W alts \<Longrightarrow> chain_ok W (bc\<lparr>m_alternative_chains := alts\<rparr>)"
  by (simp add: chain_ok_def chain_inv_def indices_ok_def cache_of_def)

lemma alt_ok_remove: "alt_ok W alts \<Longrightarrow> alt_ok W (alts(h := None))"
  by (simp add: alt_ok_def)

lemma header_height: "header_ok E bc b diff \<Longrightarrow> get_block_height b = of_nat (length (m_blocks bc))"
  by (auto simp: header_ok_def get_block_height_def dest: prevalidate_input)

lemma extends_txs: "extends E b txs diff bs e \<Longrightarrow> te_tx ` set (be_transactions e) = insert (baseTransaction b) (set txs)"
  unfolding extends_def by (metis list.set_map list.simps(15))

lemma pushed_path:
  assumes W: "world_ok W" "ce_currency E = w_currency W" and ok: "chain_ok W bc" and b: "b \<in> w_blocks W"
    and h: "header_ok E bc b diff" and x: "extends E b txs diff (m_blocks bc) e" and inv: "chain_inv bc'" and bs: "m_blocks bc' = m_blocks bc @ [e]"
  shows "path W (m_blocks bc')"
proof -
  note p = chain_ok_parts(5) [OF ok]
  have e: "be_bl e = b" using x by (simp add: extends_def)
  have entry: "entry_ok (length (m_blocks bc)) e" using all_fit_last(4) [OF inv bs] .
  have "previousBlockHash b = block_id (last (m_blocks bc))" if "m_blocks bc \<noteq> []"
    using h that chain_ok_parts(1) [OF ok] by (auto simp: header_ok_def bc_getTailId_def getTailId_def chain_inv_def indices_ok_def last_map of_opt_def split: option.splits if_splits)
  moreover have "next_work (w_currency W) (m_blocks bc) = Inr diff" using h W(2) by (simp add: header_ok_def main_difficulty)
  ultimately show ?thesis unfolding bs using p e entry path_length [OF W(1) p] b x
    by (intro path_snoc [where d = diff]) (auto simp: extends_def entry_ok_def)
qed

lemma push_block_ok:
  assumes W: "world_ok W" "ce_currency E = w_currency W" and ok: "chain_ok W bc" and b: "b \<in> w_blocks W"
    and run: "pushBlock E b bvc bc = Inr (r, bvc', bc')"
  shows "chain_ok W bc' \<and> m_alternative_chains bc' = m_alternative_chains bc \<and> (r \<longrightarrow> bvc' = bvc\<lparr>m_added_to_main_chain := True\<rparr>)
    \<and> (if r then \<exists>e txs diff. m_blocks bc' = m_blocks bc @ [e] \<and> header_ok E bc b diff \<and> extends E b txs diff (m_blocks bc) e else m_blocks bc' = m_blocks bc)"
proof -
  note W' = W(1) [unfolded world_ok_def] and c = chain_ok_parts [OF ok]
  have bo: "block_ok W b" using W' b by simp
  have "inj_on tx_hash (insert (baseTransaction b) (snd ` set (chain_txs (m_blocks bc)) \<union> pool_txs bc))"
    by (rule inj_on_subset [of _ "w_txs W"]) (use W' c(3,4) bo in \<open>auto simp: block_ok_def\<close>)
  then have fits: "block_fits bc b" using bo path_length [OF W(1) c(5)] by (auto simp: block_fits_def no_collision_def block_ok_def)
  note res = pushBlock_cases [OF c(1,2) fits run]
  show ?thesis
  proof (cases r)
    case True
    with res obtain e txs diff where p: "m_blocks bc' = m_blocks bc @ [e]" "extends E b txs diff (m_blocks bc) e" "header_ok E bc b diff"
      "chain_inv bc'" "pool_txs bc = pool_txs bc' \<union> set txs" "m_alternative_chains bc' = m_alternative_chains bc" "pool_sem (m_tx_pool bc')"
      "m_checkpoints bc' = m_checkpoints bc" "bvc' = bvc\<lparr>m_added_to_main_chain := True\<rparr>" by auto
    have "te_tx ` set (be_transactions e) \<subseteq> w_txs W" unfolding extends_txs [OF p(2)] using c(3) p(5) bo by (auto simp: block_ok_def)
    then have "snd ` set (chain_txs (m_blocks bc')) \<subseteq> w_txs W" unfolding p(1) using c(4) by (simp add: set_block_txs image_Un)
    moreover have "pool_txs bc' \<subseteq> w_txs W" using c(3) p(5) by simp
    ultimately have "chain_ok W bc'" unfolding chain_ok_def using p c(6,7) pushed_path [OF W ok b p(3,2,4,1)] by simp
    with True p show ?thesis by auto
  next
    case False
    have "\<not> leaks E b txs bc bc'" if t: "map tx_hash txs = transactionHashes b" "set txs \<subseteq> pool_txs bc" "header_ok E bc b diff" for txs diff
    proof -
      have "set txs \<subseteq> w_txs W" using t(2) c(3) by (rule order_trans)
      then have "block_size b txs \<le> m" if "maxBlockCumulativeSize (w_currency W) (ucast (get_block_height b)) = Some m" for m
        using bo t(1) that by (simp add: block_ok_def)
      moreover have "ucast (get_block_height b) = (of_nat (length (m_blocks bc)) :: u64)"
        using header_height [OF t(3)] path_length [OF W(1) c(5)] by (simp add: unsigned_of_nat take_bit_nat_eq_self)
      ultimately show ?thesis using W(2) by (auto simp: leaks_def checkCumulativeBlockSize_def bindR_eq_Inr of_opt_def split: option.splits)
    qed
    with res False have s: "same_chain bc bc'" "pool_txs bc' = pool_txs bc" "pool_sem (m_tx_pool bc')" by auto
    then have "chain_frame bc' = chain_frame bc" by (simp add: same_chain_def)
    note f = frame_fields [OF this]
    have "chain_ok W bc'" unfolding chain_ok_def using c s f same_chain_inv [OF s(1)] by simp
    with False f show ?thesis by simp
  qed
qed

lemma pop_block_ok:
  assumes ok: "chain_ok W bc" and bs: "m_blocks bc = bs @ [e]" and run: "popBlock E (block_id e) bc = Inr bc'"
  shows "chain_ok W bc' \<and> m_blocks bc' = bs \<and> m_alternative_chains bc' = m_alternative_chains bc"
proof -
  note c = chain_ok_parts [OF ok]
  obtain bc1 where "saveTransactions E (map te_tx (tl (be_transactions e))) bc = Inr bc1"
    using popBlock_error [OF c(1) bs] run by (cases "saveTransactions E (map te_tx (tl (be_transactions e))) bc") auto
  from popBlock_ok [OF c(1,2) bs this] run have p: "chain_inv bc'" "m_blocks bc' = bs" "pool_sem (m_tx_pool bc')"
    "pool_txs bc' = te_tx ` set (tl (be_transactions e)) \<union> pool_txs bc" "m_alternative_chains bc' = m_alternative_chains bc"
    "m_checkpoints bc' = m_checkpoints bc" by auto
  have "te_tx ` set (tl (be_transactions e)) \<subseteq> te_tx ` set (be_transactions e)" by (cases "be_transactions e") auto
  also have "\<dots> \<subseteq> w_txs W" using c(4) bs by (simp add: set_block_txs image_Un)
  finally have "pool_txs bc' \<subseteq> w_txs W" using p(4) c(3) by simp
  moreover have "snd ` set (chain_txs bs) \<subseteq> w_txs W" using c(4) bs by (simp add: image_Un)
  moreover have "path W bs" using c(5) path_butlast unfolding bs by blast
  ultimately show ?thesis using p c(6,7) by (simp add: chain_ok_def)
qed

section \<open>Switching\<close>

lemma disconnect_ok:
  "chain_ok W bc \<Longrightarrow> length (m_blocks bc) = k \<Longrightarrow> disconnect E s k acc bc = Inr (old, bc') \<Longrightarrow>
   chain_ok W bc' \<and> m_blocks bc' = take s (m_blocks bc) \<and> old = map be_bl (drop s (m_blocks bc)) @ acc
   \<and> m_alternative_chains bc' = m_alternative_chains bc"
proof (induction k arbitrary: acc bc)
  case 0
  then show ?case by (auto split: if_splits)
next
  case (Suc i)
  show ?case
  proof (cases "s \<le> i")
    case False
    with Suc.prems show ?thesis by (auto simp: not_le)
  next
    case True
    obtain bs e where bs: "m_blocks bc = bs @ [e]" using Suc.prems(2) by (metis Zero_not_Suc list.size(3) rev_exhaust)
    with Suc.prems True obtain bc1 where p: "popBlock E (block_id e) bc = Inr bc1" and d: "disconnect E s i (be_bl e # acc) bc1 = Inr (old, bc')"
      by (auto simp: block_at_def nth_append bindR_eq_Inr Let_def)
    note p1 = pop_block_ok [OF Suc.prems(1) bs p]
    then have "length (m_blocks bc1) = i" using Suc.prems(2) bs by simp
    from Suc.IH [OF _ this d] p1 bs True Suc.prems(2) show ?thesis by auto
  qed
qed

lemma remove_failed_ok:
  "chain_ok W bc \<Longrightarrow> length (m_blocks bc) = k \<Longrightarrow> remove_failed E s k bc = Inr bc' \<Longrightarrow>
   chain_ok W bc' \<and> m_blocks bc' = take s (m_blocks bc) \<and> m_alternative_chains bc' = m_alternative_chains bc"
proof (induction k arbitrary: bc)
  case 0
  then show ?case by (auto split: if_splits)
next
  case (Suc i)
  show ?case
  proof (cases "s \<le> i")
    case False
    with Suc.prems show ?thesis by (auto simp: not_le)
  next
    case True
    obtain bs e where bs: "m_blocks bc = bs @ [e]" using Suc.prems(2) by (metis Zero_not_Suc list.size(3) rev_exhaust)
    with Suc.prems True obtain bc1 where p: "popBlock E (block_id e) bc = Inr bc1" and d: "remove_failed E s i bc1 = Inr bc'"
      by (auto simp: block_at_def nth_append bindR_eq_Inr Let_def)
    note p1 = pop_block_ok [OF Suc.prems(1) bs p]
    then have "length (m_blocks bc1) = i" using Suc.prems(2) bs by simp
    from Suc.IH [OF _ this d] p1 bs True Suc.prems(2) show ?thesis by auto
  qed
qed

lemma push_block_bl:
  assumes "world_ok W" and "ce_currency E = w_currency W" and "chain_ok W bc" and "b \<in> w_blocks W" and "pushBlock E b bvc bc = Inr (r, bvc', bc')"
  shows "chain_ok W bc' \<and> m_alternative_chains bc' = m_alternative_chains bc
    \<and> map be_bl (m_blocks bc') = map be_bl (m_blocks bc) @ (if r then [b] else [])"
  using push_block_ok [OF assms] by (auto simp: extends_def)

lemma push_again_ok:
  assumes W: "world_ok W" "ce_currency E = w_currency W"
  shows "chain_ok W bc \<Longrightarrow> set bls \<subseteq> w_blocks W \<Longrightarrow> push_again E bls bc = Inr (r, bc') \<Longrightarrow>
    chain_ok W bc' \<and> m_alternative_chains bc' = m_alternative_chains bc
    \<and> (r \<longrightarrow> map be_bl (m_blocks bc') = map be_bl (m_blocks bc) @ bls)"
proof (induction bls arbitrary: bc)
  case (Cons b bls)
  from Cons.prems(3) obtain r1 bvc bc1 where p: "pushBlock E b new_bvc bc = Inr (r1, bvc, bc1)"
    and n: "if \<not> (r1 \<and> m_added_to_main_chain bvc) then r = False \<and> bc' = bc1 else push_again E bls bc1 = Inr (r, bc')"
    by (auto simp: bindR_eq_Inr split: if_splits)
  note p1 = push_block_bl [OF W Cons.prems(1) _ p]
  show ?case
  proof (cases "r1 \<and> m_added_to_main_chain bvc")
    case True
    with Cons.IH [of bc1] p1 n Cons.prems(2) show ?thesis by auto
  qed (use p1 n Cons.prems(2) in auto)
qed simp

lemma rollback_ok:
  assumes W: "world_ok W" "ce_currency E = w_currency W" and ok: "chain_ok W bc" and old: "set old \<subseteq> w_blocks W"
    and run: "rollback_blockchain_switching E old s bc = Inr (r, bc')"
  shows "chain_ok W bc' \<and> m_alternative_chains bc' = m_alternative_chains bc
    \<and> (r \<longrightarrow> map be_bl (m_blocks bc') = map be_bl (take s (m_blocks bc)) @ old)"
proof -
  from run obtain bc1 where a: "remove_failed E s (length (m_blocks bc)) bc = Inr bc1" and b: "push_again E old bc1 = Inr (r, bc')"
    by (auto simp: rollback_blockchain_switching_def bindR_eq_Inr)
  note 1 = remove_failed_ok [OF ok refl a]
  with push_again_ok [OF W _ old b] show ?thesis by simp
qed

lemma drop_alternative_ok:
  assumes ok: "chain_ok W bc" and run: "drop_alternative x bc = Inr bc'"
  shows "chain_ok W bc' \<and> m_blocks bc' = m_blocks bc"
proof -
  obtain h e where x: "x = (h, e)" by (cases x)
  from run x obtain ob where "bc' = bc\<lparr>m_orthanBlocksIndex := ob, m_alternative_chains := (m_alternative_chains bc)(h := None)\<rparr>"
    by (auto simp: drop_alternative_def bindR_eq_Inr)
  with ok chain_ok_alt [of W "bc\<lparr>m_orthanBlocksIndex := ob\<rparr>"] alt_ok_remove [OF chain_ok_parts(6) [OF ok]] show ?thesis by simp
qed

lemma drop_alternatives_ok:
  "chain_ok W bc \<Longrightarrow> foldR drop_alternative xs bc = Inr bc' \<Longrightarrow> chain_ok W bc' \<and> m_blocks bc' = m_blocks bc"
proof (induction xs arbitrary: bc)
  case (Cons x xs)
  from Cons.prems(2) obtain bc1 where d: "drop_alternative x bc = Inr bc1" "foldR drop_alternative xs bc1 = Inr bc'" by (auto simp: bindR_eq_Inr)
  from drop_alternative_ok [OF Cons.prems(1) d(1)] Cons.IH [OF _ d(2)] show ?case by simp
qed simp

text \<open>After a failure the old blocks are connected again, unless one of them is refused.\<close>

lemma connect_ok:
  assumes W: "world_ok W" "ce_currency E = w_currency W" and old: "set old \<subseteq> w_blocks W"
  shows "chain_ok W bc \<Longrightarrow> be_bl ` snd ` set cs \<subseteq> w_blocks W \<Longrightarrow> connect E old s cs bc = Inr (r, bc') \<Longrightarrow>
    chain_ok W bc' \<and> (r \<longrightarrow> map be_bl (m_blocks bc') = map be_bl (m_blocks bc) @ map (\<lambda>c. be_bl (snd c)) cs)"
proof (induction cs arbitrary: bc)
  case (Cons c cs)
  from Cons.prems(3) obtain r1 bvc bc1 where p: "pushBlock E (be_bl (snd c)) new_bvc bc = Inr (r1, bvc, bc1)"
    and n: "if \<not> r1 \<or> \<not> m_added_to_main_chain bvc
      then \<not> r \<and> (\<exists>r2 bc2. rollback_blockchain_switching E old s bc1 = Inr (r2, bc2) \<and> foldR drop_alternative (c # cs) bc2 = Inr bc')
      else connect E old s cs bc1 = Inr (r, bc')"
    by (auto simp: bindR_eq_Inr split: if_splits)
  have b: "be_bl (snd c) \<in> w_blocks W" using Cons.prems(2) by simp
  note p1 = push_block_bl [OF W Cons.prems(1) b p]
  show ?case
  proof (cases "r1 \<and> m_added_to_main_chain bvc")
    case True
    with Cons.IH [of bc1] p1 n Cons.prems(2) show ?thesis by auto
  next
    case False
    with n obtain r2 bc2 where d: "\<not> r" "rollback_blockchain_switching E old s bc1 = Inr (r2, bc2)" "foldR drop_alternative (c # cs) bc2 = Inr bc'"
      by (auto split: if_splits)
    from rollback_ok [OF W _ old d(2)] p1 have "chain_ok W bc2" by simp
    from drop_alternatives_ok [OF this d(3)] d(1) show ?thesis by simp
  qed
qed simp

lemma sendMessage_ok [simp]: "chain_ok W (sendMessage m bc) = chain_ok W bc" "m_blocks (sendMessage m bc) = m_blocks bc"
  by (simp_all add: sendMessage_def)

text \<open>What is needed of the function for the old blocks: it keeps the invariant, and the work does not get less.\<close>

definition handles :: "world \<Rightarrow> (Block \<Rightarrow> Hash \<Rightarrow> block_verification_context \<Rightarrow> bool \<Rightarrow> Blockchain
    \<Rightarrow> (bool \<times> block_verification_context \<times> Blockchain) result) \<Rightarrow> bool" where
  "handles W handle \<longleftrightarrow> (\<forall>b bvc send bc r bvc' bc'. b \<in> w_blocks W \<longrightarrow> chain_ok W bc \<longrightarrow>
    handle b (snd (get_block_hash b)) bvc send bc = Inr (r, bvc', bc') \<longrightarrow>
    chain_ok W bc' \<and> (r \<and> m_points (w_checkpoints W) = [] \<longrightarrow> m_blocks bc' = m_blocks bc \<or> total_work bc < total_work bc'))"

lemma push_old_ok:
  assumes handle: "handles W handle"
  shows "chain_ok W bc \<Longrightarrow> set old \<subseteq> w_blocks W \<Longrightarrow> push_old handle old bc = Inr (r, bc') \<Longrightarrow>
    chain_ok W bc' \<and> (r \<and> m_points (w_checkpoints W) = [] \<longrightarrow> total_work bc \<le> total_work bc')"
proof (induction old arbitrary: bc)
  case (Cons b old)
  from Cons.prems(3) obtain r1 bvc bc1 where h: "handle b (snd (get_block_hash b)) new_bvc False bc = Inr (r1, bvc, bc1)"
    and n: "if \<not> r1 then \<not> r \<and> bc' = bc1 else push_old handle old bc1 = Inr (r, bc')"
    by (auto simp: bindR_eq_Inr split: if_splits)
  have h1: "chain_ok W bc1 \<and> (r1 \<and> m_points (w_checkpoints W) = [] \<longrightarrow> m_blocks bc1 = m_blocks bc \<or> total_work bc < total_work bc1)"
    using handle h Cons.prems(1,2) unfolding handles_def by (meson list.set_intros(1) subsetD)
  have "m_blocks bc1 = m_blocks bc \<Longrightarrow> total_work bc1 = total_work bc" by (simp add: total_work_def)
  with h1 Cons.IH [of bc1] n Cons.prems(2) show ?case by (cases r1) auto
qed simp

text \<open>A chain that is connected has the work that the entries of the alternative blocks say.\<close>

lemma connected_work:
  assumes W: "world_ok W" and p: "path W (L @ map snd cs)" "cs \<noteq> []" and q: "path W (m_blocks bc)"
    and bl: "map be_bl (m_blocks bc) = map be_bl L @ map (\<lambda>c. be_bl (snd c)) cs"
  shows "total_work bc = cumulative_difficulty (snd (last cs))"
proof -
  obtain ds c where c: "cs = ds @ [c]" using p(2) by (metis rev_exhaust)
  obtain fs f where f: "m_blocks bc = fs @ [f]" using bl p(2) by (cases "m_blocks bc" rule: rev_exhaust) auto
  have "be_bl f = be_bl (snd c)" using bl c f by simp
  moreover have "path W ((L @ map snd ds) @ [snd c])" using p(1) c by simp
  moreover have "path W (fs @ [f])" using q f by simp
  ultimately have "cumulative_difficulty f = cumulative_difficulty (snd c)" using path_unique [OF W] by blast
  then show ?thesis using f c by (simp add: total_work_def)
qed

text \<open>The state when the alternative chain is connected, before the old blocks are handled.\<close>

lemma connected_ok:
  assumes W: "world_ok W" "ce_currency E = w_currency W" and ok: "chain_ok W bc" and ne: "cs \<noteq> []"
    and p: "path W (take s (m_blocks bc) @ map snd cs)"
    and d: "disconnect E s (length (m_blocks bc)) [] bc = Inr (old, bc1)" and c: "connect E old s cs bc1 = Inr (ok2, bc2)"
  shows "chain_ok W bc2 \<and> set old \<subseteq> be_bl ` set (m_blocks bc) \<and> set old \<subseteq> w_blocks W
    \<and> (ok2 \<longrightarrow> total_work bc2 = cumulative_difficulty (snd (last cs)))"
proof -
  have cs: "be_bl ` snd ` set cs \<subseteq> w_blocks W" using path_blocks [OF p] by (simp add: image_Un)
  note d1 = disconnect_ok [OF ok refl d]
  have "be_bl ` set (drop s (m_blocks bc)) \<subseteq> be_bl ` set (m_blocks bc)" using set_drop_subset by (rule image_mono)
  then have old: "set old \<subseteq> be_bl ` set (m_blocks bc)" "set old \<subseteq> w_blocks W"
    using d1 path_blocks [OF chain_ok_parts(5) [OF ok]] by auto
  have c1: "chain_ok W bc2" "ok2 \<longrightarrow> map be_bl (m_blocks bc2) = map be_bl (take s (m_blocks bc)) @ map (\<lambda>c. be_bl (snd c)) cs"
    using connect_ok [OF W old(2) _ cs c] d1 by auto
  with connected_work [OF W(1) p ne chain_ok_parts(5) [OF c1(1)]] old show ?thesis by blast
qed

lemma switch_ok:
  assumes handle: "handles W handle" and W: "world_ok W" "ce_currency E = w_currency W" and ok: "chain_ok W bc" and ne: "cs \<noteq> []"
    and p: "path W (take (unat (be_height (snd (hd cs)))) (m_blocks bc) @ map snd cs)"
    and run: "switch_to_alternative_blockchain handle E cs discard bc = Inr (r, bc')"
  shows "chain_ok W bc' \<and> (r \<and> (discard \<or> m_points (w_checkpoints W) = []) \<longrightarrow> cumulative_difficulty (snd (last cs)) \<le> total_work bc')"
proof (cases "\<not> length (m_blocks bc) > unat (be_height (snd (hd cs)))")
  case True
  then have "switch_to_alternative_blockchain handle E cs discard bc = Inr (False, bc)"
    by (simp add: switch_to_alternative_blockchain_def Let_def)
  with run ok show ?thesis by auto
next
  case False
  let ?s = "unat (be_height (snd (hd cs)))"
  from False ne run obtain old bc1 where d: "disconnect E ?s (length (m_blocks bc)) [] bc = Inr (old, bc1)"
    and run1: "bindR (connect E old ?s cs bc1) (\<lambda>(ok, bc).
         if \<not> ok then Inr (False, bc)
         else bindR (if discard then Inr (True, bc) else push_old handle old bc) (\<lambda>(ok, bc).
         if \<not> ok
         then bindR (rollback_blockchain_switching E old ?s bc) (\<lambda>(_, bc). Inr (False, bc))
         else bindR (foldR drop_alternative cs bc) (\<lambda>bc.
             Inr (True, sendMessage (ChainSwitchMessage (previousBlockHash (be_bl (snd (hd cs)))
                 # map (\<lambda>(_, e). snd (get_block_hash (be_bl e))) cs)) bc)))) = Inr (r, bc')"
    unfolding switch_to_alternative_blockchain_def Let_def by (auto simp: bindR_eq_Inr)
  then obtain ok2 bc2 where c: "connect E old ?s cs bc1 = Inr (ok2, bc2)"
    and run2: "if \<not> ok2 then \<not> r \<and> bc' = bc2
         else bindR (if discard then Inr (True, bc2) else push_old handle old bc2) (\<lambda>(ok, bc).
         if \<not> ok
         then bindR (rollback_blockchain_switching E old ?s bc) (\<lambda>(_, bc). Inr (False, bc))
         else bindR (foldR drop_alternative cs bc) (\<lambda>bc.
             Inr (True, sendMessage (ChainSwitchMessage (previousBlockHash (be_bl (snd (hd cs)))
                 # map (\<lambda>(_, e). snd (get_block_hash (be_bl e))) cs)) bc))) = Inr (r, bc')"
    by (cases "connect E old ?s cs bc1") (auto split: prod.splits if_splits)
  note conn = connected_ok [OF W ok ne p d c]
  show ?thesis
  proof (cases ok2)
    case False
    with run2 conn show ?thesis by auto
  next
    case True
    then have w: "total_work bc2 = cumulative_difficulty (snd (last cs))" and c1: "chain_ok W bc2" and old: "set old \<subseteq> w_blocks W" using conn by auto
    from True run2 obtain ok3 bc3 where p3: "(if discard then Inr (True, bc2) else push_old handle old bc2) = Inr (ok3, bc3)"
      and run3: "(if \<not> ok3
         then bindR (rollback_blockchain_switching E old ?s bc3) (\<lambda>(_, bc). Inr (False, bc))
         else bindR (foldR drop_alternative cs bc3) (\<lambda>bc.
             Inr (True, sendMessage (ChainSwitchMessage (previousBlockHash (be_bl (snd (hd cs)))
                 # map (\<lambda>(_, e). snd (get_block_hash (be_bl e))) cs)) bc))) = Inr (r, bc')"
      by (cases "if discard then Inr (True, bc2) else push_old handle old bc2") (auto split: prod.splits if_splits)
    have ok3: "chain_ok W bc3" "ok3 \<and> (discard \<or> m_points (w_checkpoints W) = []) \<longrightarrow> total_work bc2 \<le> total_work bc3"
      using p3 c1 push_old_ok [OF handle c1 old, of ok3 bc3] by (auto split: if_splits)
    show ?thesis
    proof (cases ok3)
      case False
      with run3 obtain r4 where "rollback_blockchain_switching E old ?s bc3 = Inr (r4, bc')" "\<not> r" by (auto simp: bindR_eq_Inr)
      with rollback_ok [OF W ok3(1) old] show ?thesis by auto
    next
      case True
      with run3 obtain m bc4 where m: "foldR drop_alternative cs bc3 = Inr bc4" "bc' = sendMessage m bc4" by (auto simp: bindR_eq_Inr)
      from drop_alternatives_ok [OF ok3(1) m(1)] m(2) True ok3 w show ?thesis by (auto simp: total_work_def)
    qed
  qed
qed

section \<open>Alternative blocks\<close>

text \<open>The blocks that the walk finds: each is the predecessor of the next one.\<close>

fun linked :: "Hash \<Rightarrow> (Hash \<times> BlockEntry) list \<Rightarrow> bool" where
  "linked p [] = True"
| "linked p ((h, e) # cs) \<longleftrightarrow> previousBlockHash (be_bl e) = p \<and> linked h cs"

lemma alt_walk_sound:
  assumes "alt_walk alts h acc = Some cs"
  shows "linked h acc \<longrightarrow> (\<exists>ds p. cs = ds @ acc \<and> (\<forall>(h, e) \<in> set ds. alts h = Some e) \<and> linked p cs
    \<and> (if ds = [] then alts h = None else fst (last ds) = h))"
proof (rule alt_walk.raw_induct [where P = "\<lambda>alts h acc cs. linked h acc \<longrightarrow> (\<exists>ds p. cs = ds @ acc \<and> (\<forall>(h, e) \<in> set ds. alts h = Some e)
    \<and> linked p cs \<and> (if ds = [] then alts h = None else fst (last ds) = h))", OF _ assms])
  fix f :: "(Hash \<rightharpoonup> BlockEntry) \<Rightarrow> Hash \<Rightarrow> (Hash \<times> BlockEntry) list \<Rightarrow> (Hash \<times> BlockEntry) list option" and alts h acc cs
  assume IH: "\<And>alts h acc cs. f alts h acc = Some cs \<Longrightarrow> linked h acc \<longrightarrow> (\<exists>ds p. cs = ds @ acc \<and> (\<forall>(h, e) \<in> set ds. alts h = Some e)
      \<and> linked p cs \<and> (if ds = [] then alts h = None else fst (last ds) = h))"
    and f: "(case alts h of None \<Rightarrow> Some acc | Some e \<Rightarrow> f alts (previousBlockHash (be_bl e)) ((h, e) # acc)) = Some cs"
  show "linked h acc \<longrightarrow> (\<exists>ds p. cs = ds @ acc \<and> (\<forall>(h, e) \<in> set ds. alts h = Some e) \<and> linked p cs
    \<and> (if ds = [] then alts h = None else fst (last ds) = h))"
  proof (cases "alts h")
    case None
    then have "acc = cs" using f by simp
    then show ?thesis using None by auto
  next
    case (Some e)
    with f have "f alts (previousBlockHash (be_bl e)) ((h, e) # acc) = Some cs" by simp
    note I = IH [OF this]
    show ?thesis
    proof
      assume "linked h acc"
      with I obtain ds p where "cs = ds @ (h, e) # acc" "\<forall>(h, e) \<in> set ds. alts h = Some e" "linked p cs" by auto
      with Some show "\<exists>ds p. cs = ds @ acc \<and> (\<forall>(h, e) \<in> set ds. alts h = Some e) \<and> linked p cs
        \<and> (if ds = [] then alts h = None else fst (last ds) = h)" by (intro exI [of _ "ds @ [(h, e)]"] exI [of _ p]) auto
    qed
  qed
qed

text \<open>In a consistent state the walk ends.\<close>

lemma alt_walk_path:
  assumes W: "world_ok W" and alts: "alt_ok W alts"
  shows "path W (es @ [x]) \<Longrightarrow> alts h = Some e \<Longrightarrow> be_bl e = be_bl x \<Longrightarrow> \<exists>cs. alt_walk alts h acc = Some cs"
proof (induction es arbitrary: x h e acc rule: rev_induct)
  case Nil
  with alts obtain es where "es \<noteq> []" "path W (es @ [e])" unfolding alt_ok_def by blast
  with path_unique [OF W this(2) Nil.prems(1,3)] show ?case by simp
next
  case (snoc y es)
  show ?case
  proof (cases "alts (previousBlockHash (be_bl e))")
    case None
    then show ?thesis using snoc.prems(2) by (simp add: alt_walk.simps [of alts h] alt_walk.simps [of alts "previousBlockHash (be_bl e)"])
  next
    case (Some f)
    with alts obtain fs where f: "previousBlockHash (be_bl e) = block_id f" "path W (fs @ [f])" unfolding alt_ok_def by blast
    have y: "path W (es @ [y])" "previousBlockHash (be_bl x) = block_id y" using path_snocD [OF snoc.prems(1)] by simp_all
    have "be_bl f = be_bl y" using W f y path_blocks [OF y(1)] path_blocks [OF f(2)] snoc.prems(3)
      by (auto simp: world_ok_def dest: inj_onD)
    from snoc.IH [OF y(1) Some this] snoc.prems(2) show ?thesis by (simp add: alt_walk.simps [of alts h])
  qed
qed

lemma alt_walk_returns:
  assumes "world_ok W" and "chain_ok W bc"
  shows "\<exists>cs. alt_walk (m_alternative_chains bc) h acc = Some cs"
proof (cases "m_alternative_chains bc h")
  case (Some e)
  note alts = chain_ok_parts(6) [OF assms(2)]
  with Some obtain es where "path W (es @ [e])" unfolding alt_ok_def by blast
  from alt_walk_path [OF assms(1) alts this Some refl] show ?thesis .
qed (simp add: alt_walk.simps)

lemma path_linked:
  assumes W: "world_ok W" and alts: "alt_ok W alts"
  shows "path W L \<Longrightarrow> L \<noteq> [] \<Longrightarrow> (\<forall>(h, e) \<in> set cs. alts h = Some e) \<Longrightarrow> linked (block_id (last L)) cs \<Longrightarrow> path W (L @ map snd cs)"
proof (induction cs arbitrary: L)
  case (Cons c cs)
  obtain h e where c: "c = (h, e)" by (cases c)
  have "alts h = Some e" using Cons.prems(3) c by simp
  with alts obtain es where e: "h = block_id e" "es \<noteq> []" "path W (es @ [e])" unfolding alt_ok_def by blast
  have "path W (L @ [e])" by (rule path_extend [OF W Cons.prems(1,2) e(3,2)]) (use Cons.prems(4) c in simp)
  moreover have "linked (block_id (last (L @ [e]))) cs" using Cons.prems(4) c e(1) by simp
  ultimately have "path W ((L @ [e]) @ map snd cs)" using Cons.prems(3) by (intro Cons.IH) auto
  with c show ?case by simp
qed simp

text \<open>What is known when the checks of an alternative block are passed.\<close>

definition checked_entry :: "chain_env \<Rightarrow> Block \<Rightarrow> Hash \<Rightarrow> Blockchain \<Rightarrow> (Hash \<times> BlockEntry) list \<Rightarrow> BlockEntry \<Rightarrow> bool \<Rightarrow> bool" where
  "checked_entry E b i bc cs bei cp \<longleftrightarrow>
    (let it_prev = m_alternative_chains bc (previousBlockHash b); mainPrev = getBlockHeight (m_blockIndex bc) (previousBlockHash b) in
     alt_walk (m_alternative_chains bc) (previousBlockHash b) [] = Some cs \<and> (\<exists>ts. alternative_times E cs mainPrev bc = Inr (Some ts))
     \<and> be_bl bei = b \<and> be_height bei = (case it_prev of Some e \<Rightarrow> be_height e + 1 | None \<Rightarrow> the mainPrev + 1)
     \<and> prevalidate_miner_transaction E b (be_height bei)
     \<and> (cp \<longrightarrow> m_points (m_checkpoints bc) \<noteq> [])
     \<and> (\<exists>d prev. get_next_difficulty_for_alternative_chain E bc (map snd cs) (be_height bei) = Inr d
        \<and> (case it_prev of Some e \<Rightarrow> prev = cumulative_difficulty e
            | None \<Rightarrow> unat (the mainPrev) < length (m_blocks bc) \<and> prev = cumulative_difficulty (m_blocks bc ! unat (the mainPrev)))
        \<and> cumulative_difficulty bei = prev + d))"

lemma last_take_nth: "0 < n \<Longrightarrow> n \<le> length xs \<Longrightarrow> last (take n xs) = xs ! (n - 1)"
  by (cases n) (simp_all add: take_Suc_conv_app_nth)

lemma takeWhile_until:
  "x \<in> set xs \<Longrightarrow> length (takeWhile (\<lambda>y. y \<noteq> x) xs) < length xs \<and> xs ! length (takeWhile (\<lambda>y. y \<noteq> x) xs) = x"
  by (induction xs) auto

lemma alternative_difficulty_frame:
  "get_next_difficulty_for_alternative_chain E (bc\<lparr>m_is_in_checkpoint_zone := z\<rparr>) es h = get_next_difficulty_for_alternative_chain E bc es h"
proof -
  have m: "m_blocks (bc\<lparr>m_is_in_checkpoint_zone := z\<rparr>) = m_blocks bc" by simp
  show ?thesis unfolding get_next_difficulty_for_alternative_chain_def m ..
qed

lemma alternative_checked_cases:
  assumes "alternative_checked E b i bvc cs it_prev mainPrev bc = Inr res"
  shows "case res of
      Inl (r, bvc', bc') \<Rightarrow> \<not> r \<and> (bc' = bc \<or> bc' = bc\<lparr>m_is_in_checkpoint_zone := False\<rparr>) \<and> (bvc' = bvc \<or> bvc' = bvc_failed bvc)
    | Inr (bei, cp, bc') \<Rightarrow> bc' = bc\<lparr>m_is_in_checkpoint_zone := False\<rparr> \<and> be_bl bei = b
        \<and> be_height bei = (case it_prev of Some e \<Rightarrow> be_height e + 1 | None \<Rightarrow> the mainPrev + 1)
        \<and> prevalidate_miner_transaction E b (be_height bei) \<and> (cp \<longrightarrow> m_points (m_checkpoints bc) \<noteq> [])
        \<and> (\<exists>d prev. get_next_difficulty_for_alternative_chain E bc (map snd cs) (be_height bei) = Inr d
          \<and> (case it_prev of Some e \<Rightarrow> prev = cumulative_difficulty e
              | None \<Rightarrow> unat (the mainPrev) < length (m_blocks bc) \<and> prev = cumulative_difficulty (m_blocks bc ! unat (the mainPrev)))
          \<and> cumulative_difficulty bei = prev + d)"
proof -
  have "snd (check_block_flag c h i) \<Longrightarrow> m_points c \<noteq> []" for c h by (auto simp: check_block_flag_def)
  with assms show ?thesis unfolding alternative_checked_def Let_def alternative_difficulty_frame
    by (auto simp: bindR_eq_Inr block_at_def split_beta split: if_splits option.splits)
qed

lemma alternative_entry_cases:
  assumes "alternative_entry E b i bvc bc = Inr res"
  shows "case res of
      Inl (r, bvc', bc') \<Rightarrow> (bc' = bc \<or> bc' = bc\<lparr>m_is_in_checkpoint_zone := False\<rparr>)
        \<and> (if r then bvc' = bvc\<lparr>m_marked_as_orphaned := True\<rparr> else bvc' = bvc \<or> bvc' = bvc_failed bvc)
    | Inr (cs, bei, cp, bc') \<Rightarrow> bc' = bc\<lparr>m_is_in_checkpoint_zone := False\<rparr> \<and> checked_entry E b i bc cs bei cp"
proof (cases "get_block_height b = 0 \<or> \<not> is_alternative_block_allowed (m_checkpoints bc) (getCurrentBlockchainHeight bc) (get_block_height b)")
  case True
  with assms show ?thesis by (auto simp: alternative_entry_def Let_def split: if_splits)
next
  case False
  let ?m = "getBlockHeight (m_blockIndex bc) (previousBlockHash b)" and ?p = "m_alternative_chains bc (previousBlockHash b)"
  from False assms obtain k sz ok where k: "getBlockCumulativeSize bc b = Inr (k, sz)"
    "checkCumulativeBlockSize E sz (ucast (get_block_height b)) = Inr ok"
    by (auto simp: alternative_entry_def Let_def bindR_eq_Inr)
  show ?thesis
  proof (cases "ok \<and> \<not> (?p = None \<and> ?m = None)")
    case False
    with assms k \<open>\<not> (get_block_height b = 0 \<or> _)\<close> show ?thesis by (auto simp: alternative_entry_def Let_def split: if_splits)
  next
    case True
    with assms k \<open>\<not> (get_block_height b = 0 \<or> _)\<close> have "bindR (of_opt (Failed ''std::bad_alloc'') (alt_walk (m_alternative_chains bc) (previousBlockHash b) [])) (\<lambda>alt_chain.
       bindR (alternative_times E alt_chain ?m bc) (\<lambda>ts.
       case ts of
         None \<Rightarrow> Inr (Inl (False, bvc, bc))
       | Some timestamps \<Rightarrow>
           if \<not> check_block_timestamp E timestamps b then Inr (Inl (False, bvc_failed bvc, bc))
           else bindR (alternative_checked E b i bvc alt_chain ?p ?m bc) (\<lambda>r.
             Inr (case r of Inl returned \<Rightarrow> Inl returned | Inr entry \<Rightarrow> Inr (alt_chain, entry))))) = Inr res"
      by (auto simp: alternative_entry_def Let_def)
    then obtain cs ts where w: "alt_walk (m_alternative_chains bc) (previousBlockHash b) [] = Some cs" "alternative_times E cs ?m bc = Inr ts"
      and t: "(case ts of
         None \<Rightarrow> Inr (Inl (False, bvc, bc))
       | Some timestamps \<Rightarrow>
           if \<not> check_block_timestamp E timestamps b then Inr (Inl (False, bvc_failed bvc, bc))
           else bindR (alternative_checked E b i bvc cs ?p ?m bc) (\<lambda>r.
             Inr (case r of Inl returned \<Rightarrow> Inl returned | Inr entry \<Rightarrow> Inr (cs, entry)))) = Inr res"
      by (cases "alt_walk (m_alternative_chains bc) (previousBlockHash b) []") (auto simp: bindR_eq_Inr)
    show ?thesis
    proof (cases "(\<exists>tm. ts = Some tm \<and> check_block_timestamp E tm b)")
      case False
      with t show ?thesis by (auto split: option.splits if_splits)
    next
      case True
      with t obtain r where r: "alternative_checked E b i bvc cs ?p ?m bc = Inr r"
        "res = (case r of Inl returned \<Rightarrow> Inl returned | Inr entry \<Rightarrow> Inr (cs, entry))" by (auto simp: bindR_eq_Inr)
      show ?thesis
      proof (cases r)
        case (Inl x)
        with r alternative_checked_cases [OF r(1)] show ?thesis by (cases x) auto
      next
        case (Inr x)
        obtain bei cp bc1 where x: "x = (bei, cp, bc1)" by (cases x)
        note known = alternative_checked_cases [OF r(1), unfolded Inr x sum.case prod.case]
        have "checked_entry E b i bc cs bei cp" "bc1 = bc\<lparr>m_is_in_checkpoint_zone := False\<rparr>"
          unfolding checked_entry_def Let_def using known w True by blast+
        with r(2) Inr x show ?thesis by simp
      qed
    qed
  qed
qed

lemma prevalidate_height: "prevalidate_miner_transaction E b h \<Longrightarrow> inputs (baseTransaction b) = [VBaseInput \<lparr>blockIndex = h\<rparr>]"
  by (cases "inputs (baseTransaction b)" rule: remdups_adj.cases)
    (auto simp: prevalidate_miner_transaction_def split: list.splits TransactionInput.splits if_splits)

text \<open>The entry continues a chain that leaves the main chain at the height of its first block.\<close>

lemma checked_entry_path:
  assumes W: "world_ok W" "ce_currency E = w_currency W" and ok: "chain_ok W bc" and b: "b \<in> w_blocks W" and c: "checked_entry E b i bc cs bei cp"
  shows "\<exists>s. 0 < s \<and> s \<le> length (m_blocks bc) \<and> unat (be_height (snd (hd (cs @ [(i, bei)])))) = s
    \<and> path W ((take s (m_blocks bc) @ map snd cs) @ [bei])"
proof -
  let ?m = "getBlockHeight (m_blockIndex bc) (previousBlockHash b)" and ?p = "m_alternative_chains bc (previousBlockHash b)"
  note o = chain_ok_parts [OF ok]
  from c obtain ts d prev where walk: "alt_walk (m_alternative_chains bc) (previousBlockHash b) [] = Some cs"
    and times: "alternative_times E cs ?m bc = Inr (Some ts)" and bl: "be_bl bei = b"
    and height: "be_height bei = (case ?p of Some e \<Rightarrow> be_height e + 1 | None \<Rightarrow> the ?m + 1)"
    and pre: "prevalidate_miner_transaction E b (be_height bei)"
    and diff: "get_next_difficulty_for_alternative_chain E bc (map snd cs) (be_height bei) = Inr d"
    and prev: "case ?p of Some e \<Rightarrow> prev = cumulative_difficulty e
      | None \<Rightarrow> unat (the ?m) < length (m_blocks bc) \<and> prev = cumulative_difficulty (m_blocks bc ! unat (the ?m))"
    and cum: "cumulative_difficulty bei = prev + d" unfolding checked_entry_def Let_def by auto
  from alt_walk_sound [OF walk] obtain p where cs: "\<forall>(h, e) \<in> set cs. m_alternative_chains bc h = Some e" "linked p cs"
    "if cs = [] then ?p = None else fst (last cs) = previousBlockHash b" by auto
  have ids: "m_container (m_blockIndex bc) = map block_id (m_blocks bc)" using o(1) by (simp add: chain_inv_def indices_ok_def)
  have len: "length (m_blocks bc) < 2 ^ 32" using path_height [OF o(5)] .
  have "\<exists>s. 0 < s \<and> s \<le> length (m_blocks bc) \<and> be_height (snd (hd (cs @ [(i, bei)]))) = of_nat s
    \<and> (if cs = [] then previousBlockHash b else p) = block_id (last (take s (m_blocks bc)))
    \<and> (cs = [] \<longrightarrow> be_height bei = of_nat s \<and> prev = cumulative_difficulty (last (take s (m_blocks bc))))"
  proof (cases "cs = []")
    case False
    let ?f = "snd (hd cs)" and ?s = "unat (be_height (snd (hd cs)))"
    from times False have t: "?s < length (m_blocks bc)" "be_height ?f \<noteq> 0" "block_id (m_blocks bc ! (?s - 1)) = previousBlockHash (be_bl ?f)"
      by (auto simp: alternative_times_def Let_def split: if_splits)
    have "0 < ?s" using t(2) by (simp add: unat_gt_0)
    moreover have "previousBlockHash (be_bl ?f) = p" using cs(2) False by (cases cs) auto
    moreover have "last (take ?s (m_blocks bc)) = m_blocks bc ! (?s - 1)" using t(1) \<open>0 < ?s\<close> by (intro last_take_nth) simp_all
    ultimately show ?thesis using t False by (intro exI [of _ ?s]) simp
  next
    case True
    with times obtain h where h: "?m = Some h" by (auto simp: alternative_times_def split: option.splits)
    define k where "k = length (takeWhile (\<lambda>x. x \<noteq> previousBlockHash b) (m_container (m_blockIndex bc)))"
    from h have mem: "previousBlockHash b \<in> set (m_container (m_blockIndex bc))" and hk: "h = of_nat k" by (auto simp: getBlockHeight_def k_def split: if_splits)
    have k: "k < length (m_container (m_blockIndex bc))" "m_container (m_blockIndex bc) ! k = previousBlockHash b"
      using mem takeWhile_until [of "previousBlockHash b"] unfolding k_def by blast+
    have k': "k < length (m_blocks bc)" "block_id (m_blocks bc ! k) = previousBlockHash b" using k ids by auto
    have u: "unat h = k" unfolding hk using k'(1) len by (simp add: unat_of_nat)
    have "last (take (k + 1) (m_blocks bc)) = m_blocks bc ! k" using k'(1) by (simp add: take_Suc_conv_app_nth)
    moreover have "?p = None" using cs(3) True by simp
    ultimately show ?thesis using True k' u hk h height prev by (intro exI [of _ "k + 1"]) auto
  qed
  then obtain s where s: "0 < s" "s \<le> length (m_blocks bc)" "be_height (snd (hd (cs @ [(i, bei)]))) = of_nat s"
    "(if cs = [] then previousBlockHash b else p) = block_id (last (take s (m_blocks bc)))"
    "cs = [] \<longrightarrow> be_height bei = of_nat s \<and> prev = cumulative_difficulty (last (take s (m_blocks bc)))" by blast
  let ?L = "take s (m_blocks bc)"
  have L: "path W ?L" "?L \<noteq> []" using path_take [OF o(5)] s(1,2) by auto
  have Q: "path W (?L @ map snd cs)"
  proof (cases "cs = []")
    case False
    with s(4) cs(2) have "linked (block_id (last ?L)) cs" by simp
    with path_linked [OF W(1) o(6) L cs(1)] show ?thesis .
  qed (use L in simp)
  have dd: "next_work (w_currency W) (?L @ map snd cs) = Inr d"
  proof -
    have "s < 2 ^ 32" using s(2) len by simp
    moreover have "0 < difficultyBlocksCount (ce_currency E)" using W by (simp add: world_ok_def)
    moreover have "(if map snd cs \<noteq> [] then be_height (hd (map snd cs)) else be_height bei) = of_nat s"
      using s(3) by (cases "cs = []") (auto simp: hd_map)
    ultimately show ?thesis using alternative_difficulty_eq [OF s(1,2)] diff W(2) by metis
  qed
  have last: "be_height bei = of_nat (length (?L @ map snd cs)) \<and> previousBlockHash b = block_id (last (?L @ map snd cs))
    \<and> prev = cumulative_difficulty (last (?L @ map snd cs))"
  proof (cases "cs = []")
    case True
    with s show ?thesis by simp
  next
    case False
    then obtain ds hh e where c: "cs = ds @ [(hh, e)]" by (metis rev_exhaust surj_pair)
    with cs have alt: "?p = Some e" by auto
    then have "previousBlockHash b = block_id e" using o(6) by (auto simp: alt_ok_def)
    moreover have "path W ((?L @ map snd ds) @ [e])" using Q c by simp
    note path_snocD [OF this]
    ultimately show ?thesis using alt height prev c by (simp add: add.commute)
  qed
  have u: "unat (be_height (snd (hd (cs @ [(i, bei)])))) = s" unfolding s(3) using s(2) len by (simp add: unat_of_nat)
  have "path W ((?L @ map snd cs) @ [bei])"
  proof (rule path_snoc [OF Q, where d = d])
    show "inputs (baseTransaction (be_bl bei)) = [coinbase_input (length (?L @ map snd cs))]" using prevalidate_height [OF pre] last bl by simp
    show "length (?L @ map snd cs) + 1 < 2 ^ 32" by (rule path_length [OF W(1) Q])
    show "cumulative_difficulty bei = (if ?L @ map snd cs = [] then d else d + cumulative_difficulty (last (?L @ map snd cs)))"
      using cum last L(2) by (simp add: add.commute)
  qed (use bl b last dd in simp_all)
  with s u show ?thesis by blast
qed

text \<open>
  Every way that a block can take through \<^verbatim>\<open>handle_alternative_block\<close> keeps the invariant; without checkpoints
  the main chain changes only to one with more work.
\<close>

definition handled :: "world \<Rightarrow> Blockchain \<Rightarrow> bool \<Rightarrow> block_verification_context \<Rightarrow> Blockchain \<Rightarrow> bool" where
  "handled W bc r bvc bc' \<longleftrightarrow> chain_ok W bc'
    \<and> (m_blocks bc' \<noteq> m_blocks bc \<longrightarrow> (if r then m_switched_to_alt_chain bvc \<and> m_added_to_main_chain bvc else bvc_verifivation_failed bvc))
    \<and> (r \<and> m_points (w_checkpoints W) = [] \<longrightarrow> m_blocks bc' = m_blocks bc \<or> total_work bc < total_work bc')"

lemma handledI: "chain_ok W bc' \<Longrightarrow> m_blocks bc' = m_blocks bc \<Longrightarrow> handled W bc r bvc bc'"
  by (simp add: handled_def)

lemma reorganize_handled:
  assumes handle: "handles W handle" and W: "world_ok W" "ce_currency E = w_currency W" and ok: "chain_ok W bc"
    and p: "path W ((take (unat (be_height (snd (hd (cs @ [(i, bei)]))))) (m_blocks bc) @ map snd cs) @ [bei])"
    and more: "\<not> discard \<longrightarrow> total_work bc < cumulative_difficulty bei" and cp: "discard \<longrightarrow> m_points (w_checkpoints W) \<noteq> []"
    and run: "bindR (switch_to_alternative_blockchain handle E (cs @ [(i, bei)]) discard bc) (\<lambda>(r, bc).
        Inr (r, if r then bvc\<lparr>m_added_to_main_chain := True, m_switched_to_alt_chain := True\<rparr> else bvc_failed bvc, bc)) = Inr (r, bvc', bc')"
  shows "handled W bc r bvc' bc'"
proof -
  from run have sw: "switch_to_alternative_blockchain handle E (cs @ [(i, bei)]) discard bc = Inr (r, bc')"
    and bvc: "bvc' = (if r then bvc\<lparr>m_added_to_main_chain := True, m_switched_to_alt_chain := True\<rparr> else bvc_failed bvc)"
    by (auto simp: bindR_eq_Inr)
  have p': "path W (take (unat (be_height (snd (hd (cs @ [(i, bei)]))))) (m_blocks bc) @ map snd (cs @ [(i, bei)]))" using p by simp
  note s = switch_ok [OF handle W ok _ p' sw]
  show ?thesis unfolding handled_def using s bvc more cp by (auto simp: bvc_failed_def)
qed

lemma handle_step:
  assumes handle: "handles W handle" and W: "world_ok W" "ce_currency E = w_currency W"
    and b: "b \<in> w_blocks W" and ok: "chain_ok W bc"
    and run: "handle_alternative_step handle E b (snd (get_block_hash b)) bvc send bc = Inr (r, bvc', bc')"
  shows "handled W bc r bvc' bc'"
proof -
  let ?i = "snd (get_block_hash b)"
  from run [unfolded handle_alternative_step_def bindR_eq_Inr [of "alternative_entry E b ?i bvc bc"]] obtain res where res: "alternative_entry E b ?i bvc bc = Inr res"
    and rest: "(case res of
        Inl returned \<Rightarrow> Inr returned
      | Inr (alt_chain, bei, is_a_checkpoint, bc) \<Rightarrow>
          if m_alternative_chains bc ?i \<noteq> None then Inr (False, bvc, bc)
          else
            bindR (of_opt (Failed ''boost::bad_get'') (orphan_add (be_bl bei) (m_orthanBlocksIndex bc))) (\<lambda>(_, ob).
            let bc = bc\<lparr>m_alternative_chains := (m_alternative_chains bc)(?i \<mapsto> bei), m_orthanBlocksIndex := ob\<rparr>;
                alt_chain = alt_chain @ [(?i, bei)];
                reorganize = (\<lambda>discard.
                  bindR (switch_to_alternative_blockchain handle E alt_chain discard bc) (\<lambda>(r, bc).
                    Inr (r, if r then bvc\<lparr>m_added_to_main_chain := True, m_switched_to_alt_chain := True\<rparr> else bvc_failed bvc, bc))) in
            if is_a_checkpoint then reorganize True
            else bindR (block_at bc (length (m_blocks bc) - 1)) (\<lambda>back.
              if cumulative_difficulty back < cumulative_difficulty bei then reorganize False
              else Inr (True, bvc, if send then sendMessage (NewAlternativeBlockMessage ?i) bc else bc)))) = Inr (r, bvc', bc')"
    by (elim exE conjE) (rule that)
  note cases = alternative_entry_cases [OF res]
  show ?thesis
  proof (cases res)
    case (Inl x)
    with cases rest ok show ?thesis by (cases x) (auto intro!: handledI)
  next
    case (Inr x)
    then obtain cs bei cp bc1 where x: "res = Inr (cs, bei, cp, bc1)" by (metis prod_cases4)
    with cases have e: "bc1 = bc\<lparr>m_is_in_checkpoint_zone := False\<rparr>" "checked_entry E b ?i bc cs bei cp" by auto
    from checked_entry_path [OF W ok b e(2)] obtain s where s: "unat (be_height (snd (hd (cs @ [(?i, bei)])))) = s" "0 < s" "s \<le> length (m_blocks bc)"
      "path W ((take s (m_blocks bc) @ map snd cs) @ [bei])" by blast
    have bl: "be_bl bei = b" "cp \<longrightarrow> m_points (w_checkpoints W) \<noteq> []"
      using e(2) chain_ok_parts(7) [OF ok] by (simp_all add: checked_entry_def Let_def)
    show ?thesis
    proof (cases "m_alternative_chains bc1 ?i")
      case (Some y)
      with rest x e ok show ?thesis by (auto intro!: handledI)
    next
      case None
      with rest x obtain ob where ob: "(let bc = bc1\<lparr>m_alternative_chains := (m_alternative_chains bc1)(?i \<mapsto> bei), m_orthanBlocksIndex := ob\<rparr>;
                reorganize = (\<lambda>discard.
                  bindR (switch_to_alternative_blockchain handle E (cs @ [(?i, bei)]) discard bc) (\<lambda>(r, bc).
                    Inr (r, if r then bvc\<lparr>m_added_to_main_chain := True, m_switched_to_alt_chain := True\<rparr> else bvc_failed bvc, bc))) in
            if cp then reorganize True
            else bindR (block_at bc (length (m_blocks bc) - 1)) (\<lambda>back.
              if cumulative_difficulty back < cumulative_difficulty bei then reorganize False
              else Inr (True, bvc, if send then sendMessage (NewAlternativeBlockMessage ?i) bc else bc))) = Inr (r, bvc', bc')"
        by (auto simp: bindR_eq_Inr Let_def)
      let ?bc = "bc1\<lparr>m_alternative_chains := (m_alternative_chains bc1)(?i \<mapsto> bei), m_orthanBlocksIndex := ob\<rparr>"
      have "\<exists>es. es \<noteq> [] \<and> path W (es @ [bei])" using s(2-4) by (intro exI [of _ "take s (m_blocks bc) @ map snd cs"]) auto
      then have "alt_ok W ((m_alternative_chains bc)(?i \<mapsto> bei))"
        using chain_ok_parts(6) [OF ok] bl(1) unfolding alt_ok_def by simp
      then have ok1: "chain_ok W ?bc" using chain_ok_alt [of W bc1] ok e(1) by simp
      have m: "m_blocks ?bc = m_blocks bc" using e(1) by simp
      have nonempty: "m_blocks bc \<noteq> []" using s(2,3) by auto
      have lastb: "block_at ?bc (length (m_blocks ?bc) - 1) = Inr (last (m_blocks bc))" unfolding block_at_def m using nonempty by (simp add: last_conv_nth)
      have w: "total_work bc = cumulative_difficulty (last (m_blocks bc))" "total_work ?bc = total_work bc" using nonempty m by (simp_all add: total_work_def)
      have step: "handled W bc r bvc' bc'" if "bindR (switch_to_alternative_blockchain handle E (cs @ [(?i, bei)]) d ?bc) (\<lambda>(r, bc).
                    Inr (r, if r then bvc\<lparr>m_added_to_main_chain := True, m_switched_to_alt_chain := True\<rparr> else bvc_failed bvc, bc)) = Inr (r, bvc', bc')"
        "\<not> d \<longrightarrow> total_work bc < cumulative_difficulty bei" "d \<longrightarrow> cp" for d
      proof -
        have "handled W ?bc r bvc' bc'"
          by (rule reorganize_handled [OF handle W ok1 _ _ _ that(1)]) (use s that bl m w in auto)
        then show ?thesis unfolding handled_def m w(2) .
      qed
      show ?thesis
      proof (cases "cp \<or> cumulative_difficulty (last (m_blocks bc)) < cumulative_difficulty bei")
        case True
        then show ?thesis using ob step [of cp] lastb w(1) unfolding Let_def by (cases cp) simp_all
      next
        case False
        with ob lastb have "bc' = (if send then sendMessage (NewAlternativeBlockMessage ?i) ?bc else ?bc)" unfolding Let_def by simp
        with ok1 m show ?thesis by (auto intro!: handledI)
      qed
    qed
  qed
qed

lemma handle_alternative_block_handled:
  assumes W: "world_ok W" "ce_currency E = w_currency W"
  shows "b \<in> w_blocks W \<Longrightarrow> chain_ok W bc \<Longrightarrow>
    handle_alternative_block n E b (snd (get_block_hash b)) bvc send bc = Inr (r, bvc', bc') \<Longrightarrow> handled W bc r bvc' bc'"
proof (induction n arbitrary: b bvc send bc r bvc' bc')
  case (Suc n)
  have "handles W (handle_alternative_block n E)" unfolding handles_def using Suc.IH unfolding handled_def by blast
  from handle_step [OF this W Suc.prems(1,2)] Suc.prems(3) show ?case by simp
qed simp

section \<open>New blocks\<close>

lemma env_time [simp]: "ce_currency (E\<lparr>ce_time := t\<rparr>) = ce_currency E"
  by simp

text \<open>All that a new block can do to the chain.\<close>

lemma addNewBlock_ok:
  assumes W: "world_ok W" "ce_currency E = w_currency W" and ok: "chain_ok W bc" and b: "b \<in> w_blocks W"
    and run: "addNewBlock n E b bvc bc = Inr (r, bvc', bc', notified)"
  shows "chain_ok W bc'
    \<and> (haveBlock bc (snd (get_block_hash b)) \<longrightarrow> \<not> r \<and> bc' = bc)
    \<and> (if bc_getTailId bc = Inr (previousBlockHash b) then map be_bl (m_blocks bc') = map be_bl (m_blocks bc) @ (if r then [b] else [])
       else r \<and> m_points (w_checkpoints W) = [] \<longrightarrow> m_blocks bc' = m_blocks bc \<or> total_work bc < total_work bc')
    \<and> (m_blocks bc' \<noteq> m_blocks bc \<longrightarrow> (if r then m_added_to_main_chain bvc' \<and> notified = m_observers (bc_observers bc') else bvc_verifivation_failed bvc'))"
proof (cases "\<not> fst (get_block_hash b) \<or> haveBlock bc (snd (get_block_hash b))")
  case True
  with run have "bc' = bc" "\<not> r" by (auto simp: addNewBlock_def Let_def split: prod.splits if_splits)
  with ok show ?thesis by simp
next
  case False
  let ?i = "snd (get_block_hash b)"
  from False run obtain tail r1 bvc1 bc1 where tail: "bc_getTailId bc = Inr tail"
    and r1: "(if previousBlockHash b \<noteq> tail then handle_alternative_block n E b ?i (bvc\<lparr>m_added_to_main_chain := False\<rparr>) True bc
         else bindR (pushBlock E b bvc bc) (\<lambda>(add_result, bvc, bc).
           Inr (add_result, bvc, if add_result then sendMessage (NewBlockMessage ?i) bc else bc))) = Inr (r1, bvc1, bc1)"
    and res: "r = r1" "bvc' = bvc1" "bc' = bc1" "notified = (if r1 \<and> m_added_to_main_chain bvc1 then m_observers (bc_observers bc1) else [])"
    by (auto simp: addNewBlock_def Let_def split_beta bindR_eq_Inr split: prod.splits)
  show ?thesis
  proof (cases "previousBlockHash b = tail")
    case True
    with r1 obtain bc2 where p: "pushBlock E b bvc bc = Inr (r1, bvc1, bc2)" "bc1 = (if r1 then sendMessage (NewBlockMessage ?i) bc2 else bc2)"
      by (auto simp: bindR_eq_Inr)
    note q = push_block_ok [OF W ok b p(1)] and q' = push_block_bl [OF W ok b p(1)]
    then show ?thesis using tail True res False p(2) by auto
  next
    case False
    with r1 have h: "handle_alternative_block n E b ?i (bvc\<lparr>m_added_to_main_chain := False\<rparr>) True bc = Inr (r1, bvc1, bc1)" by simp
    from handle_alternative_block_handled [OF W b ok h] show ?thesis
      using tail False res \<open>\<not> (\<not> fst (get_block_hash b) \<or> _)\<close> by (auto simp: handled_def)
  qed
qed

section \<open>Reachable states\<close>

text \<open>
  A node starts with no blocks, receives blocks at any time, and its pool changes in between; the tables
  may be rebuilt.
\<close>

inductive reachable_chain :: "world \<Rightarrow> chain_env \<Rightarrow> Blockchain \<Rightarrow> bool" for W E where
  chain_start: "pool_sem p \<Longrightarrow> td_tx ` set (m_transactions p) \<subseteq> w_txs W \<Longrightarrow>
    reachable_chain W E ((new_Blockchain p)\<lparr>m_checkpoints := w_checkpoints W\<rparr>)"
| chain_block: "reachable_chain W E bc \<Longrightarrow> b \<in> w_blocks W \<Longrightarrow>
    addNewBlock n (E\<lparr>ce_time := t\<rparr>) b bvc bc = Inr (r, bvc', bc', notified) \<Longrightarrow> reachable_chain W E bc'"
| chain_pool: "reachable_chain W E bc \<Longrightarrow> pool_sem p \<Longrightarrow> td_tx ` set (m_transactions p) \<subseteq> w_txs W \<Longrightarrow>
    reachable_chain W E (bc\<lparr>m_tx_pool := p\<rparr>)"
| chain_rebuild: "reachable_chain W E bc \<Longrightarrow> rebuildCache bc = Inr bc' \<Longrightarrow> reachable_chain W E bc'"

lemma reachable_chain_ok:
  assumes W: "world_ok W" "ce_currency E = w_currency W"
  shows "reachable_chain W E bc \<Longrightarrow> chain_ok W bc"
proof (induction rule: reachable_chain.induct)
  case (chain_start p)
  have "chain_inv ((new_Blockchain p)\<lparr>m_checkpoints := w_checkpoints W\<rparr>)"
    using new_Blockchain_inv [of p] by (simp add: chain_inv_def indices_ok_def cache_of_def)
  with chain_start show ?case by (simp add: chain_ok_def new_Blockchain_def alt_ok_def path_nil)
next
  case (chain_block bc b n t bvc r bvc' bc' notified)
  with addNewBlock_ok [OF W(1) _ chain_block.IH chain_block.hyps(2,3)] W(2) show ?case by simp
next
  case (chain_pool bc p)
  then show ?case by (simp add: chain_ok_def chain_inv_def indices_ok_def cache_of_def)
next
  case (chain_rebuild bc bc')
  with rebuildCache_id [OF chain_ok_parts(1) [OF chain_rebuild.IH]] show ?case by simp
qed

section \<open>What holds in every reachable state\<close>

lemma applied_keys: "c_keys (fold apply_tx xs c) = c_keys c \<union> set (concat (map (\<lambda>x. images_of (inputs (snd x))) xs))"
proof (induction xs arbitrary: c)
  case (Cons x xs)
  have "c_keys (apply_tx x c) = c_keys c \<union> set (images_of (inputs (snd x)))" by (cases x) (simp add: apply_tx_def Let_def split_beta)
  with Cons.IH [of "apply_tx x c"] show ?case by auto
qed simp

lemma applied_found: "all_fit xs c \<Longrightarrow> (ti, tx) \<in> set xs \<Longrightarrow> c_txs (fold apply_tx xs c) (tx_hash tx) = Some ti"
proof (induction xs rule: rev_induct)
  case (snoc x xs)
  obtain ti' tx' where x: "x = (ti', tx')" by (cases x)
  let ?c = "fold apply_tx xs c"
  have c: "c_txs (apply_tx x ?c) = (c_txs ?c)(tx_hash tx' \<mapsto> ti')" unfolding x by (simp add: apply_tx_def Let_def split_beta)
  have f: "fits ?c tx'" "all_fit xs c" using snoc.prems(1) x by (simp_all add: all_fit_append)
  show ?case
  proof (cases "(ti, tx) \<in> set xs")
    case True
    with snoc.IH f(2) have s: "c_txs ?c (tx_hash tx) = Some ti" by simp
    then have "tx_hash tx \<noteq> tx_hash tx'" using f(1) by (auto simp: fits_def)
    with s c show ?thesis by simp
  next
    case False
    with snoc.prems(2) x c show ?thesis by simp
  qed
qed simp

lemma path_link: "path W es \<Longrightarrow> Suc k < length es \<Longrightarrow> previousBlockHash (be_bl (es ! Suc k)) = block_id (es ! k)"
proof (induction es rule: rev_induct)
  case (snoc e es)
  note d = path_snocD [OF snoc.prems(1)]
  show ?case
  proof (cases "Suc k = length es")
    case True
    then have ne: "es \<noteq> []" by auto
    then have "last es = es ! k" using True by (metis diff_Suc_1 last_conv_nth)
    with ne d True show ?thesis by (simp add: nth_append)
  next
    case False
    with snoc d show ?thesis by (simp add: nth_append)
  qed
qed simp

lemma index_txs_mem:
  "t < length txs \<Longrightarrow> (\<lparr>ti_block = of_nat b, ti_transaction = of_nat t\<rparr>, txs ! t) \<in> set (index_txs b txs)"
  unfolding index_txs_def set_map by (rule image_eqI [of _ _ "(t, txs ! t)"]) (simp_all add: in_set_enumerate_eq)

lemma chain_txs_mem:
  assumes "b < length bs" and "t < length (be_transactions (bs ! b))"
  shows "(\<lparr>ti_block = of_nat b, ti_transaction = of_nat t\<rparr>, te_tx (be_transactions (bs ! b) ! t)) \<in> set (chain_txs bs)"
proof -
  have "(b, bs ! b) \<in> set (List.enumerate 0 bs)" using assms(1) by (simp add: in_set_enumerate_eq)
  moreover have "(\<lparr>ti_block = of_nat b, ti_transaction = of_nat t\<rparr>, te_tx (be_transactions (bs ! b) ! t)) \<in> set (block_txs b (bs ! b))"
    using index_txs_mem [of t "map te_tx (be_transactions (bs ! b))" b] assms(2) by (simp add: block_txs_def)
  ultimately show ?thesis unfolding chain_txs_def by (auto intro!: bexI [of _ "(b, bs ! b)"])
qed

text \<open>Every transaction of the chain is found by its hash.\<close>

lemma transaction_found:
  assumes inv: "chain_inv bc" and b: "b < length (m_blocks bc)" and t: "t < length (be_transactions (m_blocks bc ! b))"
  shows "\<exists>ti. m_transactionMap bc (tx_hash (te_tx (be_transactions (m_blocks bc ! b) ! t))) = Some ti
    \<and> unat (ti_block ti) = b \<and> unat (ti_transaction ti) = t \<and> transactionByIndex bc ti = Inr (be_transactions (m_blocks bc ! b) ! t)"
proof -
  let ?ti = "\<lparr>ti_block = of_nat b, ti_transaction = of_nat t\<rparr> :: TransactionIndex"
  have fit: "all_fit (chain_txs (m_blocks bc)) empty_cache" "cache_of bc = fold apply_tx (chain_txs (m_blocks bc)) empty_cache"
    using inv by (simp_all add: chain_inv_def)
  from applied_found [OF fit(1) chain_txs_mem [OF b t]] fit(2)
  have m: "m_transactionMap bc (tx_hash (te_tx (be_transactions (m_blocks bc ! b) ! t))) = Some ?ti" by (metis cache_of_def chain_cache.select_convs(1))
  have "length (m_blocks bc) < 2 ^ 32" "length (be_transactions (m_blocks bc ! b)) < 2 ^ 16"
    using inv b by (simp_all add: chain_inv_def entry_ok_def)
  with b t have u: "unat (ti_block ?ti) = b" "unat (ti_transaction ?ti) = t" by (simp_all add: unat_of_nat)
  have "transactionByIndex bc ?ti = Inr (be_transactions (m_blocks bc ! b) ! t)"
    unfolding transactionByIndex_def block_at_def u using b t by simp
  with m u show ?thesis by blast
qed

end
