(* ===== verification/SwitchDepth.thy ===== *)
theory SwitchDepth
  imports ForkChoice
begin

text \<open>
  \<^bold>\<open>The depth of a switch.\<close>  The functions that handle an alternative block and that switch to an alternative
  chain call each other.  Here it is shown that without checkpoints the calls are at most two deep.
\<close>

text \<open>
  Where the sum of the difficulties does not wrap around and there are no checkpoints, the old blocks never
  cause a second switch inside the first one.
\<close>

definition work_grows :: "world \<Rightarrow> bool" where
  "work_grows W \<longleftrightarrow> (\<forall>es e. path W (es @ [e]) \<longrightarrow> es \<noteq> [] \<longrightarrow> cumulative_difficulty (last es) \<le> cumulative_difficulty e)"

lemma path_work:
  assumes "work_grows W"
  shows "path W es \<Longrightarrow> e \<in> set es \<Longrightarrow> cumulative_difficulty e \<le> cumulative_difficulty (last es)"
proof (induction es rule: rev_induct)
  case (snoc x es)
  then show ?case
  proof (cases "e = x")
    case False
    with snoc.prems(2) have "e \<in> set es" by simp
    with snoc.IH [OF path_butlast [OF snoc.prems(1)]] snoc.prems(1) assms show ?thesis
      unfolding work_grows_def by (metis empty_iff last_snoc list.set(1) order_trans)
  qed simp
qed simp

lemma member_path: "path W es \<Longrightarrow> e \<in> set es \<Longrightarrow> \<exists>fs. path W (fs @ [e])"
  by (metis path_take append_Cons append_Nil append_assoc append_eq_conv_conj split_list)

lemma block_at_last: "m_blocks bc = bs \<Longrightarrow> bs \<noteq> [] \<Longrightarrow> k = length bs - 1 \<Longrightarrow> block_at bc k = Inr (last bs)"
  by (simp add: block_at_def last_conv_nth)

definition less_work :: "world \<Rightarrow> u64 \<Rightarrow> Block \<Rightarrow> bool" where
  "less_work W w b \<longleftrightarrow> (\<exists>es e. path W (es @ [e]) \<and> be_bl e = b \<and> cumulative_difficulty e \<le> w)"

lemma no_reorganization:
  assumes W: "world_ok W" "ce_currency E = w_currency W" "m_points (w_checkpoints W) = []" and ok: "chain_ok W bc"
    and less: "less_work W (total_work bc) b"
  shows "handle_alternative_step f E b (snd (get_block_hash b)) bvc send bc
      = handle_alternative_step g E b (snd (get_block_hash b)) bvc send bc
    \<and> (handle_alternative_step f E b (snd (get_block_hash b)) bvc send bc = Inr (r, bvc', bc') \<longrightarrow> m_blocks bc' = m_blocks bc)"
proof -
  let ?i = "snd (get_block_hash b)"
  from less obtain es e where e: "path W (es @ [e])" "be_bl e = b" "cumulative_difficulty e \<le> total_work bc" unfolding less_work_def by blast
  then have b: "b \<in> w_blocks W" using path_blocks by fastforce
  show ?thesis
  proof (cases "alternative_entry E b ?i bvc bc")
    case (Inr res)
    note cases = alternative_entry_cases [OF Inr]
    show ?thesis
    proof (cases res)
      case (Inl x)
      with Inr cases show ?thesis unfolding handle_alternative_step_def by (cases x) auto
    next
      case x: (Inr y)
      obtain cs bei cp bc1 where y: "y = (cs, bei, cp, bc1)" by (metis prod_cases4)
      with cases x have c: "bc1 = bc\<lparr>m_is_in_checkpoint_zone := False\<rparr>" "checked_entry E b ?i bc cs bei cp" by auto
      from checked_entry_path [OF W(1,2) ok b c(2)] obtain s where s: "0 < s" "s \<le> length (m_blocks bc)"
        "path W ((take s (m_blocks bc) @ map snd cs) @ [bei])" by blast
      have bl: "be_bl bei = b" "\<not> cp" using c(2) chain_ok_parts(7) [OF ok] W(3) by (auto simp: checked_entry_def Let_def)
      have "cumulative_difficulty bei = cumulative_difficulty e" using path_unique [OF W(1) s(3) e(1)] bl(1) e(2) by simp
      then have "\<not> cumulative_difficulty (last (m_blocks bc)) < cumulative_difficulty bei" using e(3) s(1,2) by (auto simp: total_work_def split: if_splits)
      moreover have "block_at (bc1\<lparr>m_alternative_chains := a, m_orthanBlocksIndex := ob\<rparr>) (length (m_blocks bc1) - 1) = Inr (last (m_blocks bc))" for a ob
        using s(1,2) c(1) by (intro block_at_last) auto
      ultimately show ?thesis using Inr x y bl(2) c(1) unfolding handle_alternative_step_def by (auto simp: Let_def bindR_eq_Inr bindR_def split: sum.splits prod.splits if_splits)
    qed
  qed (simp add: handle_alternative_step_def)
qed

lemma push_old_depth:
  assumes W: "world_ok W" "ce_currency E = w_currency W" "m_points (w_checkpoints W) = []"
  shows "chain_ok W bc \<Longrightarrow> total_work bc = w \<Longrightarrow> \<forall>b \<in> set old. less_work W w b \<Longrightarrow>
    push_old (handle_alternative_step f E) old bc = push_old (handle_alternative_step g E) old bc"
proof (induction old arbitrary: bc)
  case (Cons b old)
  let ?h = "handle_alternative_step f E b (snd (get_block_hash b)) new_bvc False bc"
  have less: "less_work W (total_work bc) b" using Cons.prems(2,3) by simp
  then have b: "b \<in> w_blocks W" using path_blocks unfolding less_work_def by fastforce
  note same = no_reorganization [OF W Cons.prems(1) less]
  show ?case
  proof (cases ?h)
    case (Inr x)
    obtain r bvc bc1 where x: "x = (r, bvc, bc1)" by (cases x)
    with Inr have h: "?h = Inr (r, bvc, bc1)" by simp
    have "handle_alternative_block 1 E b (snd (get_block_hash b)) new_bvc False bc = Inr (r, bvc, bc1)"
      using same [of f _ _ "handle_alternative_block 0 E"] h by simp
    then have "chain_ok W bc1" using handle_alternative_block_handled [OF W(1,2) b Cons.prems(1)] unfolding handled_def by blast
    moreover have "m_blocks bc1 = m_blocks bc" using same h by blast
    with Cons.prems(2) have "total_work bc1 = w" by (auto simp: total_work_def)
    ultimately show ?thesis using Cons.IH [of bc1] Cons.prems(3) same [of f _ _ g] h by simp
  qed (use same [of f _ _ g] in simp)
qed simp

lemma switch_cong:
  assumes W: "world_ok W" "ce_currency E = w_currency W" and ok: "chain_ok W bc" and ne: "cs \<noteq> []"
    and p: "path W (take (unat (be_height (snd (hd cs)))) (m_blocks bc) @ map snd cs)"
    and eq: "\<And>old bc2. chain_ok W bc2 \<Longrightarrow> total_work bc2 = cumulative_difficulty (snd (last cs)) \<Longrightarrow>
      set old \<subseteq> be_bl ` set (m_blocks bc) \<Longrightarrow> push_old f old bc2 = push_old g old bc2"
  shows "switch_to_alternative_blockchain f E cs discard bc = switch_to_alternative_blockchain g E cs discard bc"
proof -
  let ?s = "unat (be_height (snd (hd cs)))"
  have "(if discard then Inr (True, bc2) else push_old f old bc2) = (if discard then Inr (True, bc2) else push_old g old bc2)"
    if d: "disconnect E ?s (length (m_blocks bc)) [] bc = Inr (old, bc1)" and c: "connect E old ?s cs bc1 = Inr (True, bc2)" for old bc1 bc2
    using eq [of bc2 old] connected_ok [OF W ok ne p d c] by simp
  then show ?thesis unfolding switch_to_alternative_blockchain_def Let_def
    by (auto intro!: bindR_cong simp del: push_old.simps)
qed

text \<open>Whatever the calls inside the second level would do, it does not matter: they are not made.\<close>

lemma handle_depth:
  assumes W: "world_ok W" "ce_currency E = w_currency W" "m_points (w_checkpoints W) = []" "work_grows W"
    and ok: "chain_ok W bc" and b: "b \<in> w_blocks W"
  shows "handle_alternative_step (handle_alternative_step f E) E b (snd (get_block_hash b)) bvc send bc
    = handle_alternative_step (handle_alternative_step g E) E b (snd (get_block_hash b)) bvc send bc"
proof (cases "alternative_entry E b (snd (get_block_hash b)) bvc bc")
  case (Inr res)
  let ?i = "snd (get_block_hash b)"
  note cases = alternative_entry_cases [OF Inr]
  show ?thesis
  proof (cases res)
    case x: (Inr y)
    obtain cs bei cp bc1 where y: "y = (cs, bei, cp, bc1)" by (metis prod_cases4)
    with cases x have c: "bc1 = bc\<lparr>m_is_in_checkpoint_zone := False\<rparr>" "checked_entry E b ?i bc cs bei cp" by auto
    from checked_entry_path [OF W(1,2) ok b c(2)] obtain s where s: "unat (be_height (snd (hd (cs @ [(?i, bei)])))) = s" "0 < s" "s \<le> length (m_blocks bc)"
      "path W ((take s (m_blocks bc) @ map snd cs) @ [bei])" by blast
    have bl: "be_bl bei = b" "\<not> cp" using c(2) chain_ok_parts(7) [OF ok] W(3) by (auto simp: checked_entry_def Let_def)
    note p = chain_ok_parts(5) [OF ok]
    have sw: "switch_to_alternative_blockchain (handle_alternative_step f E) E (cs @ [(?i, bei)]) False bc2
        = switch_to_alternative_blockchain (handle_alternative_step g E) E (cs @ [(?i, bei)]) False bc2"
      if bc2: "chain_ok W bc2" "m_blocks bc2 = m_blocks bc" and more: "cumulative_difficulty (last (m_blocks bc)) < cumulative_difficulty bei" for bc2
    proof (rule switch_cong [OF W(1,2) bc2(1)])
      show "path W (take (unat (be_height (snd (hd (cs @ [(?i, bei)]))))) (m_blocks bc2) @ map snd (cs @ [(?i, bei)]))" using s bc2(2) by simp
    next
      fix old bc3 assume bc3: "chain_ok W bc3" "total_work bc3 = cumulative_difficulty (snd (last (cs @ [(?i, bei)])))" "set old \<subseteq> be_bl ` set (m_blocks bc2)"
      have "less_work W (cumulative_difficulty bei) (be_bl e)" if e: "e \<in> set (m_blocks bc)" for e
      proof -
        have "cumulative_difficulty e \<le> cumulative_difficulty bei" using path_work [OF W(4) p e] more by simp
        with member_path [OF p e] show ?thesis unfolding less_work_def by blast
      qed
      then show "push_old (handle_alternative_step f E) old bc3 = push_old (handle_alternative_step g E) old bc3"
        using bc3 bc2(2) by (intro push_old_depth [OF W(1-3)]) auto
    qed simp
    have "alt_ok W ((m_alternative_chains bc)(?i \<mapsto> bei))"
      using chain_ok_parts(6) [OF ok] bl(1) s(2-4) unfolding alt_ok_def by (auto intro!: exI [of _ "take s (m_blocks bc) @ map snd cs"])
    then have ok1: "chain_ok W (bc1\<lparr>m_alternative_chains := (m_alternative_chains bc)(?i \<mapsto> bei), m_orthanBlocksIndex := ob\<rparr>)" for ob
      using chain_ok_alt [of W bc1] ok c(1) by simp
    have tip: "block_at (bc1\<lparr>m_alternative_chains := a, m_orthanBlocksIndex := ob\<rparr>) (length (m_blocks bc1) - 1) = Inr (last (m_blocks bc))" for a ob
      using s(2,3) c(1) by (intro block_at_last) auto
    show ?thesis using Inr x y bl(2) c(1) sw [OF ok1] tip unfolding handle_alternative_step_def [of "handle_alternative_step _ E"]
      by (auto simp: Let_def intro!: bindR_cong)
  qed (use Inr in \<open>simp add: handle_alternative_step_def\<close>)
qed (simp add: handle_alternative_step_def)

lemma handle_alternative_block_depth:
  assumes "world_ok W" "ce_currency E = w_currency W" "m_points (w_checkpoints W) = []" "work_grows W" "chain_ok W bc" "b \<in> w_blocks W"
  shows "handle_alternative_block (n + 2) E b (snd (get_block_hash b)) bvc send bc
    = handle_alternative_step (handle_alternative_step inner E) E b (snd (get_block_hash b)) bvc send bc"
  using handle_depth [OF assms, of "handle_alternative_block n E" _ _ inner] by simp

lemma addNewBlock_depth:
  assumes "world_ok W" "ce_currency E = w_currency W" "m_points (w_checkpoints W) = []" "work_grows W" "chain_ok W bc" "b \<in> w_blocks W"
  shows "addNewBlock (n + 2) E b bvc bc = addNewBlock 2 E b bvc bc"
proof -
  have "handle_alternative_block (n + 2) E b (snd (get_block_hash b)) bvc True bc = handle_alternative_block 2 E b (snd (get_block_hash b)) bvc True bc" for bvc
    using handle_alternative_block_depth [OF assms, of n _ _ "handle_alternative_block 0 E"] by (simp add: numeral_2_eq_2)
  then show ?thesis unfolding addNewBlock_def
    by (auto simp: Let_def split_beta intro!: bindR_cong simp del: add_2_eq_Suc')
qed

end
