(* ===== verification/Spec2Isabelle.thy ===== *)
theory Spec2Isabelle
  imports Currency Checkpoints BlockIndex BlockchainIndices IntrusiveLinkedList ObserverManager SwitchDepth
begin

text \<open>
  \<^bold>\<open>A verification library for Orbis\<close>

  Orbis is a CryptoNote currency written in C and C++.  A node receives transactions and blocks as
  bytes, parses them, checks them, keeps unconfirmed transactions in a pool and blocks in a chain,
  and builds new blocks for miners; a wallet builds transactions and finds the outputs that belong
  to it.  This library translates the parts of the program that decide what these bytes mean and
  what the node accepts, and proves that they do what they are for.

  \<^bold>\<open>Conventions.\<close>  Machine integers are words of their width, so sums wrap where the code wraps; a
  cast is \<open>ucast\<close>.  Sizes and indices of containers are natural numbers where the code cannot
  reach the limit of \<open>size_t\<close>.  Exceptions are the left side of a sum, a function that returns
  \<open>false\<close> with an output argument gives an option, and behaviour that the language leaves undefined
  is \<open>None\<close> of an outer option.  A loop is a recursive function, total by structural recursion
  or by a termination proof, or a fold, with three exceptions.  \<open>list_search\<close> of
  IntrusiveLinkedList and \<open>alt_walk\<close> of AlternativeChains follow pointers and are given by
  \<open>partial_function\<close>; they are proved to return on every well-formed list and on every consistent
  chain.  \<open>handle_alternative_block\<close> has the depth of nested calls as an argument: the code calls
  itself through \<open>switch_to_alternative_blockchain\<close>.  What is proved of its results holds for every
  depth, and a depth of two is proved to be enough on a node without checkpoints whose chains have less
  work than \<open>2 ^ 64\<close>.
  \<open>assert\<close> has no effect, as in a release build.  The functions on curve points that
  src/src/orbis/orbis.cpp exports are the fields of the record \<open>crypto\<close>, an argument of what uses
  them; the slow hash, the clock and random values are arguments too.

  \<^bold>\<open>Theories, bottom up.\<close>
  \<^item> Prelude: words, results, lists, and the facts on them that all theories share.
  \<^item> IntUtil (Common/int-util.h): 128 bit products and quotients, rotations and byte order.
  \<^item> Varint (Common/Varint.h), Streams (the stream classes of Common), Serializer (the binary
    serializers and OrbisTools.h), SerializationOverloads (containers).  The locale
    \<open>input_stream\<close> is what the serializer needs of a stream, and the locale \<open>codec\<close> is what a
    pair of a writer and a reader promises; each field type and each record of the chain
    interprets it.
  \<^item> OrbisConfig, OrbisTypes, OrbisSerialization: constants, the data of transactions and
    blocks, and their formats (OrbisConfig.h, include/Orbis.h, OrbisSerialization.cpp).
  \<^item> Keccak (orbis/keccak.c, hash.c) and TreeHash (orbis/tree-hash.c): the hashes that name
    transactions and blocks, with the specification of the permutation and the Merkle tree.
  \<^item> Base58, StringTools, OrbisBasicImpl: texts of addresses, hexadecimal and base 64 texts.
  \<^item> TransactionExtra, OrbisFormatUtils: the extra field, parsing and checking of transactions,
    amounts, and the construction of transactions.
  \<^item> Difficulty, Currency: the proof of work check, rewards, the miner's transaction, fusion
    transactions, amounts as texts and the next difficulty.
  \<^item> Checkpoints, BlockIndex, BlockchainIndices: the indices beside the chain.  The locale
    \<open>entry_index\<close> is the contract of the indices that map a key to several entries; the payment id,
    the timestamp and the orphan index interpret it.
  \<^item> IntrusiveLinkedList and ObserverManager: the list of message queues on an explicit heap of
    hooks, and the list of observers.
  \<^item> TransactionPool (TransactionPool.cpp): the pool as a record with the sorted set of
    transactions, the recently deleted ones and the spent key images and outputs; the validator
    that the pool asks about the chain is the record \<open>ITransactionValidator\<close>, an argument.  Its
    operations are the steps of the relation \<open>pool_step\<close>.
  \<^item> Blockchain (OrbisCore/Blockchain.cpp): the blocks and the tables beside them as a record,
    the checks of transactions and blocks, pushing and popping, rebuilding of the tables.  What the
    chain asks of other code (currency, hashes, time) is the record \<open>chain_env\<close>.
  \<^item> AlternativeChains (the rest of Blockchain.cpp that changes the chain): alternative blocks,
    the switch between chains with its rollback, \<open>addNewBlock\<close>.
  \<^item> BlockchainCache, ChainInvariant, ForkChoice, SwitchDepth: lemmas on the two theories above.  The first
    describes the tables as a function of the blocks, the second holds the invariant \<open>chain_inv\<close>
    and what a push and a pop do to it, the third has the consistency \<open>chain_ok\<close> of chain and
    alternative blocks and the relation \<open>reachable_chain\<close> of what a node can reach, the last bounds
    the nested calls.

  \<^bold>\<open>What is shown.\<close>  Formats: transactions, blocks, addresses, extra fields, amounts and variable
  length integers are written and read back, and what is accepted is exactly what is written.
  Hashes: the optimised code computes the specified permutation, sponge and tree.  Money: sums,
  fees, rewards and difficulties are exact in spite of wrap-around, and constructed transactions
  pay what they are asked to pay and are found by the receiver.  Chain: checkpoints, block index
  and the other indices refine maps and lists, two nodes always find a common block.  In every
  reachable state the tables are those of the blocks, no output is spent twice, each block follows
  its predecessor; a pop undoes a push, a rebuild gives the tables that are kept, and the main chain
  is replaced only by one with more work.  These theorems are about a set of blocks and transactions
  without colliding hashes (\<open>world_ok\<close>) and about calls that return without an exception.  Pool: no
  sequence of operations leads to two unconfirmed transactions that spend the same output, and
  block templates hold only compatible, ready transactions within the limits.

  \<^bold>\<open>Not modelled.\<close>  Curve arithmetic (orbis-ops.c) and the slow hash with its parts: their
  correctness is a matter of field arithmetic and of ciphers, and the modelled code uses them only
  as functions.  Network, remote procedure calls, console programs, logging and the platform
  layer: input, output and scheduling.  Storage of blocks in files and the wallet's files, and the
  queries of Blockchain.cpp that only serve the network and remote calls.
\<close>

section \<open>Examples the witnesses use\<close>

definition ex_key :: blob where
  "ex_key = replicate 32 7"

definition ex_coinbase :: Transaction where
  "ex_coinbase = \<lparr>version = 1, unlockTime = 70, inputs = [VBaseInput \<lparr>blockIndex = 10\<rparr>],
    outputs = [\<lparr>to_amount = 300, to_target = VKeyOutput \<lparr>ko_key = ex_key\<rparr>\<rparr>], extra = [1, 2, 3], signatures = [[]]\<rparr>"

definition ex_transfer :: Transaction where
  "ex_transfer = \<lparr>version = 1, unlockTime = 0,
    inputs = [VKeyInput \<lparr>ki_amount = 500, outputIndexes = [3, 2], keyImage = replicate 32 9\<rparr>],
    outputs = [\<lparr>to_amount = 400, to_target = VKeyOutput \<lparr>ko_key = ex_key\<rparr>\<rparr>], extra = [],
    signatures = [[replicate 64 1, replicate 64 2]]\<rparr>"

definition ex_block :: Block where
  "ex_block = \<lparr>majorVersion = 1, minorVersion = 0, nonce = 77, timestamp = 1500000000, previousBlockHash = replicate 32 5,
    baseTransaction = ex_coinbase, transactionHashes = [replicate 32 6]\<rparr>"

definition ex_address :: AccountPublicAddress where
  "ex_address = \<lparr>spendPublicKey = ex_key, viewPublicKey = replicate 32 8\<rparr>"

definition ex_account :: AccountKeys where
  "ex_account = \<lparr>ak_address = ex_address, spendSecretKey = replicate 32 3, viewSecretKey = replicate 32 4\<rparr>"

text \<open>Functions on keys for which every derivation exists and both sides of it agree.\<close>

definition ex_crypto :: crypto where
  "ex_crypto = \<lparr>check_key = (\<lambda>k. length k = 32), generate_key_derivation = (\<lambda>_ _. Some (replicate 32 1)),
    derive_public_key = (\<lambda>_ _ k. Some k), derive_secret_key = (\<lambda>_ _ k. k), generate_key_image = (\<lambda>k _. k),
    generate_ring_signature = (\<lambda>_ _ ks _ _. map (\<lambda>_. replicate 64 0) ks)\<rparr>"

definition ex_currency :: currency where
  "ex_currency = projr (CurrencyBuilder 111 1000)"

lemmas ex_defs = ex_key_def ex_coinbase_def ex_transfer_def ex_block_def ex_address_def ex_account_def ex_crypto_def

lemmas ok_simps = ok_Transaction_def ok_TransactionPrefix_def list_ok_def ok_KeyInput_def ok_TransactionOutput_def
  ok_signatures_def getSignaturesCount_def CURRENT_TRANSACTION_VERSION_def ok_Block_def ok_BlockHeader_def
  BLOCK_MAJOR_VERSION_1_def TransactionPrefix.defs BlockHeader.defs

lemma ex_transfer_ok: "ok_Transaction ex_transfer"
  by (simp add: ok_simps ex_defs)

lemma ex_block_ok: "ok_Block ex_block"
  by (simp add: ok_simps ex_defs)

lemma ex_currency_values:
  "m_defaultDustThreshold ex_currency = 1000" "m_moneySupply ex_currency = 11110000000000000000"
  "m_emissionSpeedFactor ex_currency = 21" "m_blockGrantedFullRewardZone ex_currency = 10000"
  "m_difficultyWindow ex_currency = 778" "m_difficultyCut ex_currency = 60" "m_difficultyTarget ex_currency = 111"
  "m_minedMoneyUnlockWindow ex_currency = 60"
  using builder_values [of 111 1000] by (auto simp: ex_currency_def)

section \<open>The binary format of transactions and blocks\<close>

text \<open>
  (C9) A transaction is stored and loaded without loss: a well-formed transaction serializes to its
  format, and the format deserializes, all bytes used, to the same transaction.
\<close>

theorem transaction_roundtrip:
  assumes "ok_Transaction x"
  shows "toBinaryArray out_Transaction x = Some (fmt_Transaction x)
    \<and> fromBinaryArray in_Transaction (fmt_Transaction x) = Some x"
  using tx.toBinaryArray_fmt [OF assms] tx.from_to [OF assms] by blast

theorem transaction_roundtrip_witness:
  "ok_Transaction ex_transfer \<and> toBinaryArray out_Transaction ex_transfer = Some (fmt_Transaction ex_transfer)
    \<and> fromBinaryArray in_Transaction (fmt_Transaction ex_transfer) = Some ex_transfer"
  using transaction_roundtrip [OF ex_transfer_ok] ex_transfer_ok by blast

text \<open>
  (C10) A transaction has one binary form: bytes are accepted only if they are the format of the
  well-formed transaction they give, so that the hash of the received bytes is the hash of the
  transaction, and the second hash is that of its prefix.
\<close>

theorem transaction_parse_unique:
  assumes "parseAndValidateTransactionFromBinaryArray bytes = Some (t, h, ph)"
  shows "ok_Transaction t \<and> bytes = fmt_Transaction t \<and> h = getObjectHash_value out_Transaction t
    \<and> ph = cn_fast_hash (fmt_TransactionPrefix (TransactionPrefix.truncate t))"
  by (rule parse_transaction_hash [OF assms])

theorem transaction_parse_unique_witness:
  "\<exists>h ph. parseAndValidateTransactionFromBinaryArray (fmt_Transaction ex_transfer) = Some (ex_transfer, h, ph)
    \<and> h = getObjectHash_value out_Transaction ex_transfer"
proof -
  let ?b = "fmt_Transaction ex_transfer"
  let ?ph = "getObjectHash_value out_TransactionPrefix (TransactionPrefix.truncate ex_transfer)"
  have p: "parseAndValidateTransactionFromBinaryArray ?b = Some (ex_transfer, cn_fast_hash ?b, ?ph)"
    using tx.from_to [OF ex_transfer_ok] by (simp add: parseAndValidateTransactionFromBinaryArray_def)
  with transaction_parse_unique [OF p] show ?thesis by blast
qed



text \<open>
  (C12) A block is stored and loaded without loss, and its bytes determine it.
\<close>

theorem block_format:
  "ok_Block b \<and> bytes = fmt_Block b \<longleftrightarrow> fromBinaryArray in_Block bytes = Some b"
  using block.from_to [of b] block.from_sound [of bytes b] by blast

text \<open>
  (C13) The bytes that are hashed to get the id and the proof of work of a block commit to its header, to
  the root of the tree of its transactions and to their number.
\<close>

theorem block_hash_commits:
  assumes "ok_Block b" and "ok_Block c" and "get_block_hashing_blob b = get_block_hashing_blob c"
    and "length (transactionHashes b) + 1 < 2 ^ 64" and "length (transactionHashes c) + 1 < 2 ^ 64"
  shows "BlockHeader.truncate b = BlockHeader.truncate c \<and> get_block_tx_tree_hash b = get_block_tx_tree_hash c
    \<and> length (transactionHashes b) = length (transactionHashes c)"
  using hashing_blob_commits [OF assms] .

theorem block_hash_commits_witness:
  "ok_Block ex_block \<and> get_block_tx_tree_hash ex_block = get_block_tx_tree_hash ex_block
    \<and> length (transactionHashes ex_block) = length (transactionHashes ex_block)"
  using block_hash_commits [OF ex_block_ok ex_block_ok refl] ex_block_ok by (simp add: ex_block_def)

section \<open>Addresses and Base58\<close>

text \<open>
  (C14) A text is accepted as an address exactly if it is the text that is printed for the address it
  gives, the address is well formed and both of its keys are valid points.
\<close>

theorem address_text_iff:
  "parseAccountAddressString C str = Some (prefix, adr) \<longleftrightarrow>
    str = getAccountAddressAsStr prefix adr \<and> ok_AccountPublicAddress adr
    \<and> check_key C (spendPublicKey adr) \<and> check_key C (viewPublicKey adr)"
  using address_roundtrip address_unique by blast

text \<open>
  (C15) Base58 texts and byte strings correspond one to one: a text decodes to some bytes exactly if it
  is the encoding of these bytes.
\<close>

theorem base58_iff: "decode enc = Some bytes \<longleftrightarrow> enc = encode bytes"
  using decode_encode encode_decode by blast

section \<open>Hashes\<close>

text \<open>
  (C16) The permutation in \<^verbatim>\<open>keccakf\<close>, with its tables of rotations and lane positions and its in-place
  updates, is the composition of the five steps theta, rho, pi, chi and iota of the Keccak specification
  on the 5 by 5 lanes, for every number of rounds.
\<close>

theorem keccakf_is_specified:
  "keccakf (state_of A) rounds = state_of (fold (\<lambda>round. spec_round (keccakf_rndc ! round)) [0..<rounds] A)"
  by (rule keccakf_spec)

text \<open>
  (C17) The hash function absorbs, block by block, the message followed by the padding, and the padding
  loses nothing: messages with the same padded text are the same.
\<close>

theorem keccak_is_sponge:
  "keccak1600 message = concat (map (le_bytes 8)
      (foldl (absorb HASH_DATA_AREA) (replicate 25 0) (blocks HASH_DATA_AREA (keccak_pad HASH_DATA_AREA message))))
    \<and> (keccak_pad HASH_DATA_AREA message = keccak_pad HASH_DATA_AREA other \<longleftrightarrow> message = other)"
  using keccak1600_sponge keccak_pad_inj [of HASH_DATA_AREA message other] by (auto simp: HASH_DATA_AREA_def)

text \<open>
  (C18) The tree hash is the root of a Merkle tree: with at least \<open>2\<^sup>n\<close> and less than \<open>2\<^sup>n\<^sup>+\<^sup>1\<close> leaves, as many
  leaves as needed are paired at the end of the list to leave \<open>2\<^sup>n\<close> nodes, and these are hashed in pairs
  up to the root.
\<close>

theorem tree_hash_is_merkle:
  assumes "2 ^ n \<le> length hashes" and "length hashes < 2 ^ Suc n" and "length hashes < 2 ^ 64"
  shows "tree_hash hashes = Some (merkle_root (merkle_level n hashes))"
  by (rule tree_hash_merkle [OF assms])

theorem tree_hash_is_merkle_witness:
  "tree_hash [[1], [2], [3]] = Some (merkle_root (merkle_level 1 [[1], [2], [3]]))"
  using tree_hash_is_merkle [of 1 "[[1], [2], [3]]"] by simp

text \<open>
  (C19) A branch proves the first leaf: the hash that is computed from the branch of the tree and the
  first leaf is the hash of the tree.
\<close>

theorem tree_branch_proves:
  assumes "hashes \<noteq> []" and "length hashes < 2 ^ 64"
  shows "\<exists>branch. tree_branch hashes = Some branch
    \<and> tree_hash hashes = Some (tree_hash_from_branch branch (tree_depth (of_nat (length hashes))) (hashes ! 0) None)"
  by (rule tree_branch_root [OF assms])

theorem tree_branch_proves_witness:
  "\<exists>branch. tree_branch [[1], [2], [3]] = Some branch
    \<and> tree_hash [[1], [2], [3]] = Some (tree_hash_from_branch branch (tree_depth (of_nat (length [[1], [2], [3 :: u8]]))) ([[1], [2], [3]] ! 0) None)"
  by (rule tree_branch_proves) simp_all

section \<open>Numbers and streams\<close>

text \<open>
  (C20) The 128 bit product of two 64 bit numbers is exact, and the division of a 128 bit number by a 32
  bit number gives the exact quotient and remainder.
\<close>

theorem wide_arithmetic_exact:
  assumes "mul128 x y = (lo, hi)" and "divisor \<noteq> 0"
  shows "unat hi * 2 ^ 64 + unat lo = unat x * unat y
    \<and> (\<exists>r qh ql. div128_32 hi lo divisor = Some (r, qh, ql)
       \<and> (unat qh * 2 ^ 64 + unat ql) * unat divisor + unat r = unat x * unat y \<and> unat r < unat divisor)"
  using mul128_exact [OF assms(1)] div128_32_exact [OF assms(2), of hi lo] by auto

theorem wide_arithmetic_exact_witness:
  "\<exists>lo hi r qh ql. mul128 (2 ^ 40) (2 ^ 40) = (lo, hi) \<and> div128_32 hi lo 3 = Some (r, qh, ql)
    \<and> (unat qh * 2 ^ 64 + unat ql) * 3 + unat r = 2 ^ 80"
proof -
  obtain lo hi where m: "mul128 (2 ^ 40) (2 ^ 40) = (lo, hi)" by fastforce
  have "(3 :: u32) \<noteq> 0" by simp
  from wide_arithmetic_exact [OF m this] obtain r qh ql where d: "div128_32 hi lo 3 = Some (r, qh, ql)"
      "(unat qh * 2 ^ 64 + unat ql) * unat (3 :: u32) + unat r = unat (2 ^ 40 :: u64) * unat (2 ^ 40 :: u64)" by blast
  have "(unat qh * 2 ^ 64 + unat ql) * 3 + unat r = 2 ^ 80" using d(2) by simp
  with m d(1) show ?thesis by blast
qed

text \<open>
  Variable length integers: what is written for a number is read back, whatever follows, and the
  count of bytes is right.
\<close>

theorem varint_roundtrip:
  "read_varint (get_varint_data v @ rest) = (int (length (get_varint_data v)), v)" for v :: u64
  by (rule read_varint_write)

text \<open>
  (C21) Reading \<open>n\<close> bytes from a stream through any number of partial reads gives exactly the next \<open>n\<close>
  bytes and leaves the rest, or fails when there are fewer; it never loops.
\<close>

theorem stream_read_total:
  assumes "mis_ok s"
  shows "if n \<le> length (unread s)
    then \<exists>s'. read readSome s n = Inr (take n (unread s), s') \<and> unread s' = drop n (unread s) \<and> mis_ok s'
    else read readSome s n = Inl ReadFailed"
  using mis.read_total [OF assms, of n] by simp

theorem stream_read_total_witness:
  "mis_ok (MemoryInputStream [1, 2, 3])
    \<and> (\<exists>s'. read readSome (MemoryInputStream [1, 2, 3]) 2 = Inr ([1, 2], s') \<and> unread s' = [3])
    \<and> read readSome (MemoryInputStream [1, 2, 3]) 4 = Inl ReadFailed"
proof -
  have ok: "mis_ok (MemoryInputStream [1, 2, 3])" by (simp add: mis_ok_def MemoryInputStream_def)
  have u: "unread (MemoryInputStream [1, 2, 3]) = [1, 2, 3]" by (simp add: unread_def MemoryInputStream_def)
  from ok stream_read_total [OF ok, of 2] stream_read_total [OF ok, of 4] show ?thesis unfolding u by auto
qed

section \<open>Amounts, fees and rewards\<close>

text \<open>
  (C22) The reward of a block: with the median and the size of the block in range, the reward is the
  base reward (the unmined part of the supply, shifted by the emission factor) plus the fees, both
  reduced by the penalty for size; the coins generated grow by the reward without the fees and never
  exceed the supply.
\<close>

theorem block_reward_exact:
  fixes c :: currency
  assumes "m_emissionSpeedFactor c < 64" and "gen \<le> m_moneySupply c" and "fee \<le> gen"
    and "0 < max (unat median) (unat (m_blockGrantedFullRewardZone c))"
    and "max (unat median) (unat (m_blockGrantedFullRewardZone c)) < 2 ^ 32"
    and "unat cur < 2 ^ 32" and "unat cur \<le> 2 * max (unat median) (unat (m_blockGrantedFullRewardZone c))"
  shows "\<exists>reward emission. getBlockReward c median cur gen fee = Some (Some (reward, emission))
    \<and> unat reward = penalized (base_reward c gen) (max (unat median) (unat (m_blockGrantedFullRewardZone c))) (unat cur)
        + penalized (unat fee) (max (unat median) (unat (m_blockGrantedFullRewardZone c))) (unat cur)
    \<and> reward = fee + emission
    \<and> unat (gen + emission) + unat fee = unat gen + unat reward
    \<and> unat (gen + emission) \<le> unat (m_moneySupply c)"
  by (rule block_reward [OF assms])

theorem block_reward_exact_witness:
  "\<exists>reward emission. getBlockReward ex_currency 20000 30000 1000000 500 = Some (Some (reward, emission))
    \<and> reward = 500 + emission \<and> unat (1000000 + emission) \<le> unat (m_moneySupply ex_currency)"
proof -
  have "m_emissionSpeedFactor ex_currency < 64" "(1000000 :: u64) \<le> m_moneySupply ex_currency" "(500 :: u64) \<le> 1000000"
    "0 < max (unat (20000 :: u64)) (unat (m_blockGrantedFullRewardZone ex_currency))"
    "max (unat (20000 :: u64)) (unat (m_blockGrantedFullRewardZone ex_currency)) < 2 ^ 32"
    "unat (30000 :: u64) < 2 ^ 32" "unat (30000 :: u64) \<le> 2 * max (unat (20000 :: u64)) (unat (m_blockGrantedFullRewardZone ex_currency))"
    by (simp_all add: ex_currency_values)
  from block_reward_exact [OF this] show ?thesis by blast
qed

text \<open>
  (C23) The transaction of the miner: it is made whenever the reward is defined and the keys can be
  derived, it claims the height of the block, pays out exactly the reward in at most the given number of
  outputs, and locks the money for the window of the currency.
\<close>

theorem miner_transaction:
  assumes "getBlockReward c median cur gen fee = Some (Some (reward, emission))"
    and "1 \<le> maxOuts" and "length extraNonce \<le> 255"
    and "generate_key_derivation C (viewPublicKey a) (kp_secretKey txkey) = Some D"
    and "\<forall>n. derive_public_key C D n (spendPublicKey a) \<noteq> None"
  shows "\<exists>t. constructMinerTx C txkey c height median gen cur fee a t0 extraNonce maxOuts = Some (Some t)
    \<and> inputs t = [VBaseInput \<lparr>blockIndex = height\<rparr>] \<and> getOutputAmount t = reward \<and> length (outputs t) \<le> maxOuts
    \<and> unlockTime t = ucast height + m_minedMoneyUnlockWindow c \<and> version t = CURRENT_TRANSACTION_VERSION"
  by (rule miner_tx [OF assms])

theorem miner_transaction_witness:
  "\<exists>reward emission t. getBlockReward ex_currency 0 0 0 0 = Some (Some (reward, emission))
    \<and> constructMinerTx ex_crypto \<lparr>kp_publicKey = ex_key, kp_secretKey = ex_key\<rparr> ex_currency 5 0 0 0 0 ex_address empty_Transaction [] 10
      = Some (Some t) \<and> getOutputAmount t = reward \<and> length (outputs t) \<le> 10"
proof -
  obtain reward emission where r: "getBlockReward ex_currency 0 0 0 0 = Some (Some (reward, emission))"
    using block_reward [of ex_currency 0 0 0 0] by (auto simp: ex_currency_values)
  have n: "(1 :: nat) \<le> 10" "length ([] :: blob) \<le> 255" by simp_all
  have d: "generate_key_derivation ex_crypto (viewPublicKey ex_address)
      (kp_secretKey \<lparr>kp_publicKey = ex_key, kp_secretKey = ex_key\<rparr>) = Some (replicate 32 1)"
    by (simp add: ex_crypto_def)
  have k: "\<forall>n. derive_public_key ex_crypto (replicate 32 1) n (spendPublicKey ex_address) \<noteq> None" by (simp add: ex_crypto_def)
  from miner_transaction [OF r n d k, of 5 empty_Transaction] r show ?thesis by blast
qed

text \<open>
  An amount is split into its decimal digits without loss: the parts add up to the amount, each
  part is a digit from 1 to 9 times a power of ten or the one amount of dust, which is at most the
  threshold.
\<close>

theorem decompose_amount:
  "parts_sum (decompose_amount_into_digits amount threshold) = unat amount
    \<and> list_all (good_part threshold) (decompose_amount_into_digits amount threshold)"
  using decompose_sum decompose_good by blast

text \<open>
  (C24) The fee: where the overflow check accepts a transaction, the sums of its amounts are exact, and
  the fee is the difference of the sums, or the transaction spends more than it has.
\<close>

theorem fee_exact:
  assumes "check_money_overflow t"
  shows "sum_list (in_amounts t) < 2 ^ 64 \<and> sum_list (out_amounts t) < 2 ^ 64
    \<and> get_tx_fee t = (if sum_list (out_amounts t) \<le> sum_list (in_amounts t)
      then Some (of_nat (sum_list (in_amounts t) - sum_list (out_amounts t))) else None)"
  using assms get_tx_fee_exact [OF assms] check_money_overflow_iff [of t] by blast

theorem fee_exact_witness:
  "check_money_overflow ex_transfer \<and> get_tx_fee ex_transfer = Some 100"
proof -
  have "check_money_overflow ex_transfer" by (simp add: check_money_overflow_iff in_amounts_def out_amounts_def ex_defs map_filter_simps)
  with fee_exact [OF this] show ?thesis by (simp add: in_amounts_def out_amounts_def ex_defs map_filter_simps)
qed



definition ex_fusion :: Transaction where
  "ex_fusion = ex_transfer\<lparr>inputs := [VKeyInput \<lparr>ki_amount = 2000, outputIndexes = [3], keyImage = replicate 32 9\<rparr>,
      VKeyInput \<lparr>ki_amount = 3000, outputIndexes = [4], keyImage = replicate 32 10\<rparr>],
    outputs := [\<lparr>to_amount = 5000, to_target = VKeyOutput \<lparr>ko_key = ex_key\<rparr>\<rparr>]\<rparr>"


text \<open>
  An amount may be an input of a fusion transaction exactly if it lies between the dust threshold
  and the given threshold and is one digit times a power of ten; the exponent is returned.
\<close>

theorem fusion_input_amounts:
  "isAmountApplicableInFusionTransactionInput c amount threshold = Some p \<longleftrightarrow>
    amount < threshold \<and> m_defaultDustThreshold c \<le> amount \<and> (\<exists>d. 1 \<le> d \<and> d \<le> 9 \<and> unat amount = d * 10 ^ unat p)"
  by (rule fusion_input_iff)

text \<open>
  (C26) The text that is printed for an amount is parsed to the same amount, for every number of decimal
  places.
\<close>

theorem amount_text_roundtrip: "parseAmount c (formatAmount c amount) = Some amount"
  by (rule amount_roundtrip)

section \<open>Difficulty\<close>

text \<open>
  (C27) The next difficulty: from two blocks on, with the outliers of the sorted times cut off, it is the
  work done between the first and the last remaining block times the target, divided by the time this
  took (at least one second) and rounded up; where the numerator does not fit 64 bits the result is 0.
\<close>

theorem next_difficulty_exact:
  fixes c :: currency
  assumes "2 * m_difficultyCut c + 2 \<le> m_difficultyWindow c"
    and "2 \<le> length ts" and "length ts \<le> m_difficultyWindow c" and "length cd = length ts"
    and "cut_range c (length ts) = (b, e)"
  shows "\<exists>d. nextDifficulty c ts cd = Some d \<and>
    (let span = max 1 (unat (sort ts ! (e - 1)) - unat (sort ts ! b));
         work = unat (cd ! (e - 1) - cd ! b) * unat (m_difficultyTarget c)
     in unat d = (if work + span - 1 < 2 ^ 64 then (work + span - 1) div span else 0))"
  unfolding Let_def by (rule next_difficulty [OF assms])

theorem next_difficulty_exact_witness:
  "\<exists>d. nextDifficulty ex_currency [1000, 1500] [10, 60] = Some d \<and> unat d = 12"
proof -
  have h: "2 * m_difficultyCut ex_currency + 2 \<le> m_difficultyWindow ex_currency"
    "2 \<le> length [1000, 1500 :: u64]" "length [1000, 1500 :: u64] \<le> m_difficultyWindow ex_currency"
    "length [10, 60 :: u64] = length [1000, 1500 :: u64]" "cut_range ex_currency (length [1000, 1500 :: u64]) = (0, 2)"
    by (simp_all add: ex_currency_values cut_range_def)
  from next_difficulty_exact [OF h] show ?thesis by (simp add: ex_currency_values)
qed

text \<open>
  (C28) The proof of work: the check that multiplies the hash, limb by limb, by the difficulty accepts a
  block exactly if the number its hash stands for times the difficulty is below \<open>2\<^sup>2\<^sup>5\<^sup>6\<close>.
\<close>

theorem proof_of_work_bound:
  "checkProofOfWork slow b d \<longleftrightarrow>
    (\<exists>bytes. get_block_hashing_blob b = Some bytes \<and> hash_number (slow bytes) * unat d < 2 ^ 256)"
  by (rule proof_of_work_iff)

section \<open>Construction of transactions\<close>

definition ex_source :: TransactionSourceEntry where
  "ex_source = \<lparr>se_outputs = [(3, ex_key), (5, replicate 32 2)], realOutput = 0, realTransactionPublicKey = replicate 32 4,
    realOutputIndexInTransaction = 1, se_amount = 900\<rparr>"

definition ex_destination :: TransactionDestinationEntry where
  "ex_destination = \<lparr>de_amount = 800, addr = ex_address\<rparr>"

definition ex_txkey :: KeyPair where
  "ex_txkey = \<lparr>kp_publicKey = replicate 32 6, kp_secretKey = replicate 32 5\<rparr>"

lemmas construct_defs = constructTransaction_def construct_input_def generate_key_image_helper_def
  ex_source_def ex_destination_def ex_txkey_def ex_account_def ex_address_def ex_crypto_def

lemma ex_constructed: "\<exists>t. constructTransaction ex_crypto ex_txkey ex_account [ex_source] [ex_destination] [] 0 = Some t"
  by (simp add: construct_defs Let_def ex_key_def)

text \<open>
  (C29) A constructed transaction spends the amounts of its sources and pays the amounts of its
  destinations, in ascending order and none of them zero; the fee is the difference.
\<close>

theorem constructed_amounts:
  assumes "constructTransaction C txkey keys srcs dsts e u = Some t"
  shows "map input_amount (inputs t) = map (Some \<circ> se_amount) srcs \<and> map to_amount (outputs t) = sort (map de_amount dsts)
    \<and> 0 \<notin> set (map to_amount (outputs t))
    \<and> get_tx_fee t = Some (sum_list (map se_amount srcs) - sum_list (map de_amount dsts))"
  using construct_amounts [OF assms] by blast

theorem constructed_amounts_witness:
  "\<exists>t. constructTransaction ex_crypto ex_txkey ex_account [ex_source] [ex_destination] [] 0 = Some t
    \<and> map to_amount (outputs t) = [800] \<and> get_tx_fee t = Some 100"
proof -
  obtain t where t: "constructTransaction ex_crypto ex_txkey ex_account [ex_source] [ex_destination] [] 0 = Some t"
    using ex_constructed by blast
  with constructed_amounts [OF t] show ?thesis by (auto simp: ex_source_def ex_destination_def)
qed



text \<open>
  The offsets of the outputs an input refers to: the relative offsets in the transaction give back
  the absolute ones, sorted.
\<close>

theorem output_offsets_roundtrip:
  "relative_output_offsets_to_absolute (absolute_output_offsets_to_relative off) = sort off"
  by (rule offsets_roundtrip)

section \<open>The extra field\<close>



text \<open>
  A payment id that is put into the extra field, from its hexadecimal text, is found there again.
\<close>

theorem payment_id_found:
  assumes "length h = 32"
  shows "\<exists>e. createTxExtraWithPaymentId (podToHex h) [] = Some e \<and> getPaymentIdFromTxExtra e = Some h"
  by (rule payment_id_roundtrip [OF assms])

theorem payment_id_found_witness:
  "\<exists>e. createTxExtraWithPaymentId (podToHex ex_key) [] = Some e \<and> getPaymentIdFromTxExtra e = Some ex_key"
  by (rule payment_id_found) (simp add: ex_key_def)

section \<open>The chain\<close>



text \<open>
  The index of the chain is a stack of distinct hashes: a push of a new hash succeeds, makes it the
  tail and is undone by a pop; a push of a known hash fails and changes nothing.
\<close>

theorem block_index_push:
  assumes "index_ok b" and "length (m_container b) + 1 < 2 ^ 32" and "push b h = (r, b')"
  shows "index_ok b' \<and> hasBlock b' h \<and> (r \<longleftrightarrow> \<not> hasBlock b h) \<and> (r \<longrightarrow> pop b' = Some b \<and> getTailId b' = Some h)
    \<and> (\<not> r \<longrightarrow> b' = b)"
  by (rule push_ok [OF assms])

theorem block_index_push_witness:
  "\<exists>b'. push \<lparr>m_container = [[1]]\<rparr> [2] = (True, b') \<and> pop b' = Some \<lparr>m_container = [[1]]\<rparr> \<and> getTailId b' = Some [2]"
proof -
  have "index_ok \<lparr>m_container = [[1]]\<rparr>" "length (m_container \<lparr>m_container = [[1 :: u8]]\<rparr>) + 1 < 2 ^ 32"
    "push \<lparr>m_container = [[1]]\<rparr> [2] = (True, \<lparr>m_container = [[1], [2]]\<rparr>)"
    by (simp_all add: index_ok_def push_def)
  from block_index_push [OF this] show ?thesis by (simp add: push_def)
qed

text \<open>
  (C33) Two nodes with the same genesis block always find where their chains meet: the sparse chain that
  one node builds from any of its blocks has a block that the other node finds, and this block is one of
  both chains.
\<close>

theorem chains_meet:
  assumes "index_ok b" and "index_ok remote" and "n < length (m_container remote)"
    and "m_container b \<noteq> []" and "m_container b ! 0 = m_container remote ! 0"
  shows "\<exists>chain offset h. buildSparseChain remote (m_container remote ! n) = Some chain
    \<and> findSupplement b chain = Some offset \<and> getBlockId b offset = Some h \<and> hasBlock remote h"
  by (rule supplement_common [OF assms])

theorem chains_meet_witness:
  "\<exists>chain offset h. buildSparseChain \<lparr>m_container = [[1], [2], [3]]\<rparr> [3] = Some chain
    \<and> findSupplement \<lparr>m_container = [[1], [4]]\<rparr> chain = Some offset \<and> getBlockId \<lparr>m_container = [[1], [4]]\<rparr> offset = Some h
    \<and> hasBlock \<lparr>m_container = [[1], [2], [3]]\<rparr> h"
proof -
  have "index_ok \<lparr>m_container = [[1], [4]]\<rparr>" "index_ok \<lparr>m_container = [[1], [2], [3]]\<rparr>"
    "2 < length (m_container \<lparr>m_container = [[1], [2], [3 :: u8]]\<rparr>)" "m_container \<lparr>m_container = [[1], [4 :: u8]]\<rparr> \<noteq> []"
    "m_container \<lparr>m_container = [[1], [4 :: u8]]\<rparr> ! 0 = m_container \<lparr>m_container = [[1], [2], [3 :: u8]]\<rparr> ! 0"
    by (simp_all add: index_ok_def)
  from chains_meet [OF this] show ?thesis by simp
qed

section \<open>Indices and containers\<close>

text \<open>
  (C34) The index of transaction counts refines the list of the blocks' counts: adding the next block
  extends the list, removing the last block shortens it, any other block is refused, and a search gives
  the number of transactions up to a height, coinbase transactions included.
\<close>

theorem generated_index_refines:
  assumes "generated_rel counts i" and "base_height b = Some h" and "length counts + 1 < 2 ^ 32"
  shows "(if unat h = length counts
      then \<exists>i'. generated_add b i = Some (True, i') \<and> generated_rel (counts @ [length (transactionHashes b)]) i'
      else generated_add b i = Some (False, i))
    \<and> (if counts \<noteq> [] \<and> unat h = length counts - 1
      then \<exists>i'. generated_remove b i = Some (True, i') \<and> generated_rel (butlast counts) i'
      else generated_remove b i = Some (False, i))
    \<and> generated_find k i = (if unat k < length counts then Some (generated_total (take (Suc (unat k)) counts)) else None)"
  using generated_add_rel [OF assms] generated_remove_rel [OF assms(1,2)] generated_find_rel [OF assms(1)] by blast

theorem generated_index_refines_witness:
  "base_height (ex_block\<lparr>baseTransaction := ex_coinbase\<lparr>inputs := [VBaseInput \<lparr>blockIndex = 0\<rparr>]\<rparr>\<rparr>) = Some 0
    \<and> (\<exists>i'. generated_add (ex_block\<lparr>baseTransaction := ex_coinbase\<lparr>inputs := [VBaseInput \<lparr>blockIndex = 0\<rparr>]\<rparr>\<rparr>)
        empty_GeneratedTransactionsIndex = Some (True, i') \<and> generated_rel [1] i')"
proof -
  let ?b = "ex_block\<lparr>baseTransaction := ex_coinbase\<lparr>inputs := [VBaseInput \<lparr>blockIndex = 0\<rparr>]\<rparr>\<rparr>"
  have b: "base_height ?b = Some 0" by (simp add: base_height_def)
  have l: "length ([] :: nat list) + 1 < 2 ^ 32" by simp
  from generated_index_refines [OF generated_empty b l, of 0] b show ?thesis by (simp add: ex_block_def)
qed

text \<open>
  (C35) The payment id index is undone in any order: when transactions were added to it and the same
  transactions are removed, in whatever order a reorganization does this, the entries are as before.
\<close>

theorem payment_index_undo:
  assumes "mset ys = mset xs"
  shows "mset (pi_index (fold (\<lambda>t i. snd (payment_remove t i)) ys (fold (\<lambda>t i. snd (payment_add t i)) xs i))) = mset (pi_index i)"
  by (rule pay.undo_any_order [OF assms])

theorem payment_index_undo_witness:
  "mset (pi_index (fold (\<lambda>t i. snd (payment_remove t i)) [ex_fusion, ex_transfer]
    (fold (\<lambda>t i. snd (payment_add t i)) [ex_transfer, ex_fusion] \<lparr>pi_index = [(ex_key, ex_key)]\<rparr>))) = {#(ex_key, ex_key)#}"
proof -
  have "mset [ex_fusion, ex_transfer] = mset [ex_transfer, ex_fusion]" by simp
  from payment_index_undo [OF this, of "\<lparr>pi_index = [(ex_key, ex_key)]\<rparr>"] show ?thesis by simp
qed

text \<open>
  (C40) The intrusive list implements a list of distinct values on the heap: an unused value is appended
  at the end and a value of the list is unlinked wherever it stands, with all the pointers of its
  neighbours; a removed value may be inserted again, and the search always returns.
\<close>

theorem intrusive_list_refines:
  assumes "list_rep l xs"
  shows "(if used (hooks l v) then list_insert v l = Some (False, l)
      else \<exists>l'. list_insert v l = Some (True, l') \<and> list_rep l' (xs @ [v]))
    \<and> (if v \<in> set xs then \<exists>l'. list_remove v l = Some (True, l') \<and> list_rep l' (remove1 v xs) \<and> \<not> used (hooks l' v)
      else list_remove v l = Some (False, l))"
  using list_insert_used [of l v] list_insert_rep [OF assms, of v] list_remove_absent [OF assms, of v] list_remove_rep [OF assms, of v]
  by auto

theorem intrusive_list_refines_witness:
  "\<exists>l'. list_insert (7 :: nat) (empty_list (\<lambda>_. new_hook)) = Some (True, l') \<and> list_rep l' [7]"
  using intrusive_list_refines [OF list_rep_empty, of "\<lambda>_. new_hook" "7 :: nat"] by (simp add: empty_list_def new_hook_def)

section \<open>The transaction pool\<close>

definition ex_validator :: ITransactionValidator where
  "ex_validator = \<lparr>checkTransactionInputs = (\<lambda>_ b. (True, b)), recheckTransactionInputs = (\<lambda>_ i. (True, i)),
    haveSpentKeyImages = (\<lambda>_. False), checkTransactionSize = (\<lambda>_. True)\<rparr>"

definition ex_tvc :: tx_verification_context where
  "ex_tvc = \<lparr>m_should_be_relayed = False, m_verifivation_failed = False, m_verifivation_impossible = False,
    m_added_to_pool = False, m_tx_fee_too_small = False\<rparr>"

lemma ex_transfer_images: "distinct (images_of (inputs ex_transfer))"
  by (simp add: ex_transfer_def map_filter_simps)

lemma ex_transfer_accepted: "accepts ex_currency ex_validator ex_transfer ex_key 300 True new_pool"
  by (simp add: accepts_def ex_transfer_def check_inputs_types_supported_def get_outs_money_amount_def get_inputs_money_amount_def)

lemma ex_pool: "\<exists>tvc p. add_tx ex_currency ex_validator 10 ex_transfer ex_key 300 ex_tvc True new_pool = (True, tvc, p)
    \<and> m_transactions p = [pool_entry ex_validator 10 ex_transfer ex_key 300 True] \<and> reachable_pool ex_currency p"
proof -
  obtain r tvc p where a: "add_tx ex_currency ex_validator 10 ex_transfer ex_key 300 ex_tvc True new_pool = (r, tvc, p)"
    by (metis prod_cases3)
  have "\<not> have_tx ex_key new_pool" "m_transactions new_pool = []" by (simp_all add: have_tx_def new_pool_def)
  with add_tx_cases [OF pool_inv_new ex_transfer_images a] ex_transfer_accepted
  have "r" "m_transactions p = [pool_entry ex_validator 10 ex_transfer ex_key 300 True]" by auto
  moreover have "reachable_pool ex_currency p"
    using pool_steps [OF pool_start step_add [OF ex_transfer_images _ a]] by simp
  ultimately show ?thesis using a by auto
qed





text \<open>
  (C38) The transactions chosen for a block are ready transactions of the pool, no two of which spend
  anything in common; size and fee are their sums, and the size stays within the limits; choosing them
  keeps the pool intact.
\<close>

theorem block_template:
  assumes "pool_inv p" and "fill_block_template c v med mx p = (hashes, sz, fee, p')"
  shows "pool_inv p' \<and> (\<exists>ds. hashes = map td_id ds \<and> set ds \<subseteq> set (m_transactions p) \<and> (\<forall>d \<in> set ds. ready v d)
    \<and> sorted_wrt disjoint_spends ds \<and> sz = sum_list (map blobSize ds) \<and> fee = sum_list (map td_fee ds)
    \<and> unat sz \<le> max (m_fusionTxMaxSize c) (max (unat med) (unat (max_total c med mx))))"
  by (rule fill_block_template_ok [OF assms])

theorem block_template_witness:
  "\<exists>p hashes sz fee p'. m_transactions p \<noteq> [] \<and> pool_inv p \<and> fill_block_template ex_currency ex_validator 1000 5000 p = (hashes, sz, fee, p')
    \<and> pool_inv p' \<and> (\<forall>h \<in> set hashes. have_tx h p)"
proof -
  obtain p where p: "m_transactions p = [pool_entry ex_validator 10 ex_transfer ex_key 300 True]" "reachable_pool ex_currency p"
    using ex_pool by blast
  have i: "pool_inv p" using reachable_pool_ok [OF p(2)] by (simp add: pool_ok_def)
  obtain hashes sz fee p' where f: "fill_block_template ex_currency ex_validator 1000 5000 p = (hashes, sz, fee, p')" by (metis prod_cases4)
  from block_template [OF i f] obtain ds where "pool_inv p'" "hashes = map td_id ds" "set ds \<subseteq> set (m_transactions p)" by blast
  then have "pool_inv p'" "\<forall>h \<in> set hashes. have_tx h p" by (auto simp: have_tx_def intro!: imageI)
  moreover have "m_transactions p \<noteq> []" using p(1) by simp
  ultimately show ?thesis using i f by blast
qed

text \<open>
  (C39) Expiry removes exactly the transactions that are too old, remembers their ids, notifies the
  observers exactly if something was removed, and keeps the pool intact.
\<close>

theorem pool_expiry:
  assumes "pool_inv p" and "removeExpiredTransactions c now p = (r, notified, p')"
  shows "r \<and> pool_inv p' \<and> m_transactions p' = filter (\<lambda>d. \<not> expired c now d) (m_transactions p)
    \<and> notified = (if \<exists>d \<in> set (m_transactions p). expired c now d then m_observers (m_observerManager p) else [])
    \<and> (\<forall>d \<in> set (m_transactions p). expired c now d \<longrightarrow> m_recentlyDeletedTransactions p' (td_id d) \<noteq> None)"
  by (rule removeExpired_ok [OF assms])

theorem pool_expiry_witness:
  "\<exists>p r notified p'. have_tx ex_key p \<and> removeExpiredTransactions (ex_currency\<lparr>m_mempoolTxFromAltBlockLiveTime := 50\<rparr>) 100 p = (r, notified, p')
    \<and> \<not> have_tx ex_key p' \<and> m_recentlyDeletedTransactions p' ex_key \<noteq> None"
proof -
  let ?c = "ex_currency\<lparr>m_mempoolTxFromAltBlockLiveTime := 50\<rparr>" and ?d = "pool_entry ex_validator 10 ex_transfer ex_key 300 True"
  obtain p where p: "m_transactions p = [?d]" "reachable_pool ex_currency p" using ex_pool by blast
  have i: "pool_inv p" using reachable_pool_ok [OF p(2)] by (simp add: pool_ok_def)
  obtain r n p' where f: "removeExpiredTransactions ?c 100 p = (r, n, p')" by (metis prod_cases3)
  have "expired ?c 100 ?d" by (simp add: expired_def pool_entry_def)
  with pool_expiry [OF i f] p(1) have "\<not> have_tx ex_key p'" "m_recentlyDeletedTransactions p' ex_key \<noteq> None"
    by (auto simp: have_tx_def pool_entry_def)
  moreover have "have_tx ex_key p" by (simp add: have_tx_def p(1) pool_entry_def)
  ultimately show ?thesis using f by blast
qed

section \<open>The chain\<close>

definition ex_env :: chain_env where
  "ex_env = \<lparr>ce_currency = ex_currency, check_ring_signature = (\<lambda>_ _ _ _. True), check_signature = (\<lambda>_ _ _. True),
    ce_slow_hash = (\<lambda>_. replicate 32 0), ce_time = 1500000000\<rparr>"

definition ex_reward :: Transaction where
  "ex_reward = \<lparr>version = 1, unlockTime = 60, inputs = [VBaseInput \<lparr>blockIndex = 0\<rparr>],
    outputs = [\<lparr>to_amount = 5297660827636, to_target = VKeyOutput \<lparr>ko_key = ex_key\<rparr>\<rparr>], extra = [], signatures = [[]]\<rparr>"

definition ex_first :: Block where
  "ex_first = \<lparr>majorVersion = 1, minorVersion = 0, nonce = 7, timestamp = 1500000000, previousBlockHash = NULL_HASH,
    baseTransaction = ex_reward, transactionHashes = []\<rparr>"

definition ex_world :: world where
  "ex_world = \<lparr>w_currency = ex_currency, w_checkpoints = empty_Checkpoints, w_blocks = {ex_first}, w_txs = {ex_reward}\<rparr>"

abbreviation ex_chain :: Blockchain where
  "ex_chain \<equiv> new_Blockchain new_pool"

lemmas ex_chain_defs = ex_first_def ex_reward_def ex_key_def

lemma ex_chain_values:
  "m_timestampCheckWindow ex_currency = 60" "m_blockFutureTimeLimit ex_currency = 7200" "m_difficultyLag ex_currency = 15"
  "maxBlockCumulativeSize ex_currency 0 = Some 20480"
  by (simp_all add: ex_currency_def CurrencyBuilder_def set_emissionSpeedFactor_def set_difficultyWindow_def set_numberOfDecimalPlaces_def
      EMISSION_SPEED_FACTOR_def difficulty_window_value ORBIS_DISPLAY_DECIMAL_POINT_def Let_def upt_rec BLOCKCHAIN_TIMESTAMP_CHECK_WINDOW_def
      ORBIS_BLOCK_FUTURE_TIME_LIMIT_def DIFFICULTY_LAG_def maxBlockCumulativeSize_def MAX_BLOCK_SIZE_INITIAL_def
      MAX_BLOCK_SIZE_GROWTH_SPEED_DENOMINATOR_def DIFFICULTY_TARGET_def)

lemma ex_first_ok: "ok_Block ex_first" "ok_Transaction ex_reward"
  by (simp_all add: ok_simps ex_chain_defs NULL_HASH_def)

lemma ex_reward_size: "getObjectBinarySize out_Transaction ex_reward = length (fmt_Transaction ex_reward)"
  by (simp add: getObjectBinarySize_def tx.toBinaryArray_fmt [OF ex_first_ok(2)])

lemma ex_reward_length: "length (fmt_Transaction ex_reward) = 47"
  by (simp add: fmt_Transaction_def fmt_TransactionPrefix_def ex_chain_defs TransactionPrefix.defs uint_fmt_def list_fmt_def string_fmt_def
      varint_bytes.simps fmt_BaseInput_def fmt_TransactionOutput_def)

lemma ex_first_header: "header_ok ex_env ex_chain ex_first 1"
proof -
  obtain bl where "get_block_hashing_blob ex_first = Some bl" using hashing_blob [OF ex_first_ok(1)] by metis
  moreover have "check_hash (replicate 32 0) 1" by code_simp
  ultimately have "checkProofOfWork (ce_slow_hash ex_env) ex_first 1" by (simp add: checkProofOfWork_def get_block_longhash_def ex_env_def)
  then show ?thesis
    by (simp add: header_ok_def new_Blockchain_def hasBlock_def empty_BlockIndex_def bc_getTailId_def ex_first_def check_block_timestamp_main_def
        check_block_timestamp_def ex_env_def ex_chain_values getDifficultyForNextBlock_def nextDifficulty_def of_opt_def empty_Checkpoints_def
        is_in_checkpoint_zone_def prevalidate_miner_transaction_def getCurrentBlockchainHeight_def ex_currency_values ex_reward_def
        check_outs_overflow_def)
qed

lemma ex_first_pushed: "\<exists>bc'. pushBlock ex_env ex_first bvc ex_chain = Inr (True, bvc\<lparr>m_added_to_main_chain := True\<rparr>, bc')"
proof -
  have reward: "getBlockReward ex_currency 0 47 0 0 = Some (Some (5297660827636, 5297660827636))"
    by (simp add: getBlockReward_def ex_currency_values getPenalizedAmount_def Let_def max_def)
  have fields: "inputs ex_reward = [VBaseInput \<lparr>blockIndex = 0\<rparr>]" "checkMultisignatureInputsDiff ex_reward"
    "outputs ex_reward = [\<lparr>to_amount = 5297660827636, to_target = VKeyOutput \<lparr>ko_key = ex_key\<rparr>\<rparr>]"
    by (simp_all add: ex_reward_def checkMultisignatureInputsDiff_def)
  have base: "baseTransaction ex_first = ex_reward" "transactionHashes ex_first = []" by (simp_all add: ex_first_def)
  have "\<exists>bc'. push_checked ex_env ex_first [] 1 bvc ex_chain = Inr (True, bvc\<lparr>m_added_to_main_chain := True\<rparr>, bc')"
    using ex_chain_values(4) reward
    by (simp add: push_checked_def Let_def pushTransaction_def new_Blockchain_def base fields ex_reward_size ex_reward_length checkCumulativeBlockSize_def
        validate_miner_transaction_def get_last_n_blocks_sizes_def medianValue_def ex_env_def of_opt_def getCoinsInCirculation_def
        pushBlock_entry_def generated_add_def base_height_def empty_GeneratedTransactionsIndex_def split_beta)
  then show ?thesis using pushBlock_header_ok [OF ex_first_header, of "[]" bvc] by (auto simp: pushBlock_def loadTransactions_def base)
qed

lemma ex_chain_ok: "chain_inv ex_chain" "pool_sem (m_tx_pool ex_chain)" "block_fits ex_chain ex_first"
proof -
  show "pool_sem (m_tx_pool ex_chain)" using pool_inv_new by (simp add: pool_sem_def new_Blockchain_def new_pool_def)
  show "block_fits ex_chain ex_first" by (simp add: block_fits_def no_collision_def new_Blockchain_def new_pool_def ex_first_def)
qed (rule new_Blockchain_inv)

text \<open>
  (C3) A block that extends the chain: it is accepted only if its header passes the checks, its transactions
  are those of the pool, and it pays the right reward; then the chain has one more block, with the right
  totals, and every table and index is that of the longer chain. A block that is refused changes
  neither the chain nor the transactions of the pool, except that a block that is too large leaves its
  transactions in the tables.
\<close>

theorem push_block:
  assumes "chain_inv bc" and "pool_sem (m_tx_pool bc)" and "block_fits bc b" and "pushBlock E b bvc bc = Inr (ok, bvc', bc')"
  shows "pool_sem (m_tx_pool bc') \<and>
    (if ok
     then \<exists>e txs diff. m_blocks bc' = m_blocks bc @ [e] \<and> extends E b txs diff (m_blocks bc) e \<and> header_ok E bc b diff
       \<and> chain_inv bc' \<and> map tx_hash txs = transactionHashes b \<and> pool_txs bc = pool_txs bc' \<union> set txs
     else pool_txs bc' = pool_txs bc \<and> (same_chain bc bc'
       \<or> (\<exists>txs. map tx_hash txs = transactionHashes b \<and> set txs \<subseteq> pool_txs bc \<and> leaks E b txs bc bc')))"
  using pushBlock_cases [OF assms] by (cases ok) auto

theorem push_block_witness:
  "\<exists>bc'. pushBlock ex_env ex_first new_bvc ex_chain = Inr (True, new_bvc\<lparr>m_added_to_main_chain := True\<rparr>, bc')
    \<and> chain_inv bc' \<and> length (m_blocks bc') = 1"
proof -
  obtain bc' where p: "pushBlock ex_env ex_first new_bvc ex_chain = Inr (True, new_bvc\<lparr>m_added_to_main_chain := True\<rparr>, bc')"
    using ex_first_pushed by blast
  from push_block [OF ex_chain_ok p] p show ?thesis by (auto simp: new_Blockchain_def)
qed



lemma ex_world_ok: "world_ok ex_world" "ce_currency ex_env = w_currency ex_world" "ex_first \<in> w_blocks ex_world"
proof -
  have "get_block_height ex_first = 0" by (simp add: get_block_height_def ex_chain_defs)
  then have "block_ok ex_world ex_first" using ex_chain_values(4)
    by (auto simp: block_ok_def ex_world_def ex_first_def ex_reward_size ex_reward_length)
  then show "world_ok ex_world" using ex_currency_values(5)
    by (auto simp: world_ok_def ex_world_def difficultyBlocksCount_def)
qed (simp_all add: ex_world_def ex_env_def)

lemma ex_first_added:
  "\<exists>bc'. addNewBlock 1 ex_env ex_first new_bvc ex_chain = Inr (True, new_bvc\<lparr>m_added_to_main_chain := True\<rparr>, bc', m_observers (bc_observers bc'))"
proof -
  obtain bl where "get_block_hashing_blob ex_first = Some bl" using hashing_blob [OF ex_first_ok(1)] by metis
  then have "fst (get_block_hash ex_first)"
    by (simp add: get_block_hash_def getObjectHash_def toBinaryArray_def out_BinaryArray_def out_string_def writeVarint_bytes split: option.splits sum.splits)
  moreover have "\<not> haveBlock ex_chain h" for h by (simp add: haveBlock_def new_Blockchain_def hasBlock_def empty_BlockIndex_def)
  moreover have "bc_getTailId ex_chain = Inr (previousBlockHash ex_first)" by (simp add: bc_getTailId_def new_Blockchain_def ex_first_def)
  moreover obtain bc' where "pushBlock ex_env ex_first new_bvc ex_chain = Inr (True, new_bvc\<lparr>m_added_to_main_chain := True\<rparr>, bc')"
    using ex_first_pushed by blast
  ultimately show ?thesis by (simp add: addNewBlock_def split_beta)
qed

lemma ex_start: "reachable_chain ex_world ex_env ex_chain"
proof -
  have "ex_chain = ex_chain\<lparr>m_checkpoints := w_checkpoints ex_world\<rparr>" by (simp add: new_Blockchain_def ex_world_def)
  then show ?thesis using chain_start [of new_pool ex_world ex_env] ex_chain_ok(2) by (simp add: new_Blockchain_def new_pool_def)
qed

lemma ex_reached: "\<exists>bc. reachable_chain ex_world ex_env bc \<and> length (m_blocks bc) = 1"
proof -
  note start = ex_start
  obtain bc' where a: "addNewBlock 1 ex_env ex_first new_bvc ex_chain = Inr (True, new_bvc\<lparr>m_added_to_main_chain := True\<rparr>, bc', m_observers (bc_observers bc'))"
    using ex_first_added by blast
  have t: "ex_env\<lparr>ce_time := 1500000000\<rparr> = ex_env" by (simp add: ex_env_def)
  from chain_block [OF start ex_world_ok(3), of 1 1500000000] a have r: "reachable_chain ex_world ex_env bc'" unfolding t by blast
  have "bc_getTailId ex_chain = Inr (previousBlockHash ex_first)" by (simp add: bc_getTailId_def new_Blockchain_def ex_first_def)
  with addNewBlock_ok [OF ex_world_ok(1,2) reachable_chain_ok [OF ex_world_ok(1,2) start] ex_world_ok(3) a]
  have "map be_bl (m_blocks bc') = [ex_first]" by (simp add: new_Blockchain_def)
  then have "length (m_blocks bc') = 1" by (metis length_map One_nat_def list.size(3,4) add_0)
  with r show ?thesis by blast
qed



text \<open>
  (C7) In every reachable state the blocks form a chain: block \<open>b\<close> has height \<open>b\<close> in its entry and in its coinbase
  input, names the block before it, holds the transactions it lists, and is the one that the index has
  at this height.
\<close>

theorem chain_well_formed:
  assumes "world_ok W" and "ce_currency E = w_currency W" and "reachable_chain W E bc" and "b < length (m_blocks bc)"
  shows "let e = m_blocks bc ! b in
    be_height e = of_nat b \<and> inputs (baseTransaction (be_bl e)) = [VBaseInput \<lparr>blockIndex = of_nat b\<rparr>]
    \<and> (0 < b \<longrightarrow> previousBlockHash (be_bl e) = block_id (m_blocks bc ! (b - 1)))
    \<and> map (\<lambda>te. tx_hash (te_tx te)) (be_transactions e) = tx_hash (baseTransaction (be_bl e)) # transactionHashes (be_bl e)
    \<and> getBlockId (m_blockIndex bc) (of_nat b) = Some (block_id e) \<and> getBlockHeight (m_blockIndex bc) (block_id e) = Some (of_nat b)"
proof -
  have ok: "chain_inv bc" "path W (m_blocks bc)" using chain_ok_parts(1,5) [OF reachable_chain_ok [OF assms(1-3)]] .
  let ?e = "m_blocks bc ! b"
  have e: "entry_ok b ?e" "m_container (m_blockIndex bc) = map block_id (m_blocks bc)" "distinct (map block_id (m_blocks bc))" "length (m_blocks bc) < 2 ^ 32"
    using ok(1) assms(4) by (simp_all add: chain_inv_def indices_ok_def)
  have "map (\<lambda>te. tx_hash (te_tx te)) (be_transactions ?e) = tx_hash (baseTransaction (be_bl ?e)) # transactionHashes (be_bl ?e)"
    using e(1) by (cases "be_transactions ?e") (auto simp: entry_ok_def entry_txs_def)
  moreover have h: "getBlockHeight (m_blockIndex bc) (block_id ?e) = Some (of_nat b)"
    using height_of_nth [of "m_blockIndex bc" b] e assms(4) by (simp add: index_ok_def)
  moreover have "getBlockId (m_blockIndex bc) (of_nat b) = Some (block_id ?e)"
    using height_iff_id [of "m_blockIndex bc" "block_id ?e" "of_nat b"] h e by (simp add: index_ok_def)
  moreover have "0 < b \<longrightarrow> previousBlockHash (be_bl ?e) = block_id (m_blocks bc ! (b - 1))"
    using path_link [OF ok(2), of "b - 1"] assms(4) by (cases b) simp_all
  ultimately show ?thesis using e(1) by (simp add: Let_def entry_ok_def)
qed

theorem chain_well_formed_witness:
  "\<exists>bc :: Blockchain. length (m_blocks bc) = 1 \<and> be_height (m_blocks bc ! 0) = 0 \<and> getBlockId (m_blockIndex bc) 0 = Some (block_id (m_blocks bc ! 0))"
proof -
  obtain bc where bc: "reachable_chain ex_world ex_env bc" "length (m_blocks bc) = 1" using ex_reached by blast
  then have "0 < length (m_blocks bc)" by simp
  from chain_well_formed [OF ex_world_ok(1,2) bc(1) this] have "be_height (m_blocks bc ! 0) = 0"
    "getBlockId (m_blockIndex bc) 0 = Some (block_id (m_blocks bc ! 0))" by (simp_all add: Let_def)
  with bc(2) show ?thesis by blast
qed





text \<open>
  (C5) Handling a new block ends. The walk back through the alternative blocks reaches the main chain or an
  unknown block. Switching to an alternative chain handles the old blocks by a nested call; on a node without
  checkpoints, where the work of a chain does not wrap around, this call never switches again, so that
  it does not matter what the calls inside it would do (\<open>inner\<close>), and a bound of two on the depth of
  the calls gives the same result as any greater bound.
\<close>

theorem new_block_ends:
  assumes "world_ok W" and "ce_currency E = w_currency W" and "reachable_chain W E bc" and "b \<in> w_blocks W"
  shows "(\<exists>cs. alt_walk (m_alternative_chains bc) (previousBlockHash b) [] = Some cs)
    \<and> (m_points (w_checkpoints W) = [] \<and> work_grows W \<longrightarrow>
        handle_alternative_block (n + 2) E b (snd (get_block_hash b)) bvc send bc
          = handle_alternative_step (handle_alternative_step inner E) E b (snd (get_block_hash b)) bvc send bc
        \<and> addNewBlock (n + 2) E b bvc bc = addNewBlock 2 E b bvc bc)"
proof -
  note ok = reachable_chain_ok [OF assms(1-3)]
  show ?thesis using alt_walk_returns [OF assms(1) ok] handle_alternative_block_depth [OF assms(1,2) _ _ ok assms(4)]
      addNewBlock_depth [OF assms(1,2) _ _ ok assms(4)] by blast
qed

theorem new_block_ends_witness:
  "(\<exists>cs. alt_walk (m_alternative_chains ex_chain) (previousBlockHash ex_first) [] = Some cs)
    \<and> addNewBlock 5 ex_env ex_first new_bvc ex_chain = addNewBlock 2 ex_env ex_first new_bvc ex_chain"
proof -
  have "length es = 0" if p: "path ex_world (es @ [e])" for es e
  proof (rule ccontr)
    assume "length es \<noteq> 0"
    then have "coinbase_input 0 = coinbase_input (length es)" using path_coinbase [OF p, of 0] path_coinbase [OF p, of "length es"] path_blocks [OF p]
      by (auto simp: nth_append ex_world_def neq_Nil_conv)
    with path_height [OF p] \<open>length es \<noteq> 0\<close> of_nat_u32_inj [of 0 "length es"] show False by auto
  qed
  then have "work_grows ex_world" by (auto simp: work_grows_def)
  moreover have "m_points (w_checkpoints ex_world) = []" by (simp add: ex_world_def empty_Checkpoints_def)
  ultimately show ?thesis using new_block_ends [OF ex_world_ok(1,2) ex_start ex_world_ok(3), of 3] by auto
qed

text \<open>
  (C8) The difficulty that is asked of a block on an alternative chain is the difficulty it would have if the
  main chain ended with the blocks before it, so a chain has the same work wherever it is.
\<close>

theorem alternative_difficulty:
  assumes "0 < s" and "s \<le> length (m_blocks bc)" and "s < 2 ^ 32" and "0 < difficultyBlocksCount (ce_currency E)"
    and "(if es \<noteq> [] then be_height (hd es) else height) = of_nat s"
  shows "get_next_difficulty_for_alternative_chain E bc es height
    = getDifficultyForNextBlock E (bc\<lparr>m_blocks := take s (m_blocks bc) @ es\<rparr>)"
  using alternative_difficulty_eq [OF assms] by (simp add: main_difficulty)

theorem alternative_difficulty_witness:
  "\<exists>bc :: Blockchain. length (m_blocks bc) = 1 \<and> get_next_difficulty_for_alternative_chain ex_env bc [] 1 = getDifficultyForNextBlock ex_env bc"
proof -
  obtain bc :: Blockchain where bc: "length (m_blocks bc) = 1" using ex_reached by blast
  have "0 < difficultyBlocksCount (ce_currency ex_env)" using ex_world_ok(1,2) by (simp add: world_ok_def)
  from alternative_difficulty [of 1 bc ex_env "[]" 1, OF _ _ _ this] bc show ?thesis by auto
qed

end
